(* ===== verification/Prelude.thy ===== *)
theory Prelude
  imports Main "HOL-Library.Word" "HOL-Library.Multiset"
begin

text \<open>
  Shared vocabulary of the development: run-time failures of Go as values, slices with
  checked indices, the contract of \<^verbatim>\<open>sort.Sort\<close>, reachability of labelled transition
  systems, and the generic lemmas on lists the components use.
\<close>

named_theorems go_simps \<open>unfolding rules for the checked slice operations\<close>
named_theorems inv_intros \<open>preservation of component invariants\<close>

section \<open>Run-time failures\<close>

text \<open>
  A Go statement either completes or stops the goroutine: an index out of range, a write to
  a nil map, a division by zero, a failed type assertion, \<^verbatim>\<open>panic\<close>, \<^verbatim>\<open>log.Fatal\<close> and \<^verbatim>\<open>os.Exit\<close> are values of
  this type.  Results are sums, the failure on the left.
\<close>

datatype go_panic = IndexOutOfRange | MakeSliceLen | NilDereference | DivideByZero | TypeAssertion | Panic string | Fatal string | Exit int

type_synonym 'a go = "go_panic + 'a"

fun go_bind :: "'a go \<Rightarrow> ('a \<Rightarrow> 'b go) \<Rightarrow> 'b go" where
  "go_bind (Inl e) f = Inl e"
| "go_bind (Inr x) f = f x"

lemma go_bind_Inr_conv [simp]: "go_bind m f = Inr y \<longleftrightarrow> (\<exists>x. m = Inr x \<and> f x = Inr y)"
  by (cases m) auto

lemma go_bind_Inl_conv:
  "go_bind m f = Inl e \<longleftrightarrow> m = Inl e \<or> (\<exists>x. m = Inr x \<and> f x = Inl e)"
  by (cases m) auto

lemma go_bind_assoc: "go_bind (go_bind m f) g = go_bind m (\<lambda>x. go_bind (f x) g)"
  by (cases m) auto

text \<open>A computation that does not fail and whose result satisfies \<open>P\<close>, with its calculus.\<close>

definition go_ok :: "('a \<Rightarrow> bool) \<Rightarrow> 'a go \<Rightarrow> bool" where
  "go_ok P m \<longleftrightarrow> (\<exists>x. m = Inr x \<and> P x)"

lemma go_okI: "m = Inr x \<Longrightarrow> P x \<Longrightarrow> go_ok P m"
  by (simp add: go_ok_def)

lemma go_okE: "go_ok P m \<Longrightarrow> (\<And>x. m = Inr x \<Longrightarrow> P x \<Longrightarrow> thesis) \<Longrightarrow> thesis"
  by (auto simp: go_ok_def)

lemma go_ok_Inr [simp]: "go_ok P (Inr x) \<longleftrightarrow> P x"
  by (simp add: go_ok_def)

lemma go_ok_bind: "go_ok Q m \<Longrightarrow> (\<And>x. Q x \<Longrightarrow> go_ok P (f x)) \<Longrightarrow> go_ok P (go_bind m f)"
  by (auto simp: go_ok_def)

lemma go_ok_mono: "go_ok Q m \<Longrightarrow> (\<And>x. Q x \<Longrightarrow> P x) \<Longrightarrow> go_ok P m"
  by (auto simp: go_ok_def)

lemma go_ok_if: "(b \<Longrightarrow> go_ok P m) \<Longrightarrow> (\<not> b \<Longrightarrow> go_ok P n) \<Longrightarrow> go_ok P (if b then m else n)"
  by simp

primrec iter_go :: "nat \<Rightarrow> ('a \<Rightarrow> 'a go) \<Rightarrow> 'a \<Rightarrow> 'a go" where
  "iter_go 0 f x = Inr x"
| "iter_go (Suc k) f x = go_bind (f x) (iter_go k f)"

section \<open>Slices\<close>

text \<open>Reading and writing an element of a slice; indices are Go ints.\<close>

definition in_range :: "'a list \<Rightarrow> int \<Rightarrow> bool" where
  "in_range xs i \<longleftrightarrow> 0 \<le> i \<and> i < int (length xs)"

definition slice_get :: "'a list \<Rightarrow> int \<Rightarrow> 'a go" where
  "slice_get xs i = (if in_range xs i then Inr (xs ! nat i) else Inl IndexOutOfRange)"

definition slice_set :: "'a list \<Rightarrow> int \<Rightarrow> 'a \<Rightarrow> 'a list go" where
  "slice_set xs i v = (if in_range xs i then Inr (xs[nat i := v]) else Inl IndexOutOfRange)"

lemma slice_get_Inr [go_simps]:
  "slice_get xs i = Inr x \<longleftrightarrow> in_range xs i \<and> x = xs ! nat i"
  by (auto simp: slice_get_def)

lemma slice_set_Inr [go_simps]:
  "slice_set xs i v = Inr ys \<longleftrightarrow> in_range xs i \<and> ys = xs[nat i := v]"
  by (auto simp: slice_set_def)

lemma slice_get_ok [simp]: "in_range xs i \<Longrightarrow> slice_get xs i = Inr (xs ! nat i)"
  by (simp add: slice_get_def)

lemma slice_set_ok [simp]: "in_range xs i \<Longrightarrow> slice_set xs i v = Inr (xs[nat i := v])"
  by (simp add: slice_set_def)

lemma in_range_nat [simp]: "in_range xs (int n) \<longleftrightarrow> n < length xs"
  by (simp add: in_range_def)

lemma in_range_Suc [simp]: "in_range xs (1 + int n) \<longleftrightarrow> Suc n < length xs"
  by (auto simp: in_range_def)

lemma in_range_zero [simp]: "in_range xs 0 \<longleftrightarrow> xs \<noteq> []"
  by (auto simp: in_range_def)

lemma nat_one_plus [simp]: "nat (1 + int n) = Suc n"
  by simp

lemma in_rangeD: "in_range xs i \<Longrightarrow> nat i < length xs"
  by (auto simp: in_range_def)

lemma slice_get_set_same: "slice_set xs i v = Inr ys \<Longrightarrow> slice_get ys i = Inr v"
  by (auto simp: slice_set_def slice_get_def in_range_def split: if_splits)

lemma slice_get_set_other:
  "slice_set xs i v = Inr ys \<Longrightarrow> i \<noteq> j \<Longrightarrow> slice_get ys j = slice_get xs j"
  by (auto simp: slice_set_def slice_get_def in_range_def split: if_splits)

section \<open>Labelled transition systems\<close>

text \<open>
  Reachability from an initial state by steps that carry an event, and runs as lists of
  events.  Components state their safety properties over \<open>reach\<close>.
\<close>

inductive reach :: "('s \<Rightarrow> bool) \<Rightarrow> ('s \<Rightarrow> 'e \<Rightarrow> 's \<Rightarrow> bool) \<Rightarrow> 's \<Rightarrow> bool"
  for init step where
  reach_init: "init s \<Longrightarrow> reach init step s"
| reach_step: "reach init step s \<Longrightarrow> step s e t \<Longrightarrow> reach init step t"

inductive run_of :: "('s \<Rightarrow> 'e \<Rightarrow> 's \<Rightarrow> bool) \<Rightarrow> 's \<Rightarrow> 'e list \<Rightarrow> 's \<Rightarrow> bool"
  for step where
  run_nil: "run_of step s [] s"
| run_cons: "step s e t \<Longrightarrow> run_of step t es u \<Longrightarrow> run_of step s (e # es) u"

inductive_simps run_of_Nil [simp]: "run_of step s [] t"
inductive_simps run_of_Cons: "run_of step s (e # es) t"

lemma run_of_append:
  "run_of step s es t \<Longrightarrow> run_of step t fs u \<Longrightarrow> run_of step s (es @ fs) u"
  by (induction rule: run_of.induct) (auto intro: run_of.intros)

lemma reach_run:
  "run_of step s es t \<Longrightarrow> reach init step s \<Longrightarrow> reach init step t"
  by (induction rule: run_of.induct) (auto intro: reach.intros)

text \<open>The invariant rule, as an interface between a component's steps and its invariant.\<close>

locale invariant_system =
  fixes init :: "'s \<Rightarrow> bool"
    and step :: "'s \<Rightarrow> 'e \<Rightarrow> 's \<Rightarrow> bool"
    and inv :: "'s \<Rightarrow> bool"
  assumes inv_init: "init s \<Longrightarrow> inv s"
    and inv_step: "inv s \<Longrightarrow> step s e t \<Longrightarrow> inv t"
begin

lemma reach_inv: "reach init step s \<Longrightarrow> inv s"
  by (induction rule: reach.induct) (auto intro: inv_init inv_step)

lemma run_inv: "run_of step s es t \<Longrightarrow> inv s \<Longrightarrow> inv t"
  by (induction rule: run_of.induct) (auto intro: inv_step)

end

section \<open>Decimal numbers\<close>

text \<open>\<^verbatim>\<open>strconv.Itoa\<close> and the verb \<^verbatim>\<open>%d\<close>, and the value of a digit string.\<close>

definition digit_char :: "nat \<Rightarrow> char" where
  "digit_char d = char_of (48 + d)"

fun show_nat :: "nat \<Rightarrow> string" where
  "show_nat n = (if n < 10 then [digit_char n] else show_nat (n div 10) @ [digit_char (n mod 10)])"

declare show_nat.simps [simp del]

definition Itoa :: "int \<Rightarrow> string" where
  "Itoa i = (if i < 0 then CHR ''-'' # show_nat (nat (- i)) else show_nat (nat i))"

definition digits_value :: "string \<Rightarrow> nat" where
  "digits_value = foldl (\<lambda>n c. 10 * n + (of_char c - 48)) 0"

lemma of_char_digit [simp]: "d < 10 \<Longrightarrow> of_char (digit_char d) = 48 + d"
  by (simp add: digit_char_def)

lemma digits_value_show_nat [simp]: "digits_value (show_nat n) = n"
proof (induction n rule: show_nat.induct)
  case (1 n)
  show ?case
  proof (cases "n < 10")
    case True
    then show ?thesis by (simp add: show_nat.simps [of n] digits_value_def)
  next
    case False
    with "1.IH" have "digits_value (show_nat (n div 10)) = n div 10" by simp
    with False show ?thesis by (simp add: show_nat.simps [of n] digits_value_def)
  qed
qed

lemma show_nat_inj [simp]: "show_nat m = show_nat n \<longleftrightarrow> m = n"
  by (metis digits_value_show_nat)

lemma set_show_nat: "c \<in> set (show_nat n) \<Longrightarrow> (48 :: nat) \<le> of_char c \<and> of_char c < (58 :: nat)"
proof (induction n rule: show_nat.induct)
  case (1 n)
  then show ?case
    by (cases "n < 10") (auto simp: show_nat.simps [of n])
qed

lemma minus_notin_show_nat [simp]: "CHR ''-'' \<notin> set (show_nat n)"
  using set_show_nat [of "CHR ''-''" n] by auto

lemma show_nat_neq_Nil [simp]: "show_nat n \<noteq> []"
  by (subst show_nat.simps) simp

lemma Itoa_inj [simp]: "Itoa i = Itoa j \<longleftrightarrow> i = j"
proof -
  have "show_nat m \<noteq> CHR ''-'' # xs" for m xs
    using minus_notin_show_nat [of m] by (metis list.set_intros(1))
  then show ?thesis
    by (auto simp: Itoa_def eq_commute [of "CHR ''-'' # _"])
qed

section \<open>Lists and association lists\<close>

text \<open>
  A Go map that is iterated over is a list of distinct keys with their values: a store
  replaces the value of a present key and adds an absent one.
\<close>

fun al_put :: "'k \<Rightarrow> 'v \<Rightarrow> ('k \<times> 'v) list \<Rightarrow> ('k \<times> 'v) list" where
  "al_put k v [] = [(k, v)]"
| "al_put k v ((k', v') # m) = (if k' = k then (k, v) # m else (k', v') # al_put k v m)"

definition al_del :: "'k \<Rightarrow> ('k \<times> 'v) list \<Rightarrow> ('k \<times> 'v) list" where
  "al_del k m = filter (\<lambda>p. fst p \<noteq> k) m"

lemma map_of_al_put [simp]: "map_of (al_put k v m) = (map_of m)(k \<mapsto> v)"
  by (induction k v m rule: al_put.induct) auto

lemma keys_al_put [simp]: "fst ` set (al_put k v m) = insert k (fst ` set m)"
  by (induction k v m rule: al_put.induct) auto

lemma distinct_al_put [simp]: "distinct (map fst (al_put k v m)) = distinct (map fst m)"
  using keys_al_put by (induction k v m rule: al_put.induct) auto

lemma keys_al_del [simp]: "fst ` set (al_del k m) = fst ` set m - {k}"
  by (auto simp: al_del_def)

lemma map_of_al_del [simp]: "map_of (al_del k m) = (map_of m)(k := None)"
  by (induction m) (auto simp: al_del_def fun_eq_iff)

lemma distinct_al_del [simp]: "distinct (map fst m) \<Longrightarrow> distinct (map fst (al_del k m))"
  by (auto simp: al_del_def distinct_map inj_on_def)

lemma list_all_update:
  "(\<And>j. j < length xs \<Longrightarrow> P j (xs ! j)) \<Longrightarrow> P i v \<Longrightarrow> j < length xs \<Longrightarrow> P j (xs[i := v] ! j)"
  by (cases "i = j") auto

section \<open>Strings\<close>

text \<open>\<^verbatim>\<open>strings.Split\<close> with a separator of one character.\<close>

fun Split :: "string \<Rightarrow> char \<Rightarrow> string list" where
  "Split [] sep = [[]]"
| "Split (c # s) sep =
     (if c = sep then [] # Split s sep
      else (case Split s sep of [] \<Rightarrow> [[c]] | p # ps \<Rightarrow> (c # p) # ps))"

definition Join :: "string list \<Rightarrow> string \<Rightarrow> string" where
  "Join ss sep = (case ss of [] \<Rightarrow> [] | s # rest \<Rightarrow> s @ concat (map (\<lambda>t. sep @ t) rest))"

lemma Split_neq_Nil [simp]: "Split s sep \<noteq> []"
  by (cases s) (auto split: list.splits)

lemma Split_pieces: "p \<in> set (Split s sep) \<Longrightarrow> sep \<notin> set p"
  by (induction s arbitrary: p) (auto split: if_splits list.splits)

lemma Join_Split: "Join (Split s sep) [sep] = s"
proof (induction s)
  case (Cons c s)
  then show ?case by (cases "Split s sep") (auto simp: Join_def)
qed (simp add: Join_def)

end
