(* ===== verification/Bitset.thy ===== *)
theory Bitset
  imports Prelude
begin

text \<open>
  The bit set of the linearizability checker (\<^verbatim>\<open>porcupine/bitset.go\<close>): a slice of
  64-bit chunks.  Positions are the unsigned ints of the source; the chunk a position
  falls into is read and written with a checked index, as in Go.
\<close>

unbundle bit_operations_syntax

type_synonym bitset = "64 word list"

section \<open>Operations\<close>

definition newBitset :: "nat \<Rightarrow> bitset" where
  "newBitset bits =
     (let extra = (if bits mod 64 \<noteq> 0 then 1 else 0); chunks = bits div 64 + extra
      in replicate chunks 0)"

definition clone :: "bitset \<Rightarrow> bitset" where
  "clone b = map (\<lambda>v. v) b"

definition bitsetIndex :: "nat \<Rightarrow> nat \<times> nat" where
  "bitsetIndex pos = (pos div 64, pos mod 64)"

definition bs_set :: "bitset \<Rightarrow> nat \<Rightarrow> bitset go" where
  "bs_set b pos =
     (case bitsetIndex pos of (major, minor) \<Rightarrow>
        go_bind (slice_get b (int major)) (\<lambda>v.
        slice_set b (int major) (v OR push_bit minor 1)))"

definition bs_clear :: "bitset \<Rightarrow> nat \<Rightarrow> bitset go" where
  "bs_clear b pos =
     (case bitsetIndex pos of (major, minor) \<Rightarrow>
        go_bind (slice_get b (int major)) (\<lambda>v.
        slice_set b (int major) (v AND NOT (push_bit minor 1))))"

definition bs_get :: "bitset \<Rightarrow> nat \<Rightarrow> bool go" where
  "bs_get b pos =
     (case bitsetIndex pos of (major, minor) \<Rightarrow>
        go_bind (slice_get b (int major)) (\<lambda>v. Inr (v AND push_bit minor 1 \<noteq> 0)))"

text \<open>\<^verbatim>\<open>bits.OnesCount64\<close> of the standard library.\<close>

definition OnesCount64 :: "64 word \<Rightarrow> nat" where
  "OnesCount64 v = length (filter (bit v) [0..<64])"

fun popcnt_loop :: "nat \<Rightarrow> bitset \<Rightarrow> nat" where
  "popcnt_loop tot [] = tot"
| "popcnt_loop tot (v # vs) = popcnt_loop (tot + OnesCount64 v) vs"

definition popcnt :: "bitset \<Rightarrow> nat" where
  "popcnt b = popcnt_loop 0 b"

definition bs_hash :: "bitset \<Rightarrow> 64 word" where
  "bs_hash b = foldl (\<lambda>h v. h XOR v) (of_nat (popcnt b)) b"

fun equals_loop :: "bitset \<Rightarrow> bitset \<Rightarrow> bool" where
  "equals_loop (x # xs) (y # ys) = (if x \<noteq> y then False else equals_loop xs ys)"
| "equals_loop _ _ = True"

definition bs_equals :: "bitset \<Rightarrow> bitset \<Rightarrow> bool" where
  "bs_equals b b2 = (if length b \<noteq> length b2 then False else equals_loop b b2)"

section \<open>The set a bit set stands for\<close>

definition bs_elems :: "bitset \<Rightarrow> nat set" where
  "bs_elems b = {p. p < 64 * length b \<and> bit (b ! (p div 64)) (p mod 64)}"

lemma chunk_index: "p < 64 * length b \<Longrightarrow> p div 64 < length b"
  by (simp add: less_mult_imp_div_less mult.commute)

lemma nat_div_64 [simp]: "nat (int p div 64) = p div 64"
  by (simp add: nat_div_distrib)

lemma bit_chunk_OR: "bit (v OR 2 ^ n :: 64 word) m \<longleftrightarrow> bit v m \<or> (m = n \<and> n < 64)"
  by (auto simp: bit_simps)

lemma bit_chunk_ANDNOT: "bit (v AND NOT (2 ^ n) :: 64 word) m \<longleftrightarrow> bit v m \<and> m \<noteq> n"
  by (auto simp: bit_simps dest: bit_imp_le_length)

lemma same_position: "p div 64 = q div 64 \<Longrightarrow> p mod 64 = q mod 64 \<Longrightarrow> p = (q :: nat)"
  by (metis div_mult_mod_eq)

lemmas bs_ops = bs_get_def bs_set_def bs_clear_def bitsetIndex_def

lemma bs_get_mem: "p < 64 * length b \<Longrightarrow> bs_get b p = Inr (p \<in> bs_elems b)"
  using chunk_index [of p b]
  by (simp add: bs_ops and_exp_eq_0_iff_not_bit bs_elems_def flip: of_nat_div)

lemma bs_set_value:
  "p < 64 * length b \<Longrightarrow>
   bs_set b p = Inr (b[p div 64 := b ! (p div 64) OR 2 ^ (p mod 64)])"
  using chunk_index [of p b] by (simp add: bs_ops)

lemma bs_clear_value:
  "p < 64 * length b \<Longrightarrow>
   bs_clear b p = Inr (b[p div 64 := b ! (p div 64) AND NOT (2 ^ (p mod 64))])"
  using chunk_index [of p b] by (simp add: bs_ops)

lemma bs_elems_set:
  "p < 64 * length b \<Longrightarrow>
   bs_elems (b[p div 64 := b ! (p div 64) OR 2 ^ (p mod 64)]) = insert p (bs_elems b)"
  using chunk_index
  by (auto simp: bs_elems_def nth_list_update bit_chunk_OR dest: same_position)

lemma bs_elems_clear:
  "p < 64 * length b \<Longrightarrow>
   bs_elems (b[p div 64 := b ! (p div 64) AND NOT (2 ^ (p mod 64))]) = bs_elems b - {p}"
  using chunk_index
  by (auto simp: bs_elems_def nth_list_update bit_chunk_ANDNOT dest: same_position)

lemma equals_loop_eq: "length xs = length ys \<Longrightarrow> equals_loop xs ys \<longleftrightarrow> xs = ys"
  by (induction xs ys rule: equals_loop.induct) auto

lemma bs_equals_eq: "bs_equals b b2 \<longleftrightarrow> b = b2"
  by (auto simp: bs_equals_def equals_loop_eq)

lemma bs_elems_inj:
  assumes "length b = length b2" and "bs_elems b = bs_elems b2"
  shows "b = b2"
proof (rule nth_equalityI)
  fix i assume i: "i < length b"
  show "b ! i = b2 ! i"
  proof (rule bit_word_eqI)
    fix n assume n: "n < LENGTH(64)"
    have "64 * i + n \<in> bs_elems b \<longleftrightarrow> 64 * i + n \<in> bs_elems b2"
      using assms(2) by simp
    with i n assms(1) show "bit (b ! i) n \<longleftrightarrow> bit (b2 ! i) n"
      by (simp add: bs_elems_def)
  qed
qed (use assms in simp)

lemma popcnt_loop_sum: "popcnt_loop tot b = tot + sum_list (map OnesCount64 b)"
  by (induction b arbitrary: tot) auto

lemma OnesCount64_card: "OnesCount64 v = card {n. n < 64 \<and> bit v n}"
proof -
  have "OnesCount64 v = card (set (filter (bit v) [0..<64]))"
    unfolding OnesCount64_def by (rule distinct_card [symmetric]) simp
  also have "set (filter (bit v) [0..<64]) = {n. n < 64 \<and> bit v n}" by auto
  finally show ?thesis .
qed

lemma finite_bs_elems [simp]: "finite (bs_elems b)"
  by (rule finite_subset [of _ "{..< 64 * length b}"]) (auto simp: bs_elems_def)

lemma bs_elems_Cons:
  "bs_elems (v # b) = {n. n < 64 \<and> bit v n} \<union> (\<lambda>p. p + 64) ` bs_elems b"
proof (rule set_eqI)
  fix p
  show "p \<in> bs_elems (v # b) \<longleftrightarrow> p \<in> {n. n < 64 \<and> bit v n} \<union> (\<lambda>p. p + 64) ` bs_elems b"
  proof (cases "p < 64")
    case True
    then show ?thesis by (auto simp: bs_elems_def)
  next
    case False
    then obtain q where q: "p = q + 64" by (metis le_add_diff_inverse2 not_less)
    have "(q + 64) div 64 - Suc 0 = q div 64" by simp
    with q show ?thesis by (auto simp: bs_elems_def image_iff)
  qed
qed

lemma sum_OnesCount64: "sum_list (map OnesCount64 b) = card (bs_elems b)"
proof (induction b)
  case Nil
  then show ?case by (simp add: bs_elems_def)
next
  case (Cons v b)
  have "card (bs_elems (v # b)) = card {n. n < 64 \<and> bit v n} + card ((\<lambda>p. p + 64) ` bs_elems b)"
    unfolding bs_elems_Cons by (rule card_Un_disjoint) auto
  then show ?case
    using Cons by (simp add: OnesCount64_card card_image)
qed

lemma popcnt_card: "popcnt b = card (bs_elems b)"
  by (simp add: popcnt_def popcnt_loop_sum sum_OnesCount64)

lemma newBitset_empty [simp]: "bs_elems (newBitset n) = {}" "popcnt (newBitset n) = 0"
proof -
  have "bs_elems (replicate k 0) = {}" for k
    by (auto simp: bs_elems_def dest: chunk_index)
  then show "bs_elems (newBitset n) = {}" by (simp add: newBitset_def Let_def)
  then show "popcnt (newBitset n) = 0" by (simp add: popcnt_card)
qed

lemma newBitset_cap: "n \<le> 64 * length (newBitset n)" "64 * length (newBitset n) < n + 64"
proof -
  define q r where "q = n div 64" and "r = n mod 64"
  then have "n = 64 * q + r" and "r < 64"
    by simp_all
  then show "n \<le> 64 * length (newBitset n)" "64 * length (newBitset n) < n + 64"
    by (auto simp: newBitset_def Let_def)
qed

section \<open>The interface the checker uses\<close>

text \<open>
  A mutable set of small numbers of fixed capacity.  The checker sets a bit when it
  linearizes an operation and clears it when it backtracks.
\<close>

locale bounded_set =
  fixes elems :: "'b \<Rightarrow> nat set"
    and cap :: "'b \<Rightarrow> nat"
    and ins :: "'b \<Rightarrow> nat \<Rightarrow> 'b go"
    and del :: "'b \<Rightarrow> nat \<Rightarrow> 'b go"
    and same :: "'b \<Rightarrow> 'b \<Rightarrow> bool"
  assumes ins_ok: "p < cap b \<Longrightarrow> \<exists>b'. ins b p = Inr b' \<and> elems b' = insert p (elems b) \<and> cap b' = cap b"
    and del_ok: "p < cap b \<Longrightarrow> \<exists>b'. del b p = Inr b' \<and> elems b' = elems b - {p} \<and> cap b' = cap b"
    and same_iff: "cap b = cap b2 \<Longrightarrow> same b b2 \<longleftrightarrow> elems b = elems b2"
begin

lemma ins_del_undo:
  assumes "p < cap b" and "p \<notin> elems b"
  shows "\<exists>b1 b2. ins b p = Inr b1 \<and> del b1 p = Inr b2 \<and> same b2 b"
proof -
  obtain b1 where b1: "ins b p = Inr b1" "elems b1 = insert p (elems b)" "cap b1 = cap b"
    using ins_ok [OF assms(1)] by auto
  then obtain b2 where "del b1 p = Inr b2" "elems b2 = elems b1 - {p}" "cap b2 = cap b"
    using del_ok [of p b1] assms(1) by auto
  with b1 assms(2) show ?thesis by (auto simp: same_iff)
qed

lemma ins_commute:
  assumes "p < cap b" and "q < cap b"
  shows "\<exists>b1 b2 c1 c2. ins b p = Inr b1 \<and> ins b1 q = Inr b2 \<and>
           ins b q = Inr c1 \<and> ins c1 p = Inr c2 \<and> same b2 c2"
proof -
  obtain b1 where b1: "ins b p = Inr b1" "elems b1 = insert p (elems b)" "cap b1 = cap b"
    using ins_ok [OF assms(1)] by auto
  obtain b2 where b2: "ins b1 q = Inr b2" "elems b2 = insert q (elems b1)" "cap b2 = cap b"
    using ins_ok [of q b1] assms b1 by auto
  obtain c1 where c1: "ins b q = Inr c1" "elems c1 = insert q (elems b)" "cap c1 = cap b"
    using ins_ok [OF assms(2)] by auto
  obtain c2 where c2: "ins c1 p = Inr c2" "elems c2 = insert p (elems c1)" "cap c2 = cap b"
    using ins_ok [of p c1] assms c1 by auto
  from b1 b2 c1 c2 show ?thesis by (auto simp: same_iff)
qed

end

interpretation bs: bounded_set bs_elems "\<lambda>b. 64 * length b" bs_set bs_clear bs_equals
  by unfold_locales
    (auto simp: bs_set_value bs_clear_value bs_elems_set bs_elems_clear bs_equals_eq
      dest: bs_elems_inj)

section \<open>Properties\<close>

text \<open>C17: Setting, clearing and reading a bit of a bit set implement insertion, deletion and
  membership of the set it stands for: for every position inside the capacity the
  operations do not panic and act on exactly that element.
\<close>

theorem bitset_refines_set:
  assumes "p < 64 * length b"
  shows "\<exists>b1 b2. bs_set b p = Inr b1 \<and> bs_elems b1 = insert p (bs_elems b) \<and>
           bs_clear b p = Inr b2 \<and> bs_elems b2 = bs_elems b - {p} \<and>
           bs_get b p = Inr (p \<in> bs_elems b)"
  using bs.ins_ok [OF assms] bs.del_ok [OF assms] bs_get_mem [OF assms] by auto

theorem bitset_refines_set_witness:
  "(70::nat) < 64 * length (newBitset 80) \<and>
   (\<exists>b1 b2. bs_set (newBitset 80) 70 = Inr b1 \<and> bs_elems b1 = insert 70 (bs_elems (newBitset 80)) \<and>
      bs_clear (newBitset 80) 70 = Inr b2 \<and> bs_elems b2 = bs_elems (newBitset 80) - {70} \<and>
      bs_get (newBitset 80) 70 = Inr (70 \<in> bs_elems (newBitset 80)))"
proof -
  have h: "(70::nat) < 64 * length (newBitset 80)" by (simp add: newBitset_def)
  then show ?thesis using bitset_refines_set [OF h] by blast
qed

text \<open>C33: A new bit set has room for the requested number of bits, wastes less than one
  64-bit chunk, and is empty.
\<close>

theorem newBitset_capacity:
  "n \<le> 64 * length (newBitset n) \<and> 64 * length (newBitset n) < n + 64 \<and>
   bs_elems (newBitset n) = {} \<and> popcnt (newBitset n) = 0"
  using newBitset_cap newBitset_empty by simp

text \<open>The population count is the number of elements, and two bit sets of the same size are
  equal for the checker exactly when they stand for the same set; equal sets hash alike, so
  the cache finds them in one bucket.
\<close>

theorem bitset_equals_hash:
  assumes "length b = length b2"
  shows "popcnt b = card (bs_elems b) \<and>
         (bs_equals b b2 \<longleftrightarrow> bs_elems b = bs_elems b2) \<and>
         (bs_elems b = bs_elems b2 \<longrightarrow> bs_hash b = bs_hash b2)"
  using bs.same_iff [of b b2] bs_elems_inj [of b b2] assms
  by (auto simp: popcnt_card)

theorem bitset_equals_hash_witness:
  "length (newBitset 3) = length (clone (newBitset 3)) \<and>
   (bs_equals (newBitset 3) (clone (newBitset 3)) \<longleftrightarrow>
      bs_elems (newBitset 3) = bs_elems (clone (newBitset 3))) \<and>
   bs_hash (newBitset 3) = 0"
proof -
  have h: "length (newBitset 3) = length (clone (newBitset 3))" by (simp add: clone_def)
  have "bs_hash (newBitset 3) = 0"
    using newBitset_empty by (simp add: bs_hash_def) (simp add: newBitset_def)
  with h bitset_equals_hash [OF h] show ?thesis by blast
qed

end
