(* ===== verification/MR_Rpc.thy ===== *)
theory MR_Rpc
  imports Prelude
begin

text \<open>
  The messages of the MapReduce system (\<^verbatim>\<open>mr/rpc.go\<close>): methods, requests and
  replies as records with the source's fields, and the zero reply a handler starts from.
\<close>

type_synonym Method = int

definition MAP :: Method where "MAP = 1"
definition REDUCE :: Method where "REDUCE = 2"
definition WAIT :: Method where "WAIT = 3"
definition NOWORK :: Method where "NOWORK = 5"

lemmas method_defs [simp] = MAP_def REDUCE_def WAIT_def NOWORK_def

type_synonym FileType = int

definition MAPFILES :: FileType where "MAPFILES = 1"
definition REDUCEFILES :: FileType where "REDUCEFILES = 2"
definition FILENOTFOUND :: FileType where "FILENOTFOUND = 3"

lemmas filetype_defs [simp] = MAPFILES_def REDUCEFILES_def FILENOTFOUND_def

type_synonym WorkerStatus = bool

definition WORKERALIVE :: WorkerStatus where "WORKERALIVE = False"
definition WORKERDEAD :: WorkerStatus where "WORKERDEAD = True"

record WorkRequest =
  req_WorkerId :: int

record SetupRequest =
  req_IPAddress :: string

record WorkComplete =
  wc_WorkType :: Method
  wc_JobId :: int
  wc_OutputFile :: string
  wc_WorkerId :: int

record WorkSetup =
  ws_WorkerId :: int
  ws_NumFiles :: int
  ws_NReduce :: int

record WorkerLocation =
  loc_WorkerId :: int
  loc_Address :: string

record WorkReply =
  WorkType :: Method
  JobId :: int
  NumFiles :: int
  NReduce :: int
  MapFileName :: string
  MapFileContent :: string
  ReduceFileLocations :: "WorkerLocation list"

record JobFailed =
  jf_UnreachableWorker :: WorkerLocation
  jf_WorkType :: Method
  jf_JobId :: int

record Files =
  WorkerStat :: WorkerStatus
  FileData :: string

record FileRequest =
  fr_FileType :: FileType
  fr_FileID :: int

text \<open>The zero values \<^verbatim>\<open>WorkReply{}\<close> and \<^verbatim>\<open>Files{}\<close>.\<close>

definition zero_WorkReply :: WorkReply where
  "zero_WorkReply = \<lparr>WorkType = 0, JobId = 0, NumFiles = 0, NReduce = 0, MapFileName = '''',
     MapFileContent = '''', ReduceFileLocations = []\<rparr>"

definition zero_Files :: Files where
  "zero_Files = \<lparr>WorkerStat = WORKERALIVE, FileData = ''''\<rparr>"

end
