(* ===== verification/Coordinator.thy ===== *)
theory Coordinator
  imports MR_Rpc
begin

text \<open>
  The MapReduce coordinator (\<^verbatim>\<open>mr/coordinator.go\<close>): its task tables, the RPC handlers
  that hand out and collect work, and the timer loop.  Every handler holds the mutex from its
  first to its last statement, so a handler is one transition.  The directory
  \<^verbatim>\<open>./output\<close> is a field of the state; the input files, whether a file can be created
  and the iteration order of a Go map are arguments.
\<close>

section \<open>State\<close>

definition TIMEOUT :: int where "TIMEOUT = 10"

record WorkChunk =
  WorkerId :: int
  Completed :: bool

record ReduceTracker =
  r_currentJob :: int
  completedReducers :: "WorkChunk list"
  reduceWorkerIds :: "(int \<times> bool) list"

record MapTracker =
  files :: "string list"
  numFiles :: int
  m_currentJob :: int
  completedMappers :: "WorkChunk list"
  mapWorkerIds :: "(int \<times> bool) list"

record Coordinator =
  IpAddress :: string
  IsDone :: bool
  Nreduce :: int
  mapperTimeout :: "int list"
  reducerTimeout :: "int list"
  Workers :: "int \<rightharpoonup> string"
  NextWorkerId :: int
  mapper :: MapTracker
  reducer :: ReduceTracker
  output_dir :: "string \<rightharpoonup> string"

text \<open>The result of opening and reading an input file.\<close>

datatype file_read = OpenError | ReadError | FileContent string

type_synonym file_system = "string \<Rightarrow> file_read"
type_synonym map_order = "int list \<Rightarrow> int list"

section \<open>Operations\<close>

fun chunks_done :: "WorkChunk list \<Rightarrow> bool" where
  "chunks_done [] = True"
| "chunks_done (chunk # cs) = (if \<not> Completed chunk then False else chunks_done cs)"

definition reducer_isDone :: "ReduceTracker \<Rightarrow> bool" where
  "reducer_isDone r = chunks_done (completedReducers r)"

definition mapper_isDone :: "MapTracker \<Rightarrow> bool" where
  "mapper_isDone m = chunks_done (completedMappers m)"

definition getMapFileContent :: "file_system \<Rightarrow> Coordinator \<Rightarrow> int \<Rightarrow> string go" where
  "getMapFileContent fs c mapFileId =
     go_bind (slice_get (files (mapper c)) mapFileId) (\<lambda>name.
       (case fs name of
          OpenError \<Rightarrow> Inl (Fatal ''Cannot open file'')
        | ReadError \<Rightarrow> Inr ''''
        | FileContent content \<Rightarrow> Inr content))"

definition getReduceFileLocations :: "map_order \<Rightarrow> Coordinator \<Rightarrow> WorkerLocation list" where
  "getReduceFileLocations ord c =
     map (\<lambda>id. \<lparr>loc_WorkerId = id,
                loc_Address = (case Workers c id of None \<Rightarrow> '''' | Some a \<Rightarrow> a)\<rparr>)
       (ord (map fst (mapWorkerIds (mapper c))))"

text \<open>
  The scan of \<^verbatim>\<open>retryMapper\<close> and \<^verbatim>\<open>retryReducer\<close>: the first job whose
  timer ran out or that was cleared.
\<close>

fun retry_scan :: "int list \<Rightarrow> WorkChunk list \<Rightarrow> nat list \<Rightarrow> nat option go" where
  "retry_scan ts cs [] = Inr None"
| "retry_scan ts cs (jobId # js) =
     go_bind (slice_get cs (int jobId)) (\<lambda>chunk.
     go_bind (slice_get ts (int jobId)) (\<lambda>t.
       let isCleared = (WorkerId chunk = 0 \<and> t = 0) in
       if t > TIMEOUT \<or> isCleared then Inr (Some jobId) else retry_scan ts cs js))"

definition set_worker :: "WorkChunk list \<Rightarrow> int \<Rightarrow> int \<Rightarrow> WorkChunk list go" where
  "set_worker cs jobId w =
     go_bind (slice_get cs jobId) (\<lambda>chunk. slice_set cs jobId (chunk\<lparr>WorkerId := w\<rparr>))"

definition retryMapper ::
  "file_system \<Rightarrow> Coordinator \<Rightarrow> WorkReply \<Rightarrow> int \<Rightarrow> (Coordinator \<times> WorkReply \<times> bool) go" where
  "retryMapper fs c reply workerId =
     go_bind (retry_scan (mapperTimeout c) (completedMappers (mapper c))
                [0..<length (mapperTimeout c)]) (\<lambda>found.
     case found of
       None \<Rightarrow> Inr (c, reply, False)
     | Some j \<Rightarrow>
         let jobId = int j in
         go_bind (slice_set (mapperTimeout c) jobId 1) (\<lambda>ts.
         go_bind (set_worker (completedMappers (mapper c)) jobId workerId) (\<lambda>cs.
         go_bind (slice_get (files (mapper c)) jobId) (\<lambda>name.
         go_bind (getMapFileContent fs c jobId) (\<lambda>content.
           Inr (c\<lparr>mapperTimeout := ts,
                  mapper := (mapper c)\<lparr>mapWorkerIds := al_put workerId True (mapWorkerIds (mapper c)),
                                       completedMappers := cs\<rparr>\<rparr>,
                reply\<lparr>WorkType := MAP, MapFileName := name, MapFileContent := content,
                      JobId := jobId, NReduce := Nreduce c, NumFiles := numFiles (mapper c)\<rparr>,
                True))))))"

definition retryReducer ::
  "map_order \<Rightarrow> Coordinator \<Rightarrow> WorkReply \<Rightarrow> int \<Rightarrow> (Coordinator \<times> WorkReply \<times> bool) go" where
  "retryReducer ord c reply workerId =
     go_bind (retry_scan (reducerTimeout c) (completedReducers (reducer c))
                [0..<length (reducerTimeout c)]) (\<lambda>found.
     case found of
       None \<Rightarrow> Inr (c, reply, False)
     | Some j \<Rightarrow>
         let jobId = int j in
         go_bind (slice_set (reducerTimeout c) jobId 1) (\<lambda>ts.
         go_bind (set_worker (completedReducers (reducer c)) jobId workerId) (\<lambda>cs.
           Inr (c\<lparr>reducerTimeout := ts,
                  reducer := (reducer c)\<lparr>reduceWorkerIds := al_put workerId True (reduceWorkerIds (reducer c)),
                                         completedReducers := cs\<rparr>\<rparr>,
                reply\<lparr>ReduceFileLocations := getReduceFileLocations ord c, WorkType := REDUCE,
                      JobId := jobId, NumFiles := numFiles (mapper c), NReduce := Nreduce c\<rparr>,
                True))))"

definition getMapJob ::
  "file_system \<Rightarrow> Coordinator \<Rightarrow> WorkReply \<Rightarrow> int \<Rightarrow> (Coordinator \<times> WorkReply) go" where
  "getMapJob fs c reply workerId =
     (if m_currentJob (mapper c) = numFiles (mapper c) then
        go_bind (retryMapper fs c reply workerId) (\<lambda>(c', reply', ok).
          if ok then Inr (c', reply') else Inr (c', reply'\<lparr>WorkType := WAIT\<rparr>))
      else
        let j = m_currentJob (mapper c) in
        go_bind (slice_get (files (mapper c)) j) (\<lambda>name.
        go_bind (getMapFileContent fs c j) (\<lambda>content.
        go_bind (set_worker (completedMappers (mapper c)) j workerId) (\<lambda>cs.
        go_bind (slice_set (mapperTimeout c) j 1) (\<lambda>ts.
          Inr (c\<lparr>mapperTimeout := ts,
                 mapper := (mapper c)\<lparr>mapWorkerIds := al_put workerId True (mapWorkerIds (mapper c)),
                                      completedMappers := cs,
                                      m_currentJob := j + 1\<rparr>\<rparr>,
               reply\<lparr>WorkType := MAP, MapFileName := name, MapFileContent := content,
                     JobId := j, NReduce := Nreduce c, NumFiles := numFiles (mapper c)\<rparr>))))))"

definition getReduceJob ::
  "map_order \<Rightarrow> Coordinator \<Rightarrow> WorkReply \<Rightarrow> int \<Rightarrow> (Coordinator \<times> WorkReply) go" where
  "getReduceJob ord c reply workerId =
     (if r_currentJob (reducer c) = Nreduce c then
        go_bind (retryReducer ord c reply workerId) (\<lambda>(c', reply', ok).
          if ok then Inr (c', reply') else Inr (c', reply'\<lparr>WorkType := WAIT\<rparr>))
      else
        let j = r_currentJob (reducer c) in
        go_bind (slice_set (reducerTimeout c) j 1) (\<lambda>ts.
        go_bind (set_worker (completedReducers (reducer c)) j workerId) (\<lambda>cs.
          Inr (c\<lparr>reducerTimeout := ts,
                 reducer := (reducer c)\<lparr>reduceWorkerIds := al_put workerId True (reduceWorkerIds (reducer c)),
                                        completedReducers := cs,
                                        r_currentJob := j + 1\<rparr>\<rparr>,
               reply\<lparr>WorkType := REDUCE, JobId := j, NumFiles := numFiles (mapper c),
                     NReduce := Nreduce c,
                     ReduceFileLocations := getReduceFileLocations ord c\<rparr>))))"

definition GetWork ::
  "file_system \<Rightarrow> map_order \<Rightarrow> Coordinator \<Rightarrow> WorkRequest \<Rightarrow> WorkReply \<Rightarrow> (Coordinator \<times> WorkReply) go" where
  "GetWork fs ord c request reply =
     (if IsDone c then Inr (c, reply\<lparr>WorkType := NOWORK\<rparr>)
      else if mapper_isDone (mapper c) then getReduceJob ord c reply (req_WorkerId request)
      else getMapJob fs c reply (req_WorkerId request))"

text \<open>
  \<^verbatim>\<open>clearMapDeadWorker\<close>: both slices are walked over together; the timer slice is
  indexed by the position in the chunk slice.
\<close>

fun clearMapDeadWorker_loop ::
  "int \<Rightarrow> nat list \<Rightarrow> WorkChunk list \<times> int list \<Rightarrow> (WorkChunk list \<times> int list) go" where
  "clearMapDeadWorker_loop workerId [] st = Inr st"
| "clearMapDeadWorker_loop workerId (i # is) (cs, ts) =
     go_bind (slice_get cs (int i)) (\<lambda>chunk.
       if WorkerId chunk = workerId then
         go_bind (slice_set cs (int i) (chunk\<lparr>WorkerId := 0, Completed := False\<rparr>)) (\<lambda>cs'.
         go_bind (slice_set ts (int i) 0) (\<lambda>ts'.
           clearMapDeadWorker_loop workerId is (cs', ts')))
       else clearMapDeadWorker_loop workerId is (cs, ts))"

definition clearMapDeadWorker :: "Coordinator \<Rightarrow> int \<Rightarrow> Coordinator go" where
  "clearMapDeadWorker c workerId =
     go_bind (clearMapDeadWorker_loop workerId [0..<length (completedMappers (mapper c))]
                (completedMappers (mapper c), mapperTimeout c)) (\<lambda>(cs, ts).
       Inr (c\<lparr>mapper := (mapper c)\<lparr>completedMappers := cs\<rparr>, mapperTimeout := ts\<rparr>))"

definition clearAllWork :: "Coordinator \<Rightarrow> int \<Rightarrow> Coordinator go" where
  "clearAllWork c workerId =
     go_bind (clearMapDeadWorker c workerId) (\<lambda>c'.
       Inr (c'\<lparr>mapper := (mapper c')\<lparr>mapWorkerIds := al_del workerId (mapWorkerIds (mapper c'))\<rparr>,
               Workers := (Workers c')(workerId := None)\<rparr>))"

definition WorkerDead :: "Coordinator \<Rightarrow> JobFailed \<Rightarrow> Coordinator go" where
  "WorkerDead c faildJob =
     go_bind (clearAllWork c (loc_WorkerId (jf_UnreachableWorker faildJob))) (\<lambda>c'.
     go_bind (set_worker (completedReducers (reducer c')) (jf_JobId faildJob) 0) (\<lambda>cs.
     go_bind (slice_set (reducerTimeout c') (jf_JobId faildJob) 0) (\<lambda>ts.
       Inr (c'\<lparr>reducer := (reducer c')\<lparr>completedReducers := cs\<rparr>, reducerTimeout := ts\<rparr>))))"

definition DoSetup :: "Coordinator \<Rightarrow> SetupRequest \<Rightarrow> Coordinator \<times> WorkSetup" where
  "DoSetup c request =
     (c\<lparr>Workers := (Workers c)(NextWorkerId c \<mapsto> req_IPAddress request),
        NextWorkerId := NextWorkerId c + 1\<rparr>,
      \<lparr>ws_WorkerId = NextWorkerId c, ws_NumFiles = numFiles (mapper c), ws_NReduce = Nreduce c\<rparr>)"

definition set_completed :: "WorkChunk list \<Rightarrow> int \<Rightarrow> WorkChunk list go" where
  "set_completed cs jobId =
     go_bind (slice_get cs jobId) (\<lambda>chunk. slice_set cs jobId (chunk\<lparr>Completed := True\<rparr>))"

definition out_file :: "int \<Rightarrow> string" where
  "out_file j = ''mr-out-'' @ Itoa j"

lemma out_file_inj [simp]: "out_file i = out_file j \<longleftrightarrow> i = j"
  by (simp add: out_file_def)

definition WorkDone :: "(string \<Rightarrow> bool) \<Rightarrow> Coordinator \<Rightarrow> WorkComplete \<Rightarrow> Coordinator go" where
  "WorkDone createOk c complete =
     (if wc_WorkType complete = MAP then
        go_bind (set_completed (completedMappers (mapper c)) (wc_JobId complete)) (\<lambda>cs.
          Inr (c\<lparr>mapper := (mapper c)\<lparr>completedMappers := cs\<rparr>\<rparr>))
      else if wc_WorkType complete = REDUCE then
        let fileName = out_file (wc_JobId complete);
            c' = (if createOk fileName
                  then c\<lparr>output_dir := (output_dir c)(fileName \<mapsto> wc_OutputFile complete)\<rparr>
                  else c)
        in go_bind (set_completed (completedReducers (reducer c')) (wc_JobId complete)) (\<lambda>cs.
             Inr (c'\<lparr>reducer := (reducer c')\<lparr>completedReducers := cs\<rparr>\<rparr>))
      else Inr c)"

text \<open>The timer updates share their body; each job in progress ages by one tick.\<close>

fun update_timeouts :: "WorkChunk list \<Rightarrow> nat list \<Rightarrow> int list \<Rightarrow> int list go" where
  "update_timeouts cs [] ts = Inr ts"
| "update_timeouts cs (n # ns) ts =
     go_bind (slice_get cs (int n)) (\<lambda>workChunk.
     go_bind (slice_get ts (int n)) (\<lambda>t.
       let inProgress = (WorkerId workChunk > 0 \<and> \<not> Completed workChunk) in
       if t > 0 \<and> inProgress
       then go_bind (slice_set ts (int n) (t + 1)) (update_timeouts cs ns)
       else update_timeouts cs ns ts))"

definition updateMapper :: "Coordinator \<Rightarrow> Coordinator go" where
  "updateMapper c =
     go_bind (update_timeouts (completedMappers (mapper c)) [0..<length (mapperTimeout c)]
                (mapperTimeout c)) (\<lambda>ts. Inr (c\<lparr>mapperTimeout := ts\<rparr>))"

definition updateReducer :: "Coordinator \<Rightarrow> Coordinator go" where
  "updateReducer c =
     go_bind (update_timeouts (completedReducers (reducer c)) [0..<length (reducerTimeout c)]
                (reducerTimeout c)) (\<lambda>ts. Inr (c\<lparr>reducerTimeout := ts\<rparr>))"

text \<open>One iteration of the loop of \<^verbatim>\<open>serverHandler\<close>, between two sleeps.\<close>

definition serverHandler :: "Coordinator \<Rightarrow> Coordinator go" where
  "serverHandler c =
     (let mapperDone = mapper_isDone (mapper c);
          reducerDone = reducer_isDone (reducer c);
          c' = (if mapperDone \<and> reducerDone then c\<lparr>IsDone := True\<rparr> else c)
      in if \<not> mapperDone then updateMapper c' else updateReducer c')"

definition Done :: "Coordinator \<Rightarrow> bool" where
  "Done c = IsDone c"

definition zero_WorkChunk :: WorkChunk where
  "zero_WorkChunk = \<lparr>WorkerId = 0, Completed = False\<rparr>"

definition MakeCoordinator :: "string \<Rightarrow> string list \<Rightarrow> int \<Rightarrow> Coordinator go" where
  "MakeCoordinator ip fls nReduce =
     (let nf = int (length fls) in
      if nReduce < 0 then Inl MakeSliceLen
      else Inr \<lparr>IpAddress = ip, IsDone = False, Nreduce = nReduce,
                mapperTimeout = replicate (nat nf) 0,
                reducerTimeout = replicate (nat nReduce) 0,
                Workers = Map.empty, NextWorkerId = 1,
                mapper = \<lparr>files = fls, numFiles = nf, m_currentJob = 0,
                          completedMappers = replicate (nat nf) zero_WorkChunk, mapWorkerIds = []\<rparr>,
                reducer = \<lparr>r_currentJob = 0,
                           completedReducers = replicate (nat nReduce) zero_WorkChunk,
                           reduceWorkerIds = []\<rparr>,
                output_dir = Map.empty\<rparr>)"

section \<open>Task tables\<close>

text \<open>
  What the two trackers have in common: a slice of chunks, a slice of timers and the index
  of the next fresh job.  A job is assigned exactly when its timer runs, and jobs that were
  never handed out are untouched.
\<close>

definition task_inv :: "nat \<Rightarrow> int \<Rightarrow> WorkChunk list \<Rightarrow> int list \<Rightarrow> bool" where
  "task_inv n cur cs ts \<longleftrightarrow>
     length cs = n \<and> length ts = n \<and> 0 \<le> cur \<and> cur \<le> int n \<and>
     (\<forall>j<n. 0 \<le> WorkerId (cs ! j) \<and> 0 \<le> ts ! j \<and> (WorkerId (cs ! j) = 0 \<longleftrightarrow> ts ! j = 0) \<and>
            (cur \<le> int j \<longrightarrow> WorkerId (cs ! j) = 0 \<and> \<not> Completed (cs ! j)))"

definition retryable :: "int list \<Rightarrow> WorkChunk list \<Rightarrow> nat \<Rightarrow> bool" where
  "retryable ts cs j \<longleftrightarrow> ts ! j > TIMEOUT \<or> (WorkerId (cs ! j) = 0 \<and> ts ! j = 0)"

definition in_progress :: "WorkChunk list \<Rightarrow> int list \<Rightarrow> nat \<Rightarrow> bool" where
  "in_progress cs ts j \<longleftrightarrow> ts ! j > 0 \<and> WorkerId (cs ! j) > 0 \<and> \<not> Completed (cs ! j)"

definition aged :: "WorkChunk list \<Rightarrow> int list \<Rightarrow> int list" where
  "aged cs ts = map (\<lambda>j. if in_progress cs ts j then ts ! j + 1 else ts ! j) [0..<length ts]"

definition cleared_chunks :: "int \<Rightarrow> WorkChunk list \<Rightarrow> WorkChunk list" where
  "cleared_chunks w cs =
     map (\<lambda>ch. if WorkerId ch = w then ch\<lparr>WorkerId := 0, Completed := False\<rparr> else ch) cs"

definition cleared_timers :: "int \<Rightarrow> WorkChunk list \<Rightarrow> int list \<Rightarrow> int list" where
  "cleared_timers w cs ts = map (\<lambda>(ch, t). if WorkerId ch = w then 0 else t) (zip cs ts)"

lemma chunks_done_iff: "chunks_done cs \<longleftrightarrow> (\<forall>j<length cs. Completed (cs ! j))"
proof -
  have "chunks_done cs \<longleftrightarrow> (\<forall>c\<in>set cs. Completed c)"
    by (induction cs) auto
  then show ?thesis by (simp add: all_set_conv_all_nth)
qed

lemma not_chunks_done: "\<not> chunks_done cs \<Longrightarrow> \<exists>j<length cs. \<not> Completed (cs ! j)"
  by (auto simp: chunks_done_iff)

lemma task_inv_lengths [simp]:
  "task_inv n cur cs ts \<Longrightarrow> length cs = n" "task_inv n cur cs ts \<Longrightarrow> length ts = n"
  by (simp_all add: task_inv_def)

lemma retry_scan_find:
  "length cs = length ts \<Longrightarrow> \<forall>j\<in>set js. j < length ts \<Longrightarrow>
   retry_scan ts cs js = Inr (find (retryable ts cs) js)"
  by (induction js) (auto simp: retryable_def Let_def)

lemma update_timeouts_gen:
  assumes "length cs = length ts" and "distinct ns" and "\<forall>n\<in>set ns. n < length ts"
  shows "\<exists>ts'. update_timeouts cs ns ts = Inr ts' \<and> length ts' = length ts \<and>
           (\<forall>j<length ts. ts' ! j = (if j \<in> set ns \<and> in_progress cs ts j then ts ! j + 1 else ts ! j))"
  using assms
proof (induction ns arbitrary: ts)
  case (Cons n ns)
  define us where "us = (if in_progress cs ts n then ts[n := ts ! n + 1] else ts)"
  have us: "length us = length ts" "\<And>j. j \<noteq> n \<Longrightarrow> us ! j = ts ! j"
    "us ! n = (if in_progress cs ts n then ts ! n + 1 else ts ! n)"
    using Cons.prems by (auto simp: us_def)
  have step: "update_timeouts cs (n # ns) ts = update_timeouts cs ns us"
    using Cons.prems by (simp add: in_progress_def Let_def us_def)
  obtain ts' where ts': "update_timeouts cs ns us = Inr ts'" "length ts' = length ts"
    "\<forall>j<length ts. ts' ! j = (if j \<in> set ns \<and> in_progress cs us j then us ! j + 1 else us ! j)"
    using Cons.IH [of us] Cons.prems us(1) by auto
  have "ts' ! j = (if j \<in> set (n # ns) \<and> in_progress cs ts j then ts ! j + 1 else ts ! j)"
    if "j < length ts" for j
    using ts'(3) that Cons.prems(2) us by (cases "j = n") (auto simp: in_progress_def)
  then show ?case unfolding step using ts'(1,2) by blast
qed simp

lemma update_timeouts_aged:
  assumes "length cs = length ts"
  shows "update_timeouts cs [0..<length ts] ts = Inr (aged cs ts)"
proof -
  obtain ts' where "update_timeouts cs [0..<length ts] ts = Inr ts'" "length ts' = length ts"
    "\<forall>j<length ts. ts' ! j = (if in_progress cs ts j then ts ! j + 1 else ts ! j)"
    using update_timeouts_gen [of cs ts "[0..<length ts]"] assms by auto
  moreover have "ts' = aged cs ts"
    using calculation by (auto simp: aged_def intro: nth_equalityI)
  ultimately show ?thesis by simp
qed

lemma clear_loop_gen:
  assumes "length cs = length ts"
  shows "clearMapDeadWorker_loop w [k..<length cs] (take k (cleared_chunks w cs) @ drop k cs,
           take k (cleared_timers w cs ts) @ drop k ts) =
         Inr (cleared_chunks w cs, cleared_timers w cs ts)"
proof (induction "length cs - k" arbitrary: k)
  case 0
  with assms show ?case by (simp add: cleared_chunks_def cleared_timers_def)
next
  case (Suc m)
  then have k: "k < length cs" by simp
  let ?cc = "cleared_chunks w cs" and ?ct = "cleared_timers w cs ts"
  have len [simp]: "length ?cc = length cs" "length ?ct = length cs"
    using assms by (simp_all add: cleared_chunks_def cleared_timers_def)
  have nth: "?cc ! k = (if WorkerId (cs ! k) = w then (cs ! k)\<lparr>WorkerId := 0, Completed := False\<rparr> else cs ! k)"
    "?ct ! k = (if WorkerId (cs ! k) = w then 0 else ts ! k)"
    using k assms by (simp_all add: cleared_chunks_def cleared_timers_def)
  have upd: "(take k xs @ drop k ys)[k := xs ! k] = take (Suc k) xs @ drop (Suc k) ys"
    if "length xs = length ys" "k < length ys" for xs ys :: "'z list"
    using that by (simp add: list_update_append take_Suc_conv_app_nth flip: Cons_nth_drop_Suc)
  have keep: "take k xs @ drop k ys = take (Suc k) xs @ drop (Suc k) ys"
    if "length xs = length ys" "k < length ys" "xs ! k = ys ! k" for xs ys :: "'z list"
    using that by (simp add: take_Suc_conv_app_nth flip: Cons_nth_drop_Suc)
  have "clearMapDeadWorker_loop w [k..<length cs] (take k ?cc @ drop k cs, take k ?ct @ drop k ts) =
        clearMapDeadWorker_loop w [Suc k..<length cs]
          (take (Suc k) ?cc @ drop (Suc k) cs, take (Suc k) ?ct @ drop (Suc k) ts)"
    using k assms nth upd [of ?cc cs] upd [of ?ct ts] keep [of ?cc cs] keep [of ?ct ts]
    by (auto simp: upt_conv_Cons nth_append)
  also have "\<dots> = Inr (?cc, ?ct)"
    by (rule Suc.hyps(1)) (use Suc.hyps(2) in simp)
  finally show ?case .
qed

lemma clear_loop:
  "length cs = length ts \<Longrightarrow> clearMapDeadWorker_loop w [0..<length cs] (cs, ts) =
     Inr (cleared_chunks w cs, cleared_timers w cs ts)"
  using clear_loop_gen [of cs ts w 0] by simp

end
