(* ===== verification/Coordinator_Inv.thy ===== *)
theory Coordinator_Inv
  imports Coordinator
begin

text \<open>
  The invariant of the coordinator and the effect of each handler on it.  The task-table
  lemmas are stated once for both trackers; the handlers then reduce to them.
\<close>

section \<open>Task tables keep their invariant\<close>

lemma task_invI:
  assumes "length cs = n" "length ts = n" "0 \<le> cur" "cur \<le> int n"
    and "\<And>j. j < n \<Longrightarrow> 0 \<le> WorkerId (cs ! j)" "\<And>j. j < n \<Longrightarrow> 0 \<le> ts ! j"
    and "\<And>j. j < n \<Longrightarrow> WorkerId (cs ! j) = 0 \<longleftrightarrow> ts ! j = 0"
    and "\<And>j. j < n \<Longrightarrow> cur \<le> int j \<Longrightarrow> WorkerId (cs ! j) = 0 \<and> \<not> Completed (cs ! j)"
  shows "task_inv n cur cs ts"
  unfolding task_inv_def using assms by blast

lemma task_invD:
  assumes "task_inv n cur cs ts"
  shows "0 \<le> cur" "cur \<le> int n"
    and "j < n \<Longrightarrow> 0 \<le> WorkerId (cs ! j)" "j < n \<Longrightarrow> 0 \<le> ts ! j"
    and "j < n \<Longrightarrow> WorkerId (cs ! j) = 0 \<longleftrightarrow> ts ! j = 0"
    and "j < n \<Longrightarrow> cur \<le> int j \<Longrightarrow> WorkerId (cs ! j) = 0"
    and "j < n \<Longrightarrow> cur \<le> int j \<Longrightarrow> \<not> Completed (cs ! j)"
  using assms unfolding task_inv_def by blast+

lemma task_inv_initial [inv_intros]:
  "task_inv n 0 (replicate n zero_WorkChunk) (replicate n 0)"
  by (simp add: task_inv_def zero_WorkChunk_def)

lemma task_inv_update:
  assumes t: "task_inv n cur cs ts" and j: "j < n" and cur: "cur \<le> cur'" "cur' \<le> int n"
    and new: "0 \<le> WorkerId ch" "0 \<le> tm" "WorkerId ch = 0 \<longleftrightarrow> tm = 0"
      "cur' \<le> int j \<longrightarrow> WorkerId ch = 0 \<and> \<not> Completed ch"
  shows "task_inv n cur' (cs[j := ch]) (ts[j := tm])"
proof (rule task_invI)
  fix k assume k: "k < n"
  note len = task_inv_lengths [OF t]
  show "0 \<le> WorkerId (cs[j := ch] ! k)"
    using task_invD(3) [OF t k] new k len by (cases "k = j") simp_all
  show "0 \<le> ts[j := tm] ! k"
    using task_invD(4) [OF t k] new k len by (cases "k = j") simp_all
  show "WorkerId (cs[j := ch] ! k) = 0 \<longleftrightarrow> ts[j := tm] ! k = 0"
    using task_invD(5) [OF t k] new k len by (cases "k = j") simp_all
  show "WorkerId (cs[j := ch] ! k) = 0 \<and> \<not> Completed (cs[j := ch] ! k)" if "cur' \<le> int k"
    using task_invD(6,7) [OF t k] that new cur k len by (cases "k = j") simp_all
qed (use task_invD(1) [OF t] task_inv_lengths [OF t] cur in simp_all)

lemma task_inv_fresh [inv_intros]:
  assumes t: "task_inv n cur cs ts" and "int j = cur" "j < n" "0 < w"
  shows "task_inv n (cur + 1) (cs[j := (cs ! j)\<lparr>WorkerId := w\<rparr>]) (ts[j := 1])"
  by (rule task_inv_update [OF t]) (use assms in simp_all)

lemma task_inv_reassign [inv_intros]:
  assumes t: "task_inv n cur cs ts" and "j < n" "int j < cur" "0 < w"
  shows "task_inv n cur (cs[j := (cs ! j)\<lparr>WorkerId := w\<rparr>]) (ts[j := 1])"
  by (rule task_inv_update [OF t]) (use assms task_invD(2) [OF t] in simp_all)

lemma task_inv_unassign [inv_intros]:
  assumes t: "task_inv n cur cs ts" and j: "j < n"
  shows "task_inv n cur (cs[j := (cs ! j)\<lparr>WorkerId := 0\<rparr>]) (ts[j := 0])"
  by (rule task_inv_update [OF t]) (use j task_invD(2) [OF t] task_invD(7) [OF t j] in simp_all)

lemma task_inv_complete [inv_intros]:
  assumes t: "task_inv n cur cs ts" and j: "j < n" and "int j < cur"
  shows "task_inv n cur (cs[j := (cs ! j)\<lparr>Completed := True\<rparr>]) ts"
proof -
  have "task_inv n cur (cs[j := (cs ! j)\<lparr>Completed := True\<rparr>]) (ts[j := ts ! j])"
    by (rule task_inv_update [OF t]) (use assms task_invD(2-5) [OF t] in simp_all)
  then show ?thesis by simp
qed

lemma length_aged [simp]: "length (aged cs ts) = length ts"
  by (simp add: aged_def)

lemma aged_nth: "j < length ts \<Longrightarrow> aged cs ts ! j = (if in_progress cs ts j then ts ! j + 1 else ts ! j)"
  by (simp add: aged_def)

lemma task_inv_aged [inv_intros]:
  assumes t: "task_inv n cur cs ts"
  shows "task_inv n cur cs (aged cs ts)"
proof (rule task_invI)
  fix j assume j: "j < n"
  have a: "aged cs ts ! j = (if in_progress cs ts j then ts ! j + 1 else ts ! j)"
    using t j by (simp add: aged_nth)
  show "0 \<le> WorkerId (cs ! j)" "0 \<le> aged cs ts ! j" "WorkerId (cs ! j) = 0 \<longleftrightarrow> aged cs ts ! j = 0"
    using task_invD(3-5) [OF t, of j] j by (simp_all add: a in_progress_def)
  show "WorkerId (cs ! j) = 0 \<and> \<not> Completed (cs ! j)" if "cur \<le> int j"
    using task_invD(6,7) [OF t j that] by simp
qed (use task_invD(1,2) [OF t] task_inv_lengths [OF t] in simp_all)

lemma cleared_nth:
  assumes "length cs = length ts" "j < length cs"
  shows "cleared_chunks w cs ! j =
           (if WorkerId (cs ! j) = w then (cs ! j)\<lparr>WorkerId := 0, Completed := False\<rparr> else cs ! j)"
    and "cleared_timers w cs ts ! j = (if WorkerId (cs ! j) = w then 0 else ts ! j)"
  using assms by (simp_all add: cleared_chunks_def cleared_timers_def)

lemma task_inv_cleared [inv_intros]:
  assumes t: "task_inv n cur cs ts"
  shows "task_inv n cur (cleared_chunks w cs) (cleared_timers w cs ts)"
proof (rule task_invI)
  fix j assume j: "j < n"
  note c = cleared_nth [of cs ts j w, unfolded task_inv_lengths [OF t], OF refl j]
  show "0 \<le> WorkerId (cleared_chunks w cs ! j)" "0 \<le> cleared_timers w cs ts ! j"
    "WorkerId (cleared_chunks w cs ! j) = 0 \<longleftrightarrow> cleared_timers w cs ts ! j = 0"
    using task_invD(3-5) [OF t, of j] j by (simp_all add: c)
  show "WorkerId (cleared_chunks w cs ! j) = 0 \<and> \<not> Completed (cleared_chunks w cs ! j)"
    if "cur \<le> int j"
    using task_invD(6,7) [OF t j that] by (simp add: c)
qed (use task_invD(1,2) [OF t] task_inv_lengths [OF t] in
      \<open>simp_all add: cleared_chunks_def cleared_timers_def\<close>)

lemma Completed_set_worker [simp]:
  "k < length cs \<Longrightarrow> Completed (cs[j := (cs ! j)\<lparr>WorkerId := w\<rparr>] ! k) = Completed (cs ! k)"
  by (cases "j = k") auto

lemma WorkerId_set_completed [simp]:
  "k < length cs \<Longrightarrow> WorkerId (cs[j := (cs ! j)\<lparr>Completed := b\<rparr>] ! k) = WorkerId (cs ! k)"
  by (cases "j = k") auto

section \<open>The invariant of the coordinator\<close>

definition coord_inv :: "Coordinator \<Rightarrow> bool" where
  "coord_inv c \<longleftrightarrow>
     numFiles (mapper c) = int (length (files (mapper c))) \<and> 0 \<le> Nreduce c \<and>
     task_inv (length (files (mapper c))) (m_currentJob (mapper c))
       (completedMappers (mapper c)) (mapperTimeout c) \<and>
     task_inv (nat (Nreduce c)) (r_currentJob (reducer c))
       (completedReducers (reducer c)) (reducerTimeout c) \<and>
     1 \<le> NextWorkerId c \<and>
     (\<forall>w. Workers c w \<noteq> None \<longrightarrow> 1 \<le> w \<and> w < NextWorkerId c) \<and>
     (IsDone c \<longrightarrow> reducer_isDone (reducer c))"

lemma coord_invD:
  assumes "coord_inv c"
  shows "numFiles (mapper c) = int (length (files (mapper c)))" "0 \<le> Nreduce c"
    and "task_inv (length (files (mapper c))) (m_currentJob (mapper c))
           (completedMappers (mapper c)) (mapperTimeout c)"
    and "task_inv (nat (Nreduce c)) (r_currentJob (reducer c))
           (completedReducers (reducer c)) (reducerTimeout c)"
  using assms by (simp_all add: coord_inv_def)

text \<open>Every input file can be opened.\<close>

definition fs_ok :: "file_system \<Rightarrow> Coordinator \<Rightarrow> bool" where
  "fs_ok fs c \<longleftrightarrow> (\<forall>f\<in>set (files (mapper c)). fs f \<noteq> OpenError)"

definition file_text :: "file_system \<Rightarrow> string \<Rightarrow> string" where
  "file_text fs name = (case fs name of FileContent content \<Rightarrow> content | _ \<Rightarrow> '''')"

lemma set_worker_ok [simp]:
  "in_range cs j \<Longrightarrow> set_worker cs j w = Inr (cs[nat j := (cs ! nat j)\<lparr>WorkerId := w\<rparr>])"
  by (simp add: set_worker_def)

lemma set_completed_ok [simp]:
  "in_range cs j \<Longrightarrow> set_completed cs j = Inr (cs[nat j := (cs ! nat j)\<lparr>Completed := True\<rparr>])"
  by (simp add: set_completed_def)

lemma set_worker_Inr:
  "set_worker cs j w = Inr cs' \<longleftrightarrow> in_range cs j \<and> cs' = cs[nat j := (cs ! nat j)\<lparr>WorkerId := w\<rparr>]"
  by (auto simp: set_worker_def go_simps)

lemma set_completed_Inr:
  "set_completed cs j = Inr cs' \<longleftrightarrow> in_range cs j \<and> cs' = cs[nat j := (cs ! nat j)\<lparr>Completed := True\<rparr>]"
  by (auto simp: set_completed_def go_simps)

lemma getMapFileContent_ok:
  "fs_ok fs c \<Longrightarrow> j < length (files (mapper c)) \<Longrightarrow>
   getMapFileContent fs c (int j) = Inr (file_text fs (files (mapper c) ! j))"
  by (auto simp: getMapFileContent_def fs_ok_def file_text_def split: file_read.splits)

text \<open>The state after handing map job \<open>j\<close> to worker \<open>w\<close>, and the reply sent for it.\<close>

definition assign_map :: "Coordinator \<Rightarrow> nat \<Rightarrow> int \<Rightarrow> int \<Rightarrow> Coordinator" where
  "assign_map c j w cur = c\<lparr>mapperTimeout := (mapperTimeout c)[j := 1],
     mapper := (mapper c)\<lparr>mapWorkerIds := al_put w True (mapWorkerIds (mapper c)),
       completedMappers := (completedMappers (mapper c))[j := (completedMappers (mapper c) ! j)\<lparr>WorkerId := w\<rparr>],
       m_currentJob := cur\<rparr>\<rparr>"

definition map_reply :: "file_system \<Rightarrow> Coordinator \<Rightarrow> nat \<Rightarrow> WorkReply \<Rightarrow> WorkReply" where
  "map_reply fs c j reply = reply\<lparr>WorkType := MAP, MapFileName := files (mapper c) ! j,
     MapFileContent := file_text fs (files (mapper c) ! j),
     JobId := int j, NReduce := Nreduce c, NumFiles := numFiles (mapper c)\<rparr>"

definition assign_reduce :: "Coordinator \<Rightarrow> nat \<Rightarrow> int \<Rightarrow> int \<Rightarrow> Coordinator" where
  "assign_reduce c j w cur = c\<lparr>reducerTimeout := (reducerTimeout c)[j := 1],
     reducer := (reducer c)\<lparr>reduceWorkerIds := al_put w True (reduceWorkerIds (reducer c)),
       completedReducers := (completedReducers (reducer c))[j := (completedReducers (reducer c) ! j)\<lparr>WorkerId := w\<rparr>],
       r_currentJob := cur\<rparr>\<rparr>"

definition reduce_reply :: "map_order \<Rightarrow> Coordinator \<Rightarrow> nat \<Rightarrow> WorkReply \<Rightarrow> WorkReply" where
  "reduce_reply ord c j reply = reply\<lparr>WorkType := REDUCE, JobId := int j,
     NumFiles := numFiles (mapper c), NReduce := Nreduce c,
     ReduceFileLocations := getReduceFileLocations ord c\<rparr>"

lemma find_Some_less: "find P [0..<n] = Some j \<Longrightarrow> j < n \<and> P j"
  by (auto simp: find_Some_iff)

lemma getMapJob_eq:
  assumes inv: "coord_inv c" and ok: "fs_ok fs c"
  shows "getMapJob fs c reply w =
    (if m_currentJob (mapper c) = numFiles (mapper c)
     then (case find (retryable (mapperTimeout c) (completedMappers (mapper c)))
                  [0..<length (files (mapper c))] of
             None \<Rightarrow> Inr (c, reply\<lparr>WorkType := WAIT\<rparr>)
           | Some j \<Rightarrow> Inr (assign_map c j w (m_currentJob (mapper c)), map_reply fs c j reply))
     else Inr (assign_map c (nat (m_currentJob (mapper c))) w (m_currentJob (mapper c) + 1),
               map_reply fs c (nat (m_currentJob (mapper c))) reply))"
proof (cases "m_currentJob (mapper c) = numFiles (mapper c)")
  case True
  note t = coord_invD(3) [OF inv]
  have len: "length (mapperTimeout c) = length (files (mapper c))"
    "length (completedMappers (mapper c)) = length (files (mapper c))"
    using t by simp_all
  have scan: "retry_scan (mapperTimeout c) (completedMappers (mapper c)) [0..<length (mapperTimeout c)] =
     Inr (find (retryable (mapperTimeout c) (completedMappers (mapper c))) [0..<length (files (mapper c))])"
    using len by (subst retry_scan_find) auto
  show ?thesis
  proof (cases "find (retryable (mapperTimeout c) (completedMappers (mapper c))) [0..<length (files (mapper c))]")
    case None
    with True scan show ?thesis by (simp add: getMapJob_def retryMapper_def)
  next
    case (Some j)
    then have "j < length (files (mapper c))" by (auto dest: find_Some_less)
    with Some True scan len show ?thesis
      by (simp add: getMapJob_def retryMapper_def getMapFileContent_ok [OF ok] Let_def
          assign_map_def map_reply_def)
  qed
next
  case False
  note t = coord_invD(3) [OF inv]
  have len: "length (mapperTimeout c) = length (files (mapper c))"
    "length (completedMappers (mapper c)) = length (files (mapper c))"
    using t by simp_all
  obtain j where j: "m_currentJob (mapper c) = int j" "j < length (files (mapper c))"
    using False task_invD(1,2) [OF t] coord_invD(1) [OF inv]
    by (metis nat_0_le nat_less_iff order_le_imp_less_or_eq)
  with False len show ?thesis
    by (simp add: getMapJob_def getMapFileContent_ok [OF ok] Let_def assign_map_def map_reply_def)
qed

lemma getReduceJob_eq:
  assumes inv: "coord_inv c"
  shows "getReduceJob ord c reply w =
    (if r_currentJob (reducer c) = Nreduce c
     then (case find (retryable (reducerTimeout c) (completedReducers (reducer c)))
                  [0..<nat (Nreduce c)] of
             None \<Rightarrow> Inr (c, reply\<lparr>WorkType := WAIT\<rparr>)
           | Some j \<Rightarrow> Inr (assign_reduce c j w (r_currentJob (reducer c)), reduce_reply ord c j reply))
     else Inr (assign_reduce c (nat (r_currentJob (reducer c))) w (r_currentJob (reducer c) + 1),
               reduce_reply ord c (nat (r_currentJob (reducer c))) reply))"
proof -
  note t = coord_invD(4) [OF inv]
  have len: "length (reducerTimeout c) = nat (Nreduce c)"
    "length (completedReducers (reducer c)) = nat (Nreduce c)"
    using t by simp_all
  have scan: "retry_scan (reducerTimeout c) (completedReducers (reducer c)) [0..<length (reducerTimeout c)] =
     Inr (find (retryable (reducerTimeout c) (completedReducers (reducer c))) [0..<nat (Nreduce c)])"
    using len by (subst retry_scan_find) auto
  show ?thesis
  proof (cases "r_currentJob (reducer c) = Nreduce c")
    case True
    show ?thesis
    proof (cases "find (retryable (reducerTimeout c) (completedReducers (reducer c))) [0..<nat (Nreduce c)]")
      case None
      with True scan show ?thesis by (simp add: getReduceJob_def retryReducer_def)
    next
      case (Some j)
      then have "j < nat (Nreduce c)" by (auto dest: find_Some_less)
      with Some True scan len show ?thesis
        by (simp add: getReduceJob_def retryReducer_def Let_def assign_reduce_def reduce_reply_def)
    qed
  next
    case False
    then obtain j where j: "r_currentJob (reducer c) = int j" "j < nat (Nreduce c)"
      using task_invD(1,2) [OF t] coord_invD(2) [OF inv]
      by (metis int_nat_eq nat_0_le nat_less_iff order_le_imp_less_or_eq)
    with False len show ?thesis
      by (simp add: getReduceJob_def Let_def assign_reduce_def reduce_reply_def)
  qed
qed

end
