(* ===== verification/Coordinator_System.thy ===== *)
theory Coordinator_System
  imports Coordinator_Inv
begin

text \<open>
  The coordinator as a transition system: workers register, ask for work, report finished
  jobs and unreachable peers, and the timer ticks.  A worker asks under the number it was
  given, and reports only jobs it was handed.
\<close>

section \<open>Handlers under the invariant\<close>

lemma assign_map_inv:
  assumes inv: "coord_inv c" and "0 < w" and j: "j < length (files (mapper c))"
    and cur: "(int j = m_currentJob (mapper c) \<and> cur = m_currentJob (mapper c) + 1) \<or>
              (int j < m_currentJob (mapper c) \<and> cur = m_currentJob (mapper c))"
  shows "coord_inv (assign_map c j w cur)"
proof -
  have "task_inv (length (files (mapper c))) cur
     ((completedMappers (mapper c))[j := (completedMappers (mapper c) ! j)\<lparr>WorkerId := w\<rparr>])
     ((mapperTimeout c)[j := 1])"
    using cur assms coord_invD(3) [OF inv] by (auto intro: task_inv_fresh task_inv_reassign)
  with inv show ?thesis by (simp add: coord_inv_def assign_map_def)
qed

lemma chunks_done_update:
  "chunks_done cs \<Longrightarrow> chunks_done (cs[j := (cs ! j)\<lparr>WorkerId := w\<rparr>])"
  by (simp add: chunks_done_iff)

lemma chunks_done_complete:
  "chunks_done cs \<Longrightarrow> chunks_done (cs[j := (cs ! j)\<lparr>Completed := True\<rparr>])"
  by (cases "j < length cs") (auto simp: chunks_done_iff nth_list_update)

lemma assign_reduce_inv:
  assumes inv: "coord_inv c" and "0 < w" and j: "j < nat (Nreduce c)"
    and cur: "(int j = r_currentJob (reducer c) \<and> cur = r_currentJob (reducer c) + 1) \<or>
              (int j < r_currentJob (reducer c) \<and> cur = r_currentJob (reducer c))"
  shows "coord_inv (assign_reduce c j w cur)"
proof -
  have "task_inv (nat (Nreduce c)) cur
     ((completedReducers (reducer c))[j := (completedReducers (reducer c) ! j)\<lparr>WorkerId := w\<rparr>])
     ((reducerTimeout c)[j := 1])"
    using cur assms coord_invD(4) [OF inv] by (auto intro: task_inv_fresh task_inv_reassign)
  with inv show ?thesis
    by (simp add: coord_inv_def assign_reduce_def reducer_isDone_def chunks_done_update)
qed

text \<open>The four outcomes of a request, with the table entry each is based on.\<close>

lemma GetWork_cases:
  assumes inv: "coord_inv c" and ok: "fs_ok fs c"
    and gw: "GetWork fs ord c req reply = Inr (c', r)"
  obtains (Finished) "IsDone c" "c' = c" "WorkType r = NOWORK"
  | (Wait) "\<not> IsDone c" "c' = c" "WorkType r = WAIT"
  | (Map) j cur where "\<not> IsDone c" "\<not> mapper_isDone (mapper c)" "j < length (files (mapper c))"
      "c' = assign_map c j (req_WorkerId req) cur" "r = map_reply fs c j reply"
      "(int j = m_currentJob (mapper c) \<and> cur = m_currentJob (mapper c) + 1) \<or>
       (int j < m_currentJob (mapper c) \<and> cur = m_currentJob (mapper c) \<and>
        retryable (mapperTimeout c) (completedMappers (mapper c)) j)"
  | (Reduce) j cur where "\<not> IsDone c" "mapper_isDone (mapper c)" "j < nat (Nreduce c)"
      "c' = assign_reduce c j (req_WorkerId req) cur" "r = reduce_reply ord c j reply"
      "(int j = r_currentJob (reducer c) \<and> cur = r_currentJob (reducer c) + 1) \<or>
       (int j < r_currentJob (reducer c) \<and> cur = r_currentJob (reducer c) \<and>
        retryable (reducerTimeout c) (completedReducers (reducer c)) j)"
proof (cases "IsDone c")
  case True
  with gw show ?thesis by (intro Finished) (auto simp: GetWork_def)
next
  case nd: False
  show ?thesis
  proof (cases "mapper_isDone (mapper c)")
    case True
    note t = coord_invD(4) [OF inv]
    from gw nd True have g: "getReduceJob ord c reply (req_WorkerId req) = Inr (c', r)"
      by (simp add: GetWork_def)
    show ?thesis
    proof (cases "r_currentJob (reducer c) = Nreduce c")
      case cur: True
      show ?thesis
      proof (cases "find (retryable (reducerTimeout c) (completedReducers (reducer c))) [0..<nat (Nreduce c)]")
        case None
        with g cur nd show ?thesis by (intro Wait) (auto simp: getReduceJob_eq [OF inv])
      next
        case (Some j)
        then have "j < nat (Nreduce c)" "retryable (reducerTimeout c) (completedReducers (reducer c)) j"
          by (auto dest: find_Some_less)
        with Some g cur nd True show ?thesis
          by (intro Reduce [of j "r_currentJob (reducer c)"]) (auto simp: getReduceJob_eq [OF inv])
      qed
    next
      case cur: False
      then have "nat (r_currentJob (reducer c)) < nat (Nreduce c)" "0 \<le> r_currentJob (reducer c)"
        using task_invD(1,2) [OF t] coord_invD(2) [OF inv] by auto
      with g cur nd True show ?thesis
        by (intro Reduce [of "nat (r_currentJob (reducer c))" "r_currentJob (reducer c) + 1"])
          (auto simp: getReduceJob_eq [OF inv])
    qed
  next
    case False
    note t = coord_invD(3) [OF inv]
    from gw nd False have g: "getMapJob fs c reply (req_WorkerId req) = Inr (c', r)"
      by (simp add: GetWork_def)
    show ?thesis
    proof (cases "m_currentJob (mapper c) = numFiles (mapper c)")
      case cur: True
      show ?thesis
      proof (cases "find (retryable (mapperTimeout c) (completedMappers (mapper c))) [0..<length (files (mapper c))]")
        case None
        with g cur nd show ?thesis by (intro Wait) (auto simp: getMapJob_eq [OF inv ok])
      next
        case (Some j)
        then have "j < length (files (mapper c))" "retryable (mapperTimeout c) (completedMappers (mapper c)) j"
          by (auto dest: find_Some_less)
        with Some g cur nd False show ?thesis
          using coord_invD(1) [OF inv]
          by (intro Map [of j "m_currentJob (mapper c)"]) (auto simp: getMapJob_eq [OF inv ok])
      qed
    next
      case cur: False
      then have "nat (m_currentJob (mapper c)) < length (files (mapper c))" "0 \<le> m_currentJob (mapper c)"
        using task_invD(1,2) [OF t] coord_invD(1) [OF inv] by auto
      with g cur nd False show ?thesis
        by (intro Map [of "nat (m_currentJob (mapper c))" "m_currentJob (mapper c) + 1"])
          (auto simp: getMapJob_eq [OF inv ok])
    qed
  qed
qed

lemma GetWork_total:
  assumes "coord_inv c" and "fs_ok fs c"
  shows "\<exists>c' r. GetWork fs ord c req reply = Inr (c', r)"
  using assms
  by (auto simp: GetWork_def getMapJob_eq getReduceJob_eq split: option.splits)

lemma GetWork_inv [inv_intros]:
  assumes inv: "coord_inv c" and ok: "fs_ok fs c" and w: "0 < req_WorkerId req"
    and gw: "GetWork fs ord c req reply = Inr (c', r)"
  shows "coord_inv c' \<and> fs_ok fs c'"
  using inv ok gw
proof (cases rule: GetWork_cases)
  case (Map j cur)
  with inv ok w show ?thesis
    using assign_map_inv [of c "req_WorkerId req" j cur] by (auto simp: assign_map_def fs_ok_def)
next
  case (Reduce j cur)
  with inv ok w show ?thesis
    using assign_reduce_inv [of c "req_WorkerId req" j cur] by (auto simp: assign_reduce_def fs_ok_def)
qed (use inv ok in auto)

lemma clearAllWork_eq:
  assumes "coord_inv c"
  shows "clearAllWork c w =
     Inr (c\<lparr>mapper := (mapper c)\<lparr>completedMappers := cleared_chunks w (completedMappers (mapper c)),
              mapWorkerIds := al_del w (mapWorkerIds (mapper c))\<rparr>,
            mapperTimeout := cleared_timers w (completedMappers (mapper c)) (mapperTimeout c),
            Workers := (Workers c)(w := None)\<rparr>)"
proof -
  have "clearMapDeadWorker_loop w [0..<length (completedMappers (mapper c))]
          (completedMappers (mapper c), mapperTimeout c) =
        Inr (cleared_chunks w (completedMappers (mapper c)),
             cleared_timers w (completedMappers (mapper c)) (mapperTimeout c))"
    using coord_invD(3) [OF assms] by (intro clear_loop) simp
  then show ?thesis by (simp add: clearAllWork_def clearMapDeadWorker_def)
qed

definition dead_state :: "Coordinator \<Rightarrow> int \<Rightarrow> nat \<Rightarrow> Coordinator" where
  "dead_state c w j =
     c\<lparr>mapper := (mapper c)\<lparr>completedMappers := cleared_chunks w (completedMappers (mapper c)),
         mapWorkerIds := al_del w (mapWorkerIds (mapper c))\<rparr>,
       mapperTimeout := cleared_timers w (completedMappers (mapper c)) (mapperTimeout c),
       Workers := (Workers c)(w := None),
       reducer := (reducer c)\<lparr>completedReducers :=
         (completedReducers (reducer c))[j := (completedReducers (reducer c) ! j)\<lparr>WorkerId := 0\<rparr>]\<rparr>,
       reducerTimeout := (reducerTimeout c)[j := 0]\<rparr>"

lemma WorkerDead_eq:
  assumes inv: "coord_inv c"
  shows "WorkerDead c jf =
    (if 0 \<le> jf_JobId jf \<and> jf_JobId jf < Nreduce c
     then Inr (dead_state c (loc_WorkerId (jf_UnreachableWorker jf)) (nat (jf_JobId jf)))
     else Inl IndexOutOfRange)"
proof -
  have len: "length (reducerTimeout c) = nat (Nreduce c)"
    "length (completedReducers (reducer c)) = nat (Nreduce c)"
    using coord_invD(4) [OF inv] by simp_all
  have r: "in_range (completedReducers (reducer c)) j \<longleftrightarrow> 0 \<le> j \<and> j < Nreduce c"
    "in_range (reducerTimeout c) j \<longleftrightarrow> 0 \<le> j \<and> j < Nreduce c" for j
    using len by (auto simp: in_range_def)
  show ?thesis
    using r by (auto simp: WorkerDead_def clearAllWork_eq [OF inv] dead_state_def set_worker_def
        slice_get_def)
qed

lemma dead_state_inv:
  assumes inv: "coord_inv c" and j: "j < nat (Nreduce c)"
  shows "coord_inv (dead_state c w j)"
  using inv task_inv_cleared [OF coord_invD(3) [OF inv], of w]
    task_inv_unassign [OF coord_invD(4) [OF inv] j]
  by (simp add: coord_inv_def dead_state_def reducer_isDone_def chunks_done_update)

lemma update_timeouts_length:
  "length cs = n \<Longrightarrow> length ts = n \<Longrightarrow> update_timeouts cs [0..<n] ts = Inr (aged cs ts)"
  using update_timeouts_aged [of cs ts] by simp

lemma serverHandler_eq:
  assumes inv: "coord_inv c"
  shows "serverHandler c = Inr (
    if \<not> mapper_isDone (mapper c)
    then c\<lparr>mapperTimeout := aged (completedMappers (mapper c)) (mapperTimeout c)\<rparr>
    else c\<lparr>IsDone := (reducer_isDone (reducer c) \<or> IsDone c),
           reducerTimeout := aged (completedReducers (reducer c)) (reducerTimeout c)\<rparr>)"
  using coord_invD(3,4) [OF inv]
  by (simp add: serverHandler_def updateMapper_def updateReducer_def update_timeouts_length Let_def)

lemma serverHandler_inv:
  assumes inv: "coord_inv c" and "serverHandler c = Inr c'"
  shows "coord_inv c'"
  using assms task_inv_aged [OF coord_invD(3) [OF inv]] task_inv_aged [OF coord_invD(4) [OF inv]]
  by (auto simp: serverHandler_eq [OF inv] coord_inv_def split: if_splits)

section \<open>The system\<close>

record mr_sys =
  coord :: Coordinator
  given :: "(Method \<times> int \<times> int) list"

datatype mr_event = Setup string | Request int | Report WorkComplete | ReportDead JobFailed | Tick

inductive mr_step ::
  "file_system \<Rightarrow> map_order \<Rightarrow> (string \<Rightarrow> bool) \<Rightarrow> mr_sys \<Rightarrow> mr_event \<Rightarrow> mr_sys \<Rightarrow> bool"
  for fs ord createOk where
  mr_setup: "DoSetup (coord s) \<lparr>req_IPAddress = ip\<rparr> = (c', ws) \<Longrightarrow>
     mr_step fs ord createOk s (Setup ip) (s\<lparr>coord := c'\<rparr>)"
| mr_request: "1 \<le> w \<Longrightarrow> w < NextWorkerId (coord s) \<Longrightarrow>
     GetWork fs ord (coord s) \<lparr>req_WorkerId = w\<rparr> zero_WorkReply = Inr (c', r) \<Longrightarrow>
     mr_step fs ord createOk s (Request w)
       (s\<lparr>coord := c', given := (WorkType r, JobId r, w) # given s\<rparr>)"
| mr_report: "(wc_WorkType wc, wc_JobId wc, wc_WorkerId wc) \<in> set (given s) \<Longrightarrow>
     WorkDone createOk (coord s) wc = Inr c' \<Longrightarrow>
     mr_step fs ord createOk s (Report wc) (s\<lparr>coord := c'\<rparr>)"
| mr_report_dead: "(REDUCE, jf_JobId jf, w) \<in> set (given s) \<Longrightarrow>
     WorkerDead (coord s) jf = Inr c' \<Longrightarrow>
     mr_step fs ord createOk s (ReportDead jf) (s\<lparr>coord := c'\<rparr>)"
| mr_tick: "serverHandler (coord s) = Inr c' \<Longrightarrow>
     mr_step fs ord createOk s Tick (s\<lparr>coord := c'\<rparr>)"

inductive_cases mr_step_E [elim!]:
  "mr_step fs ord createOk s (Setup ip) t"
  "mr_step fs ord createOk s (Request w) t"
  "mr_step fs ord createOk s (Report wc) t"
  "mr_step fs ord createOk s (ReportDead jf) t"
  "mr_step fs ord createOk s Tick t"

definition mr_init :: "file_system \<Rightarrow> mr_sys \<Rightarrow> bool" where
  "mr_init fs s \<longleftrightarrow>
     (\<exists>ip fls n. MakeCoordinator ip fls n = Inr (coord s) \<and> (\<forall>f\<in>set fls. fs f \<noteq> OpenError)) \<and>
     given s = []"

text \<open>Reported jobs have been handed out.\<close>

definition given_inv :: "mr_sys \<Rightarrow> bool" where
  "given_inv s \<longleftrightarrow>
     (\<forall>j w. (MAP, j, w) \<in> set (given s) \<longrightarrow> 0 \<le> j \<and> j < m_currentJob (mapper (coord s))) \<and>
     (\<forall>j w. (REDUCE, j, w) \<in> set (given s) \<longrightarrow> 0 \<le> j \<and> j < r_currentJob (reducer (coord s)))"

text \<open>The file of every finished reduce job is in the output directory.\<close>

definition output_inv :: "Coordinator \<Rightarrow> bool" where
  "output_inv c \<longleftrightarrow>
     (\<forall>j<length (completedReducers (reducer c)).
        Completed (completedReducers (reducer c) ! j) \<longrightarrow>
        output_dir c (out_file (int j)) \<noteq> None)"

text \<open>Workers that hold a map job are among the locations reducers are told about.\<close>

definition owner_inv :: "Coordinator \<Rightarrow> bool" where
  "owner_inv c \<longleftrightarrow>
     (\<forall>j<length (completedMappers (mapper c)).
        WorkerId (completedMappers (mapper c) ! j) \<noteq> 0 \<longrightarrow>
        WorkerId (completedMappers (mapper c) ! j) \<in> fst ` set (mapWorkerIds (mapper c)))"

definition mr_inv :: "file_system \<Rightarrow> (string \<Rightarrow> bool) \<Rightarrow> mr_sys \<Rightarrow> bool" where
  "mr_inv fs createOk s \<longleftrightarrow>
     coord_inv (coord s) \<and> fs_ok fs (coord s) \<and> given_inv s \<and>
     ((\<forall>f. createOk f) \<longrightarrow> output_inv (coord s)) \<and> owner_inv (coord s)"

lemma mr_init_inv:
  assumes "mr_init fs s" shows "mr_inv fs createOk s"
proof -
  obtain ip fls n where mk: "MakeCoordinator ip fls n = Inr (coord s)" and g: "given s = []"
    and f: "\<forall>f\<in>set fls. fs f \<noteq> OpenError"
    using assms by (auto simp: mr_init_def)
  then have n: "0 \<le> n" by (auto simp: MakeCoordinator_def Let_def split: if_splits)
  from mk n have c: "coord s =
      \<lparr>IpAddress = ip, IsDone = False, Nreduce = n,
        mapperTimeout = replicate (length fls) 0, reducerTimeout = replicate (nat n) 0,
        Workers = Map.empty, NextWorkerId = 1,
        mapper = \<lparr>files = fls, numFiles = int (length fls), m_currentJob = 0,
                  completedMappers = replicate (length fls) zero_WorkChunk, mapWorkerIds = []\<rparr>,
        reducer = \<lparr>r_currentJob = 0, completedReducers = replicate (nat n) zero_WorkChunk,
                   reduceWorkerIds = []\<rparr>,
        output_dir = Map.empty\<rparr>"
    by (simp add: MakeCoordinator_def Let_def)
  show ?thesis
    using g f n task_inv_initial [of "length fls"] task_inv_initial [of "nat n"]
    unfolding mr_inv_def coord_inv_def fs_ok_def given_inv_def output_inv_def owner_inv_def c
    by (simp add: zero_WorkChunk_def)
qed

text \<open>One lemma per event.\<close>

lemma mr_setup_inv:
  assumes "mr_inv fs createOk s" "DoSetup (coord s) q = (c', ws)"
  shows "mr_inv fs createOk (s\<lparr>coord := c'\<rparr>)"
proof -
  have c': "c' = (coord s)\<lparr>Workers := (Workers (coord s))(NextWorkerId (coord s) \<mapsto> req_IPAddress q),
        NextWorkerId := NextWorkerId (coord s) + 1\<rparr>"
    using assms(2) by (auto simp: DoSetup_def)
  have "coord_inv c'"
    using assms(1) unfolding mr_inv_def coord_inv_def c' by force
  with assms(1) show ?thesis
    by (simp add: mr_inv_def c' fs_ok_def given_inv_def output_inv_def owner_inv_def)
qed

lemma mr_request_inv:
  assumes inv: "mr_inv fs createOk s" and w: "1 \<le> w"
    and gw: "GetWork fs ord (coord s) \<lparr>req_WorkerId = w\<rparr> zero_WorkReply = Inr (c', r)"
  shows "mr_inv fs createOk (s\<lparr>coord := c', given := (WorkType r, JobId r, w) # given s\<rparr>)"
proof -
  have ci: "coord_inv (coord s)" and ok: "fs_ok fs (coord s)" and gi: "given_inv s"
    and oi: "owner_inv (coord s)"
    using inv by (simp_all add: mr_inv_def)
  have base: "coord_inv c' \<and> fs_ok fs c'"
    using GetWork_inv [OF ci ok _ gw] w by simp
  from ci ok gw show ?thesis
  proof (cases rule: GetWork_cases)
    case (Map j cur)
    let ?c = "coord s"
    have "length (completedMappers (mapper ?c)) = length (files (mapper ?c))"
      using coord_invD(3) [OF ci] by simp
    then have ow: "owner_inv c'"
      using oi Map(3,4) by (auto simp: owner_inv_def assign_map_def nth_list_update)
    have "given_inv (s\<lparr>coord := c', given := (WorkType r, JobId r, w) # given s\<rparr>)"
      using gi Map(4,5,6) by (fastforce simp: given_inv_def assign_map_def map_reply_def)
    moreover have "output_inv c' = output_inv ?c"
      using Map(4) by (simp add: output_inv_def assign_map_def)
    ultimately show ?thesis
      using inv base ow by (simp add: mr_inv_def)
  next
    case (Reduce j cur)
    let ?c = "coord s"
    have "owner_inv c' = owner_inv ?c"
      using Reduce(4) by (simp add: owner_inv_def assign_reduce_def)
    moreover have "given_inv (s\<lparr>coord := c', given := (WorkType r, JobId r, w) # given s\<rparr>)"
      using gi Reduce(4,5,6) by (fastforce simp: given_inv_def assign_reduce_def reduce_reply_def)
    moreover have "output_inv ?c \<Longrightarrow> output_inv c'"
      using Reduce(3,4) by (auto simp: output_inv_def assign_reduce_def)
    ultimately show ?thesis
      using inv base oi by (auto simp: mr_inv_def)
  qed (use inv base gi in \<open>auto simp: mr_inv_def given_inv_def\<close>)
qed

lemma WorkDone_Inr:
  assumes "WorkDone createOk c wc = Inr c'"
  shows "(wc_WorkType wc = MAP \<and> in_range (completedMappers (mapper c)) (wc_JobId wc) \<and>
          c' = c\<lparr>mapper := (mapper c)\<lparr>completedMappers := (completedMappers (mapper c))[nat (wc_JobId wc) :=
                  (completedMappers (mapper c) ! nat (wc_JobId wc))\<lparr>Completed := True\<rparr>]\<rparr>\<rparr>) \<or>
         (wc_WorkType wc = REDUCE \<and> in_range (completedReducers (reducer c)) (wc_JobId wc) \<and>
          c' = c\<lparr>output_dir := (if createOk (out_file (wc_JobId wc))
                                then (output_dir c)(out_file (wc_JobId wc) \<mapsto> wc_OutputFile wc)
                                else output_dir c),
                 reducer := (reducer c)\<lparr>completedReducers := (completedReducers (reducer c))[nat (wc_JobId wc) :=
                  (completedReducers (reducer c) ! nat (wc_JobId wc))\<lparr>Completed := True\<rparr>]\<rparr>\<rparr>) \<or>
         (wc_WorkType wc \<noteq> MAP \<and> wc_WorkType wc \<noteq> REDUCE \<and> c' = c)"
  using assms
  by (auto simp: WorkDone_def set_completed_Inr Let_def split: if_splits)

lemma mr_report_inv:
  assumes inv: "mr_inv fs createOk s"
    and g: "(wc_WorkType wc, wc_JobId wc, wc_WorkerId wc) \<in> set (given s)"
    and wd: "WorkDone createOk (coord s) wc = Inr c'"
  shows "mr_inv fs createOk (s\<lparr>coord := c'\<rparr>)"
proof -
  let ?c = "coord s"
  have ci: "coord_inv ?c" and gi: "given_inv s" and oi: "owner_inv ?c"
    using inv by (simp_all add: mr_inv_def)
  from WorkDone_Inr [OF wd] consider
    (Map) "wc_WorkType wc = MAP" "in_range (completedMappers (mapper ?c)) (wc_JobId wc)"
      "c' = ?c\<lparr>mapper := (mapper ?c)\<lparr>completedMappers := (completedMappers (mapper ?c))[nat (wc_JobId wc) :=
                  (completedMappers (mapper ?c) ! nat (wc_JobId wc))\<lparr>Completed := True\<rparr>]\<rparr>\<rparr>"
  | (Reduce) "wc_WorkType wc = REDUCE" "in_range (completedReducers (reducer ?c)) (wc_JobId wc)"
      "c' = ?c\<lparr>output_dir := (if createOk (out_file (wc_JobId wc))
                                then (output_dir ?c)(out_file (wc_JobId wc) \<mapsto> wc_OutputFile wc)
                                else output_dir ?c),
                 reducer := (reducer ?c)\<lparr>completedReducers := (completedReducers (reducer ?c))[nat (wc_JobId wc) :=
                  (completedReducers (reducer ?c) ! nat (wc_JobId wc))\<lparr>Completed := True\<rparr>]\<rparr>\<rparr>"
  | (Other) "c' = ?c" by blast
  then show ?thesis
  proof cases
    case Map
    define j where "j = nat (wc_JobId wc)"
    have j: "wc_JobId wc = int j" "int j < m_currentJob (mapper ?c)" "j < length (files (mapper ?c))"
      using gi g Map(1,2) coord_invD(3) [OF ci] by (auto simp: given_inv_def in_range_def j_def)
    have "coord_inv c'"
      using ci task_inv_complete [OF coord_invD(3) [OF ci] j(3,2)] Map(3)
      by (simp add: coord_inv_def j(1))
    moreover have "owner_inv c'"
      using oi Map(3) coord_invD(3) [OF ci] j by (auto simp: owner_inv_def nth_list_update)
    ultimately show ?thesis
      using inv Map(3) by (simp add: mr_inv_def fs_ok_def given_inv_def output_inv_def)
  next
    case Reduce
    define j where "j = nat (wc_JobId wc)"
    have j: "wc_JobId wc = int j" "int j < r_currentJob (reducer ?c)" "j < nat (Nreduce ?c)"
      using gi g Reduce(1,2) coord_invD(2,4) [OF ci] by (auto simp: given_inv_def in_range_def j_def)
    have "coord_inv c'"
      using ci task_inv_complete [OF coord_invD(4) [OF ci] j(3,2)] Reduce(3)
      by (simp add: coord_inv_def j(1) reducer_isDone_def chunks_done_complete)
    moreover have "output_inv c'" if "\<forall>f. createOk f" "output_inv ?c"
      using that Reduce(3) coord_invD(4) [OF ci] j by (auto simp: output_inv_def nth_list_update)
    ultimately show ?thesis
      using inv Reduce(3) by (simp add: mr_inv_def fs_ok_def given_inv_def owner_inv_def)
  next
    case Other
    with inv show ?thesis by simp
  qed
qed

lemma mr_dead_inv:
  assumes inv: "mr_inv fs createOk s" and wd: "WorkerDead (coord s) jf = Inr c'"
  shows "mr_inv fs createOk (s\<lparr>coord := c'\<rparr>)"
proof -
  let ?c = "coord s" and ?w = "loc_WorkerId (jf_UnreachableWorker jf)" and ?j = "nat (jf_JobId jf)"
  have ci: "coord_inv ?c" and oi: "owner_inv ?c"
    using inv by (simp_all add: mr_inv_def)
  have j: "?j < nat (Nreduce ?c)" and c': "c' = dead_state ?c ?w ?j"
    using wd by (auto simp: WorkerDead_eq [OF ci] split: if_splits)
  have "owner_inv c'"
    using oi by (auto simp: owner_inv_def c' dead_state_def cleared_chunks_def)
  moreover have "output_inv c'" if "output_inv ?c"
    using that j coord_invD(4) [OF ci] by (auto simp: output_inv_def c' dead_state_def nth_list_update)
  ultimately show ?thesis
    using inv dead_state_inv [OF ci j, of ?w]
    by (auto simp: mr_inv_def c' fs_ok_def given_inv_def dead_state_def)
qed

lemma mr_tick_inv:
  assumes inv: "mr_inv fs createOk s" and t: "serverHandler (coord s) = Inr c'"
  shows "mr_inv fs createOk (s\<lparr>coord := c'\<rparr>)"
proof -
  have ci: "coord_inv (coord s)" using inv by (simp add: mr_inv_def)
  then have "coord_inv c'" using t by (rule serverHandler_inv)
  with inv t show ?thesis
    by (auto simp: serverHandler_eq [OF ci] mr_inv_def fs_ok_def given_inv_def owner_inv_def output_inv_def
        split: if_splits)
qed

lemma mr_step_inv:
  "mr_step fs ord createOk s e t \<Longrightarrow> mr_inv fs createOk s \<Longrightarrow> mr_inv fs createOk t"
  by (induction rule: mr_step.induct)
    (auto intro: mr_setup_inv mr_request_inv mr_report_inv mr_dead_inv mr_tick_inv)

interpretation mr: invariant_system "mr_init fs" "mr_step fs ord createOk" "mr_inv fs createOk"
  for fs ord createOk
  by unfold_locales (auto intro: mr_init_inv mr_step_inv)

lemmas mr_reach_inv = mr.reach_inv [unfolded mr_inv_def]

end
