(* ===== verification/Coordinator_Props.thy ===== *)
theory Coordinator_Props
  imports Coordinator_System
begin

text \<open>
  What the coordinator guarantees: handlers never panic, reduce jobs wait for all map jobs,
  a running job is not handed out twice, unfinished jobs are handed out again after the
  timeout, and a finished computation has all its output files.
\<close>

section \<open>Executable runs\<close>

fun mr_exec ::
  "file_system \<Rightarrow> map_order \<Rightarrow> (string \<Rightarrow> bool) \<Rightarrow> mr_sys \<Rightarrow> mr_event \<Rightarrow> mr_sys option" where
  "mr_exec fs ord createOk s (Setup ip) =
     Some (s\<lparr>coord := fst (DoSetup (coord s) \<lparr>req_IPAddress = ip\<rparr>)\<rparr>)"
| "mr_exec fs ord createOk s (Request w) =
     (if 1 \<le> w \<and> w < NextWorkerId (coord s) then
        (case GetWork fs ord (coord s) \<lparr>req_WorkerId = w\<rparr> zero_WorkReply of
           Inl _ \<Rightarrow> None
         | Inr (c', r) \<Rightarrow> Some (s\<lparr>coord := c', given := (WorkType r, JobId r, w) # given s\<rparr>))
      else None)"
| "mr_exec fs ord createOk s (Report wc) =
     (if (wc_WorkType wc, wc_JobId wc, wc_WorkerId wc) \<in> set (given s) then
        (case WorkDone createOk (coord s) wc of Inl _ \<Rightarrow> None | Inr c' \<Rightarrow> Some (s\<lparr>coord := c'\<rparr>))
      else None)"
| "mr_exec fs ord createOk s (ReportDead jf) =
     (if list_ex (\<lambda>(m, j, w). m = REDUCE \<and> j = jf_JobId jf) (given s) then
        (case WorkerDead (coord s) jf of Inl _ \<Rightarrow> None | Inr c' \<Rightarrow> Some (s\<lparr>coord := c'\<rparr>))
      else None)"
| "mr_exec fs ord createOk s Tick =
     (case serverHandler (coord s) of Inl _ \<Rightarrow> None | Inr c' \<Rightarrow> Some (s\<lparr>coord := c'\<rparr>))"

fun mr_run ::
  "file_system \<Rightarrow> map_order \<Rightarrow> (string \<Rightarrow> bool) \<Rightarrow> mr_sys \<Rightarrow> mr_event list \<Rightarrow> mr_sys option" where
  "mr_run fs ord createOk s [] = Some s"
| "mr_run fs ord createOk s (e # es) =
     (case mr_exec fs ord createOk s e of None \<Rightarrow> None | Some t \<Rightarrow> mr_run fs ord createOk t es)"

lemma mr_exec_step: "mr_exec fs ord createOk s e = Some t \<Longrightarrow> mr_step fs ord createOk s e t"
  by (cases e)
    (auto intro!: mr_step.intros simp: list_ex_iff prod_eq_iff split: sum.splits if_splits)

lemma mr_run_of: "mr_run fs ord createOk s es = Some t \<Longrightarrow> run_of (mr_step fs ord createOk) s es t"
  by (induction es arbitrary: s) (auto intro!: run_of.intros mr_exec_step split: option.splits)

definition mr_start :: "string list \<Rightarrow> int \<Rightarrow> mr_sys" where
  "mr_start fls n =
     \<lparr>coord = projr (MakeCoordinator ''ip'' fls n), given = []\<rparr>"

lemma mr_start_init: "0 \<le> n \<Longrightarrow> \<forall>f\<in>set fls. fs f \<noteq> OpenError \<Longrightarrow> mr_init fs (mr_start fls n)"
proof -
  assume "0 \<le> n" and f: "\<forall>f\<in>set fls. fs f \<noteq> OpenError"
  then have "MakeCoordinator ''ip'' fls n = Inr (coord (mr_start fls n))"
    by (simp add: mr_start_def MakeCoordinator_def Let_def)
  moreover have "given (mr_start fls n) = []" by (simp add: mr_start_def)
  ultimately show ?thesis using f unfolding mr_init_def by blast
qed

lemma mr_run_reach:
  assumes "mr_run fs ord createOk (mr_start fls n) es = Some t" "0 \<le> n" "\<forall>f\<in>set fls. fs f \<noteq> OpenError"
  shows "reach (mr_init fs) (mr_step fs ord createOk) t"
  using reach_run [OF mr_run_of [OF assms(1)] reach_init] mr_start_init [OF assms(2,3)] by blast

section \<open>Reassignment of lost jobs\<close>

text \<open>
  The part of the coordinator that serves one phase, seen through its task table.  Ticking
  ages the timers, and a request is served from a fresh or a retryable job.
\<close>

locale task_phase =
  fixes ok :: "'c \<Rightarrow> bool"
    and chunks :: "'c \<Rightarrow> WorkChunk list" and timers :: "'c \<Rightarrow> int list"
    and cur :: "'c \<Rightarrow> int" and njobs :: "'c \<Rightarrow> nat"
    and tick :: "'c \<Rightarrow> 'c go"
    and request :: "'c \<Rightarrow> int \<Rightarrow> ('c \<times> WorkReply) go"
    and kind :: Method
  assumes table: "ok c \<Longrightarrow> task_inv (njobs c) (cur c) (chunks c) (timers c)"
    and unfinished: "ok c \<Longrightarrow> \<exists>j<njobs c. \<not> Completed (chunks c ! j)"
    and tick_ok: "ok c \<Longrightarrow> \<exists>c'. tick c = Inr c' \<and> ok c' \<and> chunks c' = chunks c \<and>
           njobs c' = njobs c \<and> cur c' = cur c \<and> timers c' = aged (chunks c) (timers c)"
    and request_fresh: "ok c \<Longrightarrow> cur c < int (njobs c) \<Longrightarrow>
           \<exists>c' r. request c w = Inr (c', r) \<and> WorkType r = kind"
    and request_retry: "ok c \<Longrightarrow> cur c = int (njobs c) \<Longrightarrow> j < njobs c \<Longrightarrow>
           retryable (timers c) (chunks c) j \<Longrightarrow>
           \<exists>c' r. request c w = Inr (c', r) \<and> WorkType r = kind"
begin

lemma ticks_ok:
  "ok c \<Longrightarrow> \<exists>c'. iter_go k tick c = Inr c' \<and> ok c' \<and> chunks c' = chunks c \<and> njobs c' = njobs c \<and>
     cur c' = cur c \<and>
     (\<forall>j<njobs c. in_progress (chunks c) (timers c) j \<longrightarrow> timers c' ! j = timers c ! j + int k) \<and>
     (\<forall>j<njobs c. \<not> in_progress (chunks c) (timers c) j \<longrightarrow> timers c' ! j = timers c ! j)"
proof (induction k arbitrary: c)
  case (Suc k)
  obtain c1 where c1: "tick c = Inr c1" "ok c1" "chunks c1 = chunks c" "njobs c1 = njobs c"
    "cur c1 = cur c" "timers c1 = aged (chunks c) (timers c)"
    using tick_ok [OF Suc.prems] by blast
  have len: "length (timers c) = njobs c" using table [OF Suc.prems] by simp
  have nth: "timers c1 ! j = (if in_progress (chunks c) (timers c) j then timers c ! j + 1 else timers c ! j)"
    if "j < njobs c" for j
    using that len c1(6) by (simp add: aged_nth)
  have prog: "in_progress (chunks c1) (timers c1) j \<longleftrightarrow> in_progress (chunks c) (timers c) j"
    if "j < njobs c" for j
    using nth [OF that] c1(3) by (auto simp: in_progress_def)
  from Suc.IH [OF c1(2)] c1 nth prog show ?case by auto
qed simp

lemma retryable_after_timeout:
  assumes "ok c" and j: "j < njobs c" "\<not> Completed (chunks c ! j)"
  shows "\<exists>c'. iter_go (nat TIMEOUT) tick c = Inr c' \<and> ok c' \<and> cur c' = cur c \<and> njobs c' = njobs c \<and>
           retryable (timers c') (chunks c') j"
proof -
  obtain c' where c': "iter_go (nat TIMEOUT) tick c = Inr c'" "ok c'" "chunks c' = chunks c"
    "njobs c' = njobs c" "cur c' = cur c"
    "in_progress (chunks c) (timers c) j \<longrightarrow> timers c' ! j = timers c ! j + int (nat TIMEOUT)"
    "\<not> in_progress (chunks c) (timers c) j \<longrightarrow> timers c' ! j = timers c ! j"
    using ticks_ok [OF assms(1), of "nat TIMEOUT"] j(1) by blast
  have t: "0 \<le> WorkerId (chunks c ! j)" "0 \<le> timers c ! j"
    "WorkerId (chunks c ! j) = 0 \<longleftrightarrow> timers c ! j = 0"
    using task_invD(3-5) [OF table [OF assms(1)] j(1)] by simp_all
  have "retryable (timers c') (chunks c') j"
    using t c' j(2) by (cases "WorkerId (chunks c ! j) = 0")
      (auto simp: retryable_def in_progress_def TIMEOUT_def)
  with c' show ?thesis by blast
qed

theorem served_after_timeout:
  assumes "ok c"
  shows "\<exists>c1 c2 r. iter_go (nat TIMEOUT) tick c = Inr c1 \<and> request c1 w = Inr (c2, r) \<and> WorkType r = kind"
proof -
  obtain j where j: "j < njobs c" "\<not> Completed (chunks c ! j)"
    using unfinished [OF assms] by blast
  obtain c1 where c1: "iter_go (nat TIMEOUT) tick c = Inr c1" "ok c1" "njobs c1 = njobs c"
    "retryable (timers c1) (chunks c1) j"
    using retryable_after_timeout [OF assms j] by blast
  have le: "cur c1 \<le> int (njobs c1)" using task_invD(2) [OF table [OF c1(2)]] .
  show ?thesis
  proof (cases "cur c1 = int (njobs c1)")
    case True
    with request_retry [OF c1(2)] c1 j(1) show ?thesis by metis
  next
    case False
    with le have "cur c1 < int (njobs c1)" by simp
    with request_fresh [OF c1(2)] c1(1) show ?thesis by blast
  qed
qed

end

definition map_phase :: "file_system \<Rightarrow> Coordinator \<Rightarrow> bool" where
  "map_phase fs c \<longleftrightarrow> coord_inv c \<and> fs_ok fs c \<and> \<not> IsDone c \<and> \<not> mapper_isDone (mapper c)"

definition reduce_phase :: "Coordinator \<Rightarrow> bool" where
  "reduce_phase c \<longleftrightarrow> coord_inv c \<and> mapper_isDone (mapper c) \<and> \<not> reducer_isDone (reducer c)"

lemma map_phase_tick:
  assumes "map_phase fs c"
  shows "\<exists>c'. serverHandler c = Inr c' \<and> map_phase fs c' \<and> mapper c' = mapper c \<and>
           mapperTimeout c' = aged (completedMappers (mapper c)) (mapperTimeout c)"
proof -
  have inv: "coord_inv c" and nd: "\<not> mapper_isDone (mapper c)"
    using assms by (simp_all add: map_phase_def)
  let ?c = "c\<lparr>mapperTimeout := aged (completedMappers (mapper c)) (mapperTimeout c)\<rparr>"
  have e: "serverHandler c = Inr ?c" using nd by (simp add: serverHandler_eq [OF inv])
  with serverHandler_inv [OF inv e] assms show ?thesis by (simp add: map_phase_def fs_ok_def)
qed

lemma reduce_phase_tick:
  assumes "reduce_phase c"
  shows "\<exists>c'. serverHandler c = Inr c' \<and> reduce_phase c' \<and> reducer c' = reducer c \<and> Nreduce c' = Nreduce c \<and>
           reducerTimeout c' = aged (completedReducers (reducer c)) (reducerTimeout c)"
proof -
  have inv: "coord_inv c" and d: "mapper_isDone (mapper c)" "\<not> reducer_isDone (reducer c)"
    using assms by (simp_all add: reduce_phase_def)
  obtain c' where c': "serverHandler c = Inr c'" using serverHandler_eq [OF inv] by simp
  with serverHandler_inv [OF inv c'] d show ?thesis
    by (auto simp: serverHandler_eq [OF inv] reduce_phase_def)
qed

interpretation map_pool: task_phase "map_phase fs" "\<lambda>c. completedMappers (mapper c)" mapperTimeout
    "\<lambda>c. m_currentJob (mapper c)" "\<lambda>c. length (files (mapper c))" serverHandler
    "\<lambda>c w. GetWork fs ord c \<lparr>req_WorkerId = w\<rparr> zero_WorkReply" MAP
  for fs ord
proof (unfold_locales, goal_cases)
  case (1 c) then show ?case by (simp add: map_phase_def coord_invD)
next
  case (2 c)
  then have "length (completedMappers (mapper c)) = length (files (mapper c))"
    by (auto simp: map_phase_def dest: coord_invD(3))
  with 2 show ?case using not_chunks_done [of "completedMappers (mapper c)"]
    by (simp add: map_phase_def mapper_isDone_def)
next
  case (3 c) then show ?case using map_phase_tick by fastforce
next
  case (4 c w)
  then show ?case
    by (auto simp: map_phase_def GetWork_def getMapJob_eq coord_invD(1) map_reply_def)
next
  case (5 c j w)
  then have "find (retryable (mapperTimeout c) (completedMappers (mapper c))) [0..<length (files (mapper c))] \<noteq> None"
    by (auto simp: find_None_iff)
  with 5 show ?case
    by (auto simp: map_phase_def GetWork_def getMapJob_eq coord_invD(1) map_reply_def)
qed

interpretation reduce_pool: task_phase reduce_phase "\<lambda>c. completedReducers (reducer c)" reducerTimeout
    "\<lambda>c. r_currentJob (reducer c)" "\<lambda>c. nat (Nreduce c)" serverHandler
    "\<lambda>c w. GetWork fs ord c \<lparr>req_WorkerId = w\<rparr> zero_WorkReply" REDUCE
  for fs ord
proof (unfold_locales, goal_cases)
  case (1 c) then show ?case by (simp add: reduce_phase_def coord_invD)
next
  case (2 c)
  then have "length (completedReducers (reducer c)) = nat (Nreduce c)"
    by (auto simp: reduce_phase_def dest: coord_invD(4))
  with 2 show ?case using not_chunks_done [of "completedReducers (reducer c)"]
    by (simp add: reduce_phase_def reducer_isDone_def)
next
  case (3 c) then show ?case using reduce_phase_tick by fastforce
next
  case (4 c w)
  then show ?case
    by (auto simp: reduce_phase_def coord_inv_def GetWork_def getReduceJob_eq reduce_reply_def)
next
  case (5 c j w)
  then have "find (retryable (reducerTimeout c) (completedReducers (reducer c))) [0..<nat (Nreduce c)] \<noteq> None"
    by (auto simp: find_None_iff)
  moreover have "r_currentJob (reducer c) = Nreduce c"
    using 5 coord_invD(2) by (auto simp: reduce_phase_def)
  ultimately show ?case
    using 5 by (auto simp: reduce_phase_def coord_inv_def GetWork_def getReduceJob_eq reduce_reply_def)
qed

section \<open>Safety\<close>

abbreviation mr_reach where
  "mr_reach fs ord createOk \<equiv> reach (mr_init fs) (mr_step fs ord createOk)"

lemma WorkDone_total:
  assumes inv: "coord_inv (coord s)" and gi: "given_inv s"
    and g: "(wc_WorkType wc, wc_JobId wc, w) \<in> set (given s)"
  shows "\<exists>c'. WorkDone createOk (coord s) wc = Inr c'"
proof -
  let ?c = "coord s"
  have "in_range (completedMappers (mapper ?c)) (wc_JobId wc)" if "wc_WorkType wc = MAP"
    using gi g that coord_invD(1) [OF inv] task_invD(2) [OF coord_invD(3) [OF inv]]
      task_inv_lengths [OF coord_invD(3) [OF inv]]
    by (fastforce simp: given_inv_def in_range_def)
  moreover have "in_range (completedReducers (reducer ?c)) (wc_JobId wc)" if "wc_WorkType wc = REDUCE"
    using gi g that task_invD(2) [OF coord_invD(4) [OF inv]]
      task_inv_lengths [OF coord_invD(4) [OF inv]]
    by (fastforce simp: given_inv_def in_range_def)
  ultimately show ?thesis by (simp add: WorkDone_def Let_def)
qed

lemma WorkerDead_total:
  assumes inv: "coord_inv (coord s)" and gi: "given_inv s"
    and g: "(REDUCE, jf_JobId jf, w) \<in> set (given s)"
  shows "\<exists>c'. WorkerDead (coord s) jf = Inr c'"
proof -
  have "0 \<le> jf_JobId jf \<and> jf_JobId jf < Nreduce (coord s)"
    using gi g task_invD(2) [OF coord_invD(4) [OF inv]] coord_invD(2) [OF inv]
    by (fastforce simp: given_inv_def)
  then show ?thesis by (simp add: WorkerDead_eq [OF inv])
qed

text \<open>C13: in every reachable state no handler panics: requests of any worker are served, every
  job that was handed out can be reported as finished, a reducer can report a dead mapper,
  and the timer loop runs.\<close>

theorem handlers_never_panic:
  assumes "mr_reach fs ord createOk s"
  shows "(\<exists>c' r. GetWork fs ord (coord s) req zero_WorkReply = Inr (c', r)) \<and>
         ((wc_WorkType wc, wc_JobId wc, w) \<in> set (given s) \<longrightarrow>
            (\<exists>c'. WorkDone createOk (coord s) wc = Inr c')) \<and>
         ((REDUCE, jf_JobId jf, w) \<in> set (given s) \<longrightarrow> (\<exists>c'. WorkerDead (coord s) jf = Inr c')) \<and>
         (\<exists>c'. serverHandler (coord s) = Inr c')"
  using mr_reach_inv [OF assms] GetWork_total WorkDone_total WorkerDead_total serverHandler_eq
  by blast

text \<open>C11: a reduce job is only handed out when every map job has completed, and the reply names
  every worker that holds the output of a map job.\<close>

theorem reduce_after_all_maps:
  assumes "mr_reach fs ord createOk s" and ord: "\<And>xs. set (ord xs) = set xs"
    and "GetWork fs ord (coord s) req zero_WorkReply = Inr (c', r)" and "WorkType r = REDUCE"
  shows "\<forall>j<length (files (mapper (coord s))).
           Completed (completedMappers (mapper (coord s)) ! j) \<and>
           (WorkerId (completedMappers (mapper (coord s)) ! j) \<noteq> 0 \<longrightarrow>
            WorkerId (completedMappers (mapper (coord s)) ! j)
              \<in> loc_WorkerId ` set (ReduceFileLocations r))"
proof -
  let ?c = "coord s"
  have inv: "coord_inv ?c" "fs_ok fs ?c" "owner_inv ?c"
    using mr_reach_inv [OF assms(1)] by simp_all
  have len: "length (completedMappers (mapper ?c)) = length (files (mapper ?c))"
    using coord_invD(3) [OF inv(1)] by simp
  from inv(1,2) assms(3) show ?thesis
  proof (cases rule: GetWork_cases)
    case (Reduce j cur)
    then have "chunks_done (completedMappers (mapper ?c))"
      and "loc_WorkerId ` set (ReduceFileLocations r) = fst ` set (mapWorkerIds (mapper ?c))"
      by (simp_all add: mapper_isDone_def reduce_reply_def getReduceFileLocations_def ord image_image)
    with inv(3) len show ?thesis by (simp add: chunks_done_iff owner_inv_def)
  qed (use assms(4) in \<open>auto simp: map_reply_def\<close>)
qed

section \<open>Exclusive assignment\<close>

text \<open>Job \<open>j\<close> is in the hands of worker \<open>w\<close>, for at most \<open>k\<close> ticks.\<close>

definition held :: "WorkChunk list \<Rightarrow> int list \<Rightarrow> nat \<Rightarrow> int \<Rightarrow> nat \<Rightarrow> bool" where
  "held cs ts j w k \<longleftrightarrow> j < length cs \<and> j < length ts \<and> WorkerId (cs ! j) = w \<and> w > 0 \<and>
     0 < ts ! j \<and> ts ! j \<le> 1 + int k"

lemma held_not_retryable: "held cs ts j w k \<Longrightarrow> int k < TIMEOUT \<Longrightarrow> \<not> retryable ts cs j"
  by (auto simp: held_def retryable_def)

lemma held_aged: "held cs ts j w k \<Longrightarrow> held cs (aged cs ts) j w (Suc k)"
  by (auto simp: held_def aged_nth)

lemma held_mono: "held cs ts j w k \<Longrightarrow> k \<le> k' \<Longrightarrow> held cs ts j w k'"
  by (auto simp: held_def)

lemma held_update:
  "held cs ts j w k \<Longrightarrow> i \<noteq> j \<Longrightarrow> held (cs[i := ch]) (ts[i := tm]) j w k"
  by (auto simp: held_def)

lemma held_completed:
  "held cs ts j w k \<Longrightarrow> held (cs[i := (cs ! i)\<lparr>Completed := b\<rparr>]) ts j w k"
  by (auto simp: held_def nth_list_update)

lemma held_cleared:
  "held cs ts j w k \<Longrightarrow> length cs = length ts \<Longrightarrow> d \<noteq> w \<Longrightarrow>
   held (cleared_chunks d cs) (cleared_timers d cs ts) j w k"
  using cleared_nth [of cs ts j d]
  by (auto simp: held_def cleared_chunks_def cleared_timers_def)

definition map_held :: "Coordinator \<Rightarrow> nat \<Rightarrow> int \<Rightarrow> nat \<Rightarrow> bool" where
  "map_held c = held (completedMappers (mapper c)) (mapperTimeout c)"

definition reduce_held :: "Coordinator \<Rightarrow> nat \<Rightarrow> int \<Rightarrow> nat \<Rightarrow> bool" where
  "reduce_held c = held (completedReducers (reducer c)) (reducerTimeout c)"

definition is_tick :: "mr_event \<Rightarrow> bool" where
  "is_tick e = (case e of Tick \<Rightarrow> True | _ \<Rightarrow> False)"

definition n_ticks :: "mr_event list \<Rightarrow> nat" where
  "n_ticks es = length (filter is_tick es)"

lemma n_ticks_simps [simp]:
  "n_ticks [] = 0" "n_ticks (e # es) = (if is_tick e then Suc (n_ticks es) else n_ticks es)"
  by (simp_all add: n_ticks_def)

lemma held_fresh: "held cs ts j w k \<Longrightarrow> task_inv n cur cs ts \<Longrightarrow> int j \<noteq> cur"
  using task_invD(6) [of n cur cs ts j] by (auto simp: held_def)

lemma map_held_step:
  assumes inv: "mr_inv fs createOk s" and step: "mr_step fs ord createOk s e t"
    and h: "map_held (coord s) j w k" and k: "int k < TIMEOUT"
    and alive: "\<And>jf. e = ReportDead jf \<Longrightarrow> loc_WorkerId (jf_UnreachableWorker jf) \<noteq> w"
  shows "map_held (coord t) j w (if is_tick e then Suc k else k) \<and>
         (\<exists>new. given t = new @ given s \<and> (\<forall>v. (MAP, int j, v) \<notin> set new))"
proof -
  have ci: "coord_inv (coord s)" and ok: "fs_ok fs (coord s)"
    using inv by (simp_all add: mr_inv_def)
  note tm = coord_invD(3) [OF ci]
  note nr = held_not_retryable [OF h [unfolded map_held_def] k]
  note nf = held_fresh [OF h [unfolded map_held_def] tm]
  from step show ?thesis
  proof cases
    case (mr_request v c' r)
    from ci ok mr_request(5) show ?thesis
    proof (cases rule: GetWork_cases)
      case (Map i cur)
      then have "i \<noteq> j" using nr nf by auto
      with Map mr_request h show ?thesis
        by (auto simp: map_held_def assign_map_def map_reply_def is_tick_def intro: held_update)
    qed (use mr_request h in \<open>auto simp: map_held_def assign_reduce_def reduce_reply_def is_tick_def\<close>)
  next
    case (mr_report wc c')
    with WorkDone_Inr [OF mr_report(4)] h show ?thesis
      by (auto simp: map_held_def is_tick_def intro: held_completed)
  next
    case (mr_report_dead jf v c')
    with WorkerDead_eq [OF ci, of jf] h alive tm show ?thesis
      by (auto simp: map_held_def is_tick_def dead_state_def split: if_splits intro!: held_cleared)
  next
    case (mr_tick c')
    with serverHandler_eq [OF ci] h show ?thesis
      by (auto simp: map_held_def is_tick_def intro: held_aged held_mono split: if_splits)
  qed (use h in \<open>auto simp: DoSetup_def map_held_def is_tick_def\<close>)
qed

lemma reduce_held_step:
  assumes inv: "mr_inv fs createOk s" and step: "mr_step fs ord createOk s e t"
    and h: "reduce_held (coord s) j w k" and k: "int k < TIMEOUT"
    and alive: "\<And>jf. e = ReportDead jf \<Longrightarrow> jf_JobId jf \<noteq> int j"
  shows "reduce_held (coord t) j w (if is_tick e then Suc k else k) \<and>
         (\<exists>new. given t = new @ given s \<and> (\<forall>v. (REDUCE, int j, v) \<notin> set new))"
proof -
  have ci: "coord_inv (coord s)" and ok: "fs_ok fs (coord s)"
    using inv by (simp_all add: mr_inv_def)
  note nr = held_not_retryable [OF h [unfolded reduce_held_def] k]
  note nf = held_fresh [OF h [unfolded reduce_held_def] coord_invD(4) [OF ci]]
  from step show ?thesis
  proof cases
    case (mr_request v c' r)
    from ci ok mr_request(5) show ?thesis
    proof (cases rule: GetWork_cases)
      case (Reduce i cur)
      then have "i \<noteq> j" using nr nf by auto
      with Reduce mr_request h show ?thesis
        by (auto simp: reduce_held_def assign_reduce_def reduce_reply_def is_tick_def intro: held_update)
    qed (use mr_request h in \<open>auto simp: reduce_held_def assign_map_def map_reply_def is_tick_def\<close>)
  next
    case (mr_report wc c')
    with WorkDone_Inr [OF mr_report(4)] h show ?thesis
      by (auto simp: reduce_held_def is_tick_def intro: held_completed)
  next
    case (mr_report_dead jf v c')
    then have "nat (jf_JobId jf) \<noteq> j \<or> jf_JobId jf < 0"
      using alive [OF mr_report_dead(1)] by (auto split: if_splits)
    with mr_report_dead WorkerDead_eq [OF ci, of jf] h show ?thesis
      by (auto simp: reduce_held_def is_tick_def dead_state_def split: if_splits intro!: held_update)
  next
    case (mr_tick c')
    with serverHandler_eq [OF ci] h show ?thesis
      by (auto simp: reduce_held_def is_tick_def intro: held_aged held_mono split: if_splits)
  qed (use h in \<open>auto simp: DoSetup_def reduce_held_def is_tick_def\<close>)
qed

text \<open>
  A lease: a resource stays with its holder along every run that neither breaks the lease
  nor uses up its time.
\<close>

locale lease =
  fixes inv :: "'s \<Rightarrow> bool" and step :: "'s \<Rightarrow> 'e \<Rightarrow> 's \<Rightarrow> bool"
    and tick :: "'e \<Rightarrow> bool" and breaks :: "'k \<Rightarrow> 'e \<Rightarrow> bool"
    and log :: "'s \<Rightarrow> 'x list" and grants :: "'k \<Rightarrow> 'x \<Rightarrow> bool"
    and holds :: "'s \<Rightarrow> 'k \<Rightarrow> nat \<Rightarrow> bool" and limit :: nat
  assumes inv_step: "inv s \<Longrightarrow> step s e t \<Longrightarrow> inv t"
    and holds_step: "inv s \<Longrightarrow> step s e t \<Longrightarrow> holds s k n \<Longrightarrow> n < limit \<Longrightarrow> \<not> breaks k e \<Longrightarrow>
      holds t k (if tick e then Suc n else n) \<and>
      (\<exists>new. log t = new @ log s \<and> (\<forall>x\<in>set new. \<not> grants k x))"
begin

lemma holds_run:
  "run_of step s es t \<Longrightarrow> inv s \<Longrightarrow> holds s k n \<Longrightarrow> n + length (filter tick es) < limit \<Longrightarrow>
   (\<forall>e\<in>set es. \<not> breaks k e) \<Longrightarrow>
   \<exists>new. log t = new @ log s \<and> (\<forall>x\<in>set new. \<not> grants k x)"
proof (induction arbitrary: n rule: run_of.induct)
  case (run_cons s e t es u)
  have st: "holds t k (if tick e then Suc n else n)"
    "\<exists>new. log t = new @ log s \<and> (\<forall>x\<in>set new. \<not> grants k x)"
    using holds_step [OF run_cons.prems(1) run_cons.hyps(1) run_cons.prems(2)] run_cons.prems(3,4)
    by auto
  have "\<exists>new. log u = new @ log t \<and> (\<forall>x\<in>set new. \<not> grants k x)"
    using run_cons.IH [OF inv_step [OF run_cons.prems(1) run_cons.hyps(1)] st(1)] run_cons.prems(3,4)
    by (auto split: if_splits)
  with st(2) show ?case by (metis append.assoc set_append Un_iff)
qed simp

end

definition lease_grants :: "Method \<Rightarrow> nat \<times> int \<Rightarrow> Method \<times> int \<times> int \<Rightarrow> bool" where
  "lease_grants m k x \<longleftrightarrow> fst x = m \<and> fst (snd x) = int (fst k)"

lemma lease_grants_none:
  "(\<forall>x\<in>set new. \<not> lease_grants m (j, w) x) \<longleftrightarrow> (\<forall>v. (m, int j, v) \<notin> set new)"
  by (auto simp: lease_grants_def)

fun map_broken :: "nat \<times> int \<Rightarrow> mr_event \<Rightarrow> bool" where
  "map_broken (j, w) (ReportDead jf) = (loc_WorkerId (jf_UnreachableWorker jf) = w)"
| "map_broken _ _ = False"

fun reduce_broken :: "nat \<times> int \<Rightarrow> mr_event \<Rightarrow> bool" where
  "reduce_broken (j, w) (ReportDead jf) = (jf_JobId jf = int j)"
| "reduce_broken _ _ = False"

interpretation map_lease: lease "mr_inv fs createOk" "mr_step fs ord createOk" is_tick map_broken given
    "lease_grants MAP" "\<lambda>s (j, w). map_held (coord s) j w" "nat TIMEOUT"
  for fs ord createOk
proof (unfold_locales, goal_cases)
  case (2 s e t k n)
  obtain j w where k: "k = (j, w)" by fastforce
  have "map_held (coord t) j w (if is_tick e then Suc n else n) \<and>
      (\<exists>new. given t = new @ given s \<and> (\<forall>v. (MAP, int j, v) \<notin> set new))"
    by (rule map_held_step [OF 2(1,2)]) (use 2(3-5) k in \<open>auto simp: TIMEOUT_def\<close>)
  with k show ?case by (simp only: lease_grants_none prod.case)
qed (rule mr_step_inv)

interpretation reduce_lease: lease "mr_inv fs createOk" "mr_step fs ord createOk" is_tick reduce_broken given
    "lease_grants REDUCE" "\<lambda>s (j, w). reduce_held (coord s) j w" "nat TIMEOUT"
  for fs ord createOk
proof (unfold_locales, goal_cases)
  case (2 s e t k n)
  obtain j w where k: "k = (j, w)" by fastforce
  have "reduce_held (coord t) j w (if is_tick e then Suc n else n) \<and>
      (\<exists>new. given t = new @ given s \<and> (\<forall>v. (REDUCE, int j, v) \<notin> set new))"
    by (rule reduce_held_step [OF 2(1,2)]) (use 2(3-5) k in \<open>auto simp: TIMEOUT_def\<close>)
  with k show ?case by (simp only: lease_grants_none prod.case)
qed (rule mr_step_inv)

lemma request_grants:
  assumes inv: "mr_inv fs createOk s" and step: "mr_step fs ord createOk s (Request w) t"
  shows "given t = (MAP, int j, w) # given s \<Longrightarrow> map_held (coord t) j w 0"
    and "given t = (REDUCE, int j, w) # given s \<Longrightarrow> reduce_held (coord t) j w 0"
proof -
  have ci: "coord_inv (coord s)" and ok: "fs_ok fs (coord s)"
    using inv by (simp_all add: mr_inv_def)
  from step obtain c' r where w: "1 \<le> w" and t: "t = s\<lparr>coord := c', given := (WorkType r, JobId r, w) # given s\<rparr>"
    and gw: "GetWork fs ord (coord s) \<lparr>req_WorkerId = w\<rparr> zero_WorkReply = Inr (c', r)"
    by blast
  note len = task_inv_lengths [OF coord_invD(3) [OF ci]] task_inv_lengths [OF coord_invD(4) [OF ci]]
  from ci ok gw have "(WorkType r = MAP \<and> JobId r = int j \<longrightarrow> map_held c' j w 0) \<and>
      (WorkType r = REDUCE \<and> JobId r = int j \<longrightarrow> reduce_held c' j w 0)"
    by (cases rule: GetWork_cases)
      (use w len in \<open>auto simp: map_reply_def reduce_reply_def assign_map_def assign_reduce_def
         map_held_def reduce_held_def held_def\<close>)
  with t show "given t = (MAP, int j, w) # given s \<Longrightarrow> map_held (coord t) j w 0"
    and "given t = (REDUCE, int j, w) # given s \<Longrightarrow> reduce_held (coord t) j w 0"
    by auto
qed

text \<open>C2: once a map job has been handed to a worker, no other request is given that job before
  ten ticks have passed, unless the worker is reported dead.\<close>

theorem map_job_exclusive:
  assumes "mr_reach fs ord createOk s" and "mr_step fs ord createOk s (Request w) t"
    and "given t = (MAP, int j, w) # given s"
    and "run_of (mr_step fs ord createOk) t es u" and "int (n_ticks es) < TIMEOUT"
    and "\<forall>e\<in>set es. \<not> map_broken (j, w) e"
  shows "\<exists>new. given u = new @ given t \<and> (\<forall>v. (MAP, int j, v) \<notin> set new)"
proof -
  have inv: "mr_inv fs createOk s" "mr_inv fs createOk t"
    using mr.reach_inv [OF assms(1)] mr_step_inv [OF assms(2)] by simp_all
  have "map_held (coord t) j w 0"
    by (rule request_grants(1) [OF inv(1) assms(2,3)])
  with assms(4-6) inv(2) show ?thesis
    using map_lease.holds_run [of fs ord createOk t es u "(j, w)" 0]
    by (simp add: lease_grants_none n_ticks_def TIMEOUT_def)
qed

text \<open>the same for reduce jobs: a reduce job that was handed out is not given to anyone else
  before ten ticks have passed, unless its reducer reports an unreachable mapper.\<close>

theorem reduce_job_exclusive:
  assumes "mr_reach fs ord createOk s" and "mr_step fs ord createOk s (Request w) t"
    and "given t = (REDUCE, int j, w) # given s"
    and "run_of (mr_step fs ord createOk) t es u" and "int (n_ticks es) < TIMEOUT"
    and "\<forall>e\<in>set es. \<not> reduce_broken (j, w) e"
  shows "\<exists>new. given u = new @ given t \<and> (\<forall>v. (REDUCE, int j, v) \<notin> set new)"
proof -
  have inv: "mr_inv fs createOk s" "mr_inv fs createOk t"
    using mr.reach_inv [OF assms(1)] mr_step_inv [OF assms(2)] by simp_all
  have "reduce_held (coord t) j w 0"
    by (rule request_grants(2) [OF inv(1) assms(2,3)])
  with assms(4-6) inv(2) show ?thesis
    using reduce_lease.holds_run [of fs ord createOk t es u "(j, w)" 0]
    by (simp add: lease_grants_none n_ticks_def TIMEOUT_def)
qed

section \<open>Progress and completion\<close>

lemma done_ticks:
  "coord_inv c \<Longrightarrow> IsDone c \<Longrightarrow> \<exists>c'. iter_go k serverHandler c = Inr c' \<and> IsDone c'"
proof (induction k arbitrary: c)
  case (Suc k)
  obtain c1 where c1: "serverHandler c = Inr c1" "IsDone c1"
    using serverHandler_eq [OF Suc.prems(1)] Suc.prems(2) by (auto split: if_splits)
  with Suc.IH serverHandler_inv [OF Suc.prems(1)] show ?case by simp
qed simp

lemma finished_tick:
  assumes "coord_inv c" "mapper_isDone (mapper c)" "reducer_isDone (reducer c)"
  shows "\<exists>c'. iter_go (nat TIMEOUT) serverHandler c = Inr c' \<and> IsDone c'"
proof -
  obtain c1 where c1: "serverHandler c = Inr c1" "IsDone c1"
    using serverHandler_eq [OF assms(1)] assms(2,3) by simp
  have "\<exists>c'. iter_go 9 serverHandler c1 = Inr c' \<and> IsDone c'"
    using done_ticks [OF serverHandler_inv [OF assms(1) c1(1)] c1(2)] .
  moreover have "iter_go (nat TIMEOUT) serverHandler c = iter_go 9 serverHandler c1"
    using c1(1) by (simp add: TIMEOUT_def eval_nat_numeral)
  ultimately show ?thesis by simp
qed

text \<open>C3: from every reachable state, ten ticks later either the computation is marked as done or
  the next request of any worker is given a job of the phase that is unfinished, whatever
  happened to the workers that held jobs before.\<close>

theorem work_is_reassigned:
  assumes "mr_reach fs ord createOk s"
  shows "\<exists>c. iter_go (nat TIMEOUT) serverHandler (coord s) = Inr c \<and>
    (Done c \<or>
     (\<exists>c' r. GetWork fs ord c \<lparr>req_WorkerId = w\<rparr> zero_WorkReply = Inr (c', r) \<and>
        WorkType r = (if mapper_isDone (mapper (coord s)) then REDUCE else MAP)))"
proof -
  let ?c = "coord s"
  have inv: "coord_inv ?c" "fs_ok fs ?c" using mr_reach_inv [OF assms] by simp_all
  consider "IsDone ?c" | "map_phase fs ?c" | "reduce_phase ?c" "mapper_isDone (mapper ?c)"
    | "mapper_isDone (mapper ?c)" "reducer_isDone (reducer ?c)"
    using inv by (auto simp: map_phase_def reduce_phase_def)
  then show ?thesis
  proof cases
    case 1 then show ?thesis using done_ticks [OF inv(1)] unfolding Done_def by blast
  next
    case 2
    then show ?thesis
      using map_pool.served_after_timeout [OF 2, of ord w] by (auto simp: map_phase_def)
  next
    case 3
    then show ?thesis using reduce_pool.served_after_timeout [OF 3(1), of fs ord w] by auto
  next
    case 4 then show ?thesis using finished_tick [OF inv(1)] unfolding Done_def by blast
  qed
qed


section \<open>Concrete runs\<close>

definition demo_fs :: file_system where
  "demo_fs name = FileContent ''x''"

abbreviation demo_run :: "mr_event list \<Rightarrow> mr_sys option" where
  "demo_run \<equiv> mr_run demo_fs (\<lambda>xs. xs) (\<lambda>f. True) (mr_start [''f''] 1)"

definition report :: "Method \<Rightarrow> int \<Rightarrow> int \<Rightarrow> mr_event" where
  "report m j w = Report \<lparr>wc_WorkType = m, wc_JobId = j, wc_OutputFile = '''', wc_WorkerId = w\<rparr>"

definition report_dead :: "int \<Rightarrow> int \<Rightarrow> mr_event" where
  "report_dead j d = ReportDead \<lparr>jf_UnreachableWorker = \<lparr>loc_WorkerId = d, loc_Address = ''''\<rparr>,
     jf_WorkType = REDUCE, jf_JobId = j\<rparr>"

text \<open>A run that finishes: one map job, one reduce job, one worker.\<close>

definition demo_map :: "mr_event list" where
  "demo_map = [Setup ''h1'', Setup ''h2'', Request 1]"

definition demo_reduce :: "mr_event list" where
  "demo_reduce = demo_map @ [report MAP 0 1, Request 1]"

definition demo_end :: "mr_event list" where
  "demo_end = demo_reduce @ [report REDUCE 0 1, Tick]"

definition demo_sys :: "mr_event list \<Rightarrow> mr_sys" where
  "demo_sys es = the (demo_run es)"

lemma demo_reach:
  assumes "demo_run es \<noteq> None"
  shows "mr_reach demo_fs (\<lambda>xs. xs) (\<lambda>f. True) (demo_sys es)"
proof -
  obtain t where t: "demo_run es = Some t" using assms by blast
  have "mr_reach demo_fs (\<lambda>xs. xs) (\<lambda>f. True) t"
    by (rule mr_run_reach [OF t]) (simp_all add: demo_fs_def)
  with t show ?thesis by (simp add: demo_sys_def)
qed

lemma demo_runs:
  "\<not> Option.is_none (demo_run demo_map)" "\<not> Option.is_none (demo_run demo_reduce)"
  "\<not> Option.is_none (demo_run demo_end)"
  by code_simp+

lemma mr_run_append:
  "mr_run fs ord createOk s (es @ es') =
     (case mr_run fs ord createOk s es of None \<Rightarrow> None | Some t \<Rightarrow> mr_run fs ord createOk t es')"
  by (induction es arbitrary: s) (auto split: option.splits)

lemma demo_run_of:
  assumes "\<not> Option.is_none (demo_run (es @ es'))"
  shows "run_of (mr_step demo_fs (\<lambda>xs. xs) (\<lambda>f. True)) (demo_sys es) es' (demo_sys (es @ es'))"
proof -
  obtain t u where "demo_run es = Some t" "mr_run demo_fs (\<lambda>xs. xs) (\<lambda>f. True) t es' = Some u"
    using assms by (auto simp: mr_run_append Option.is_none_def split: option.splits)
  then show ?thesis by (simp add: demo_sys_def mr_run_append mr_run_of)
qed

lemma demo_step:
  "\<not> Option.is_none (demo_run (es @ [e])) \<Longrightarrow>
   mr_step demo_fs (\<lambda>xs. xs) (\<lambda>f. True) (demo_sys es) e (demo_sys (es @ [e]))"
  using demo_run_of [of es "[e]"] by (simp add: run_of_Cons)

theorem handlers_never_panic_witness:
  "\<exists>c'. WorkDone (\<lambda>f. True) (coord (demo_sys demo_reduce))
     \<lparr>wc_WorkType = REDUCE, wc_JobId = 0, wc_OutputFile = '''', wc_WorkerId = 1\<rparr> = Inr c'"
proof -
  have "(REDUCE, 0, 1) \<in> set (given (demo_sys demo_reduce))" by code_simp
  then show ?thesis
    using handlers_never_panic [OF demo_reach [of demo_reduce], of _
        "\<lparr>wc_WorkType = REDUCE, wc_JobId = 0, wc_OutputFile = '''', wc_WorkerId = 1\<rparr>" 1]
      demo_runs(2) by (auto simp: Option.is_none_def)
qed

theorem reduce_after_all_maps_witness:
  "\<exists>c' r. GetWork demo_fs (\<lambda>xs. xs) (coord (demo_sys (demo_map @ [report MAP 0 1])))
       \<lparr>req_WorkerId = 2\<rparr> zero_WorkReply = Inr (c', r) \<and>
     WorkType r = REDUCE \<and> 1 \<in> loc_WorkerId ` set (ReduceFileLocations r)"
proof -
  let ?s = "demo_sys (demo_map @ [report MAP 0 1])"
  let ?g = "GetWork demo_fs (\<lambda>xs. xs) (coord ?s) \<lparr>req_WorkerId = 2\<rparr> zero_WorkReply"
  have g: "case ?g of Inl _ \<Rightarrow> False | Inr (c', r) \<Rightarrow> WorkType r = REDUCE" by code_simp
  then obtain c' r where e: "?g = Inr (c', r)" and r: "WorkType r = REDUCE" by (auto split: sum.splits)
  have "\<not> Option.is_none (demo_run (demo_map @ [report MAP 0 1]))" by code_simp
  then have "mr_reach demo_fs (\<lambda>xs. xs) (\<lambda>f. True) ?s" by (intro demo_reach) (auto simp: Option.is_none_def)
  note all = reduce_after_all_maps [OF this _ e r, rule_format, of 0]
  have "0 < length (files (mapper (coord ?s)))" "WorkerId (completedMappers (mapper (coord ?s)) ! 0) = 1"
    by code_simp+
  with all e r show ?thesis by auto
qed

theorem map_job_exclusive_witness:
  "\<exists>new. given (demo_sys (demo_map @ [Tick, Request 2])) = new @ given (demo_sys demo_map) \<and>
     (\<forall>v. (MAP, 0, v) \<notin> set new)"
proof -
  have m: "demo_map = [Setup ''h1'', Setup ''h2''] @ [Request 1]" by (simp add: demo_map_def)
  have ex: "\<not> Option.is_none (demo_run (demo_map @ [Tick, Request 2]))"
    "\<not> Option.is_none (demo_run [Setup ''h1'', Setup ''h2''])"
    by code_simp+
  have g: "given (demo_sys demo_map) = (MAP, int 0, 1) # given (demo_sys [Setup ''h1'', Setup ''h2''])"
    by code_simp
  have r: "mr_reach demo_fs (\<lambda>xs. xs) (\<lambda>f. True) (demo_sys [Setup ''h1'', Setup ''h2''])"
    using ex(2) by (intro demo_reach) (auto simp: Option.is_none_def)
  have st: "mr_step demo_fs (\<lambda>xs. xs) (\<lambda>f. True) (demo_sys [Setup ''h1'', Setup ''h2'']) (Request 1) (demo_sys demo_map)"
    unfolding m by (rule demo_step) (use demo_runs(1) in \<open>simp add: m\<close>)
  show ?thesis
    using map_job_exclusive [OF r st g demo_run_of [OF ex(1)]]
    by (simp add: is_tick_def TIMEOUT_def)
qed

theorem reduce_job_exclusive_witness:
  "\<exists>new. given (demo_sys (demo_reduce @ [Tick, Request 2])) = new @ given (demo_sys demo_reduce) \<and>
     (\<forall>v. (REDUCE, 0, v) \<notin> set new)"
proof -
  let ?pre = "demo_map @ [report MAP 0 1]"
  have m: "demo_reduce = ?pre @ [Request 1]" by (simp add: demo_reduce_def)
  have ex: "\<not> Option.is_none (demo_run (demo_reduce @ [Tick, Request 2]))"
    "\<not> Option.is_none (demo_run ?pre)"
    by code_simp+
  have g: "given (demo_sys demo_reduce) = (REDUCE, int 0, 1) # given (demo_sys ?pre)" by code_simp
  have r: "mr_reach demo_fs (\<lambda>xs. xs) (\<lambda>f. True) (demo_sys ?pre)"
    using ex(2) by (intro demo_reach) (auto simp: Option.is_none_def)
  have st: "mr_step demo_fs (\<lambda>xs. xs) (\<lambda>f. True) (demo_sys ?pre) (Request 1) (demo_sys demo_reduce)"
    unfolding m by (rule demo_step) (use demo_runs(2) in \<open>simp add: m\<close>)
  show ?thesis
    using reduce_job_exclusive [OF r st g demo_run_of [OF ex(1)]]
    by (simp add: is_tick_def TIMEOUT_def)
qed

theorem work_is_reassigned_witness:
  "\<exists>c. iter_go (nat TIMEOUT) serverHandler (coord (demo_sys demo_map)) = Inr c \<and>
    (\<exists>c' r. GetWork demo_fs (\<lambda>xs. xs) c \<lparr>req_WorkerId = 2\<rparr> zero_WorkReply = Inr (c', r) \<and> WorkType r = MAP)"
proof -
  have "\<not> mapper_isDone (mapper (coord (demo_sys demo_map)))"
    "case iter_go (nat TIMEOUT) serverHandler (coord (demo_sys demo_map)) of Inl _ \<Rightarrow> False | Inr c \<Rightarrow> \<not> Done c"
    by code_simp+
  moreover have "mr_reach demo_fs (\<lambda>xs. xs) (\<lambda>f. True) (demo_sys demo_map)"
    using demo_runs(1) by (intro demo_reach) (auto simp: Option.is_none_def)
  ultimately show ?thesis using work_is_reassigned [of demo_fs "\<lambda>xs. xs" "\<lambda>f. True" "demo_sys demo_map" 2] by auto
qed


section \<open>Late reports\<close>

text \<open>
  The two ways in which the bookkeeping loses track of a job.  A job that was given to two
  workers because the first one was slow can be reported by either of them; when both are
  found dead the job is cleared, and the report of the first one, arriving afterwards, marks
  the cleared job as completed although nobody holds its output.
\<close>

definition late_report_run :: "mr_event list" where
  "late_report_run =
     [Setup ''h1'', Setup ''h2'', Setup ''h3'', Request 1] @ replicate 11 Tick @
     [Request 2, report MAP 0 2, Request 3, report_dead 0 1, report_dead 0 2, report MAP 0 1]"

text \<open>C38: a reachable state in which a reduce job is handed out with no location to fetch the
  map output from.\<close>

theorem late_report_loses_map_output:
  "mr_reach demo_fs (\<lambda>xs. xs) (\<lambda>f. True) (demo_sys late_report_run) \<and>
   (case GetWork demo_fs (\<lambda>xs. xs) (coord (demo_sys late_report_run)) \<lparr>req_WorkerId = 3\<rparr> zero_WorkReply of
      Inl _ \<Rightarrow> False
    | Inr (c', r) \<Rightarrow> WorkType r = REDUCE \<and> NumFiles r = 1 \<and> ReduceFileLocations r = [])"
proof (rule conjI)
  have "\<not> Option.is_none (demo_run late_report_run)" by code_simp
  then show "mr_reach demo_fs (\<lambda>xs. xs) (\<lambda>f. True) (demo_sys late_report_run)"
    by (intro demo_reach) (auto simp: Option.is_none_def)
qed code_simp

text \<open>Two reduce jobs, the first of which is reported after its timer ran out.\<close>

definition late_reduce_run :: "mr_event list" where
  "late_reduce_run =
     [Setup ''h1'', Setup ''h2'', Request 1, report MAP 0 1, Request 1, Request 2] @
     replicate 10 Tick @ [report REDUCE 0 1, Request 1]"

text \<open>a reduce job that has been completed is handed out a second time.\<close>

theorem completed_job_handed_out_again:
  "case mr_run demo_fs (\<lambda>xs. xs) (\<lambda>f. True) (mr_start [''f''] 2) late_reduce_run of
     None \<Rightarrow> False
   | Some s \<Rightarrow> hd (given s) = (REDUCE, 0, 1) \<and> Completed (completedReducers (reducer (coord s)) ! 0)"
  by code_simp

end
