(* ===== verification/Json.thy ===== *)
theory Json
  imports MR_Rpc "HOL-Library.Monad_Syntax"
begin

text \<open>
  The key/value pairs of the MapReduce applications and the part of \<^verbatim>\<open>encoding/json\<close> that
  \<^verbatim>\<open>mr/worker.go\<close> uses: an encoder that appends one object per line, and a decoder
  that reads objects from a stream until the first error.  Strings are lists of bytes; the
  escapes are those of the encoder for bytes below 128, and the decoder accepts objects in the
  form the encoder writes them and reports an error for anything else.
\<close>

record KeyValue =
  Key :: string
  Value :: string

section \<open>Encoder\<close>

definition dquote :: char where "dquote = CHR 0x22"
definition backslash :: char where "backslash = CHR 0x5C"
definition newline :: char where "newline = CHR 0x0A"

definition hex_char :: "nat \<Rightarrow> char" where
  "hex_char d = ''0123456789abcdef'' ! d"

definition json_escape :: "char \<Rightarrow> string" where
  "json_escape c =
     (if c = dquote \<or> c = backslash then [backslash, c]
      else if c = CHR 0x08 then backslash # ''b''
      else if c = CHR 0x0C then backslash # ''f''
      else if c = CHR 0x0A then backslash # ''n''
      else if c = CHR 0x0D then backslash # ''r''
      else if c = CHR 0x09 then backslash # ''t''
      else if of_char c < (32 :: nat) \<or> c = CHR ''<'' \<or> c = CHR ''>'' \<or> c = CHR ''&''
        then backslash # ''u00'' @ [hex_char (of_char c div 16), hex_char (of_char c mod 16)]
      else [c])"

definition json_string :: "string \<Rightarrow> string" where
  "json_string s = dquote # concat (map json_escape s) @ [dquote]"

definition key_prefix :: string where
  "key_prefix = ''{'' @ dquote # ''Key'' @ dquote # '':''"

definition value_prefix :: string where
  "value_prefix = '','' @ dquote # ''Value'' @ dquote # '':''"

definition json_Encode :: "KeyValue \<Rightarrow> string" where
  "json_Encode kv =
     key_prefix @ json_string (Key kv) @ value_prefix @ json_string (Value kv) @ ''}'' @ [newline]"

section \<open>Decoder\<close>

definition hex_val :: "char \<Rightarrow> nat option" where
  "hex_val c =
     (let n = of_char c :: nat in
      if 48 \<le> n \<and> n \<le> 57 then Some (n - 48)
      else if 97 \<le> n \<and> n \<le> 102 then Some (n - 87)
      else if 65 \<le> n \<and> n \<le> 70 then Some (n - 55)
      else None)"

definition hex4 :: "char \<Rightarrow> char \<Rightarrow> char \<Rightarrow> char \<Rightarrow> nat option" where
  "hex4 a b c d = do {
     va \<leftarrow> hex_val a; vb \<leftarrow> hex_val b; vc \<leftarrow> hex_val c; vd \<leftarrow> hex_val d;
     Some (((va * 16 + vb) * 16 + vc) * 16 + vd) }"

definition unescape :: "char \<Rightarrow> char option" where
  "unescape e =
     map_of [(dquote, dquote), (backslash, backslash), (CHR ''/'', CHR ''/''),
       (CHR ''b'', CHR 0x08), (CHR ''f'', CHR 0x0C), (CHR ''n'', CHR 0x0A),
       (CHR ''r'', CHR 0x0D), (CHR ''t'', CHR 0x09)] e"

definition cons_fst :: "'a \<Rightarrow> ('a list \<times> 'b) option \<Rightarrow> ('a list \<times> 'b) option" where
  "cons_fst x r = map_option (\<lambda>(xs, y). (x # xs, y)) r"

text \<open>The rest of a string literal, after its opening quote.\<close>

fun read_string :: "string \<Rightarrow> (string \<times> string) option" where
  "read_string [] = None"
| "read_string (c # s) =
     (if c = dquote then Some ([], s)
      else if c = backslash then
        (case s of
           [] \<Rightarrow> None
         | e # s' \<Rightarrow>
             if e = CHR ''u'' then
               (case s' of
                  h1 # h2 # h3 # h4 # s'' \<Rightarrow>
                    (case hex4 h1 h2 h3 h4 of
                       Some n \<Rightarrow> if n < 128 then cons_fst (char_of n) (read_string s'') else None
                     | None \<Rightarrow> None)
                | _ \<Rightarrow> None)
             else
               (case unescape e of
                  Some ch \<Rightarrow> cons_fst ch (read_string s')
                | None \<Rightarrow> None))
      else if of_char c < (32 :: nat) then None
      else cons_fst c (read_string s))"

declare read_string.simps(2) [simp del]

definition strip_prefix :: "string \<Rightarrow> string \<Rightarrow> string option" where
  "strip_prefix p s = (if take (length p) s = p then Some (drop (length p) s) else None)"

definition json_space :: "char \<Rightarrow> bool" where
  "json_space c \<longleftrightarrow> c = CHR '' '' \<or> c = CHR 0x09 \<or> c = CHR 0x0A \<or> c = CHR 0x0D"

definition json_Decode :: "string \<Rightarrow> (KeyValue \<times> string) option" where
  "json_Decode s = do {
     s1 \<leftarrow> strip_prefix (key_prefix @ [dquote]) (dropWhile json_space s);
     (k, s2) \<leftarrow> read_string s1;
     s3 \<leftarrow> strip_prefix (value_prefix @ [dquote]) s2;
     (v, s4) \<leftarrow> read_string s3;
     s5 \<leftarrow> strip_prefix ''}'' s4;
     Some (\<lparr>Key = k, Value = v\<rparr>, s5) }"

lemma cons_fst_Some: "cons_fst x r = Some (ys, b) \<longleftrightarrow> (\<exists>xs. ys = x # xs \<and> r = Some (xs, b))"
  by (auto simp: cons_fst_def)

lemma cons_fst_simp [simp]: "cons_fst x (Some (xs, b)) = Some (x # xs, b)"
  by (simp add: cons_fst_def)

lemma read_string_shorter: "read_string s = Some (x, r) \<Longrightarrow> length r < length s"
proof (induction s arbitrary: x r rule: measure_induct_rule [of length])
  case (less s)
  have IH: "read_string s' = Some (x', r) \<Longrightarrow> length s' < length s \<Longrightarrow> length r < length s'" for s' x'
    using less.IH .
  from less.prems show ?case
    by (cases s) (auto simp: read_string.simps(2) cons_fst_Some split: if_splits list.splits option.splits
        dest!: IH)
qed

lemma strip_prefix_Some: "strip_prefix p s = Some r \<longleftrightarrow> s = p @ r"
  by (auto simp: strip_prefix_def) (metis append_take_drop_id)

lemma strip_prefix_append [simp]: "strip_prefix p (p @ r) = Some r"
  by (simp add: strip_prefix_Some)

lemma json_Decode_shorter: "json_Decode s = Some (kv, r) \<Longrightarrow> length r < length s"
  using length_dropWhile_le [of json_space s]
  by (auto simp: json_Decode_def strip_prefix_Some bind_eq_Some_conv dest!: read_string_shorter)

text \<open>The decoding loop of \<^verbatim>\<open>DoReduce\<close>: it stops at the first error, in particular at the end.\<close>

function decode_loop :: "string \<Rightarrow> KeyValue list" where
  "decode_loop s =
     (case json_Decode s of None \<Rightarrow> [] | Some (kv, r) \<Rightarrow> kv # decode_loop r)"
  by pat_completeness auto
termination
  by (relation "measure length") (auto dest: json_Decode_shorter)

declare decode_loop.simps [simp del]

section \<open>Round trip\<close>

lemma hex_val_hex_char: "d < 16 \<Longrightarrow> hex_val (hex_char d) = Some d"
  by (simp add: eval_nat_numeral less_Suc_eq) (auto simp: hex_char_def hex_val_def)

lemma hex4_byte: "n < 256 \<Longrightarrow> hex4 (CHR ''0'') (CHR ''0'') (hex_char (n div 16)) (hex_char (n mod 16)) = Some n"
  by (simp add: hex4_def hex_val_hex_char) (simp add: hex_val_def)

lemma escape_code_less: "of_char c < (32 :: nat) \<or> c = CHR ''<'' \<or> c = CHR ''>'' \<or> c = CHR ''&'' \<Longrightarrow>
  of_char c < (128 :: nat)"
  by auto

lemma read_string_escape: "read_string (json_escape c @ t) = cons_fst c (read_string t)"
proof (cases "of_char c < (32 :: nat) \<or> c = CHR ''<'' \<or> c = CHR ''>'' \<or> c = CHR ''&''")
  case True
  note lt = escape_code_less [OF True]
  then have "hex4 (CHR ''0'') (CHR ''0'') (hex_char (of_char c div 16)) (hex_char (of_char c mod 16)) = Some (of_char c)"
    by (intro hex4_byte) simp
  with True lt show ?thesis
    by (simp add: json_escape_def read_string.simps(2) backslash_def dquote_def unescape_def)
next
  case False
  then show ?thesis
    by (auto simp: json_escape_def read_string.simps(2) backslash_def dquote_def unescape_def)
qed

lemma read_string_literal: "read_string (concat (map json_escape s) @ dquote # t) = Some (s, t)"
  by (induction s) (simp_all add: read_string_escape read_string.simps(2))

lemma json_Decode_Encode: "json_Decode (json_Encode kv @ t) = Some (kv, newline # t)"
proof -
  have "dropWhile json_space (json_Encode kv @ t) =
    (key_prefix @ [dquote]) @ concat (map json_escape (Key kv)) @ dquote #
    (value_prefix @ [dquote]) @ concat (map json_escape (Value kv)) @ dquote # ''}'' @ newline # t"
    by (simp add: json_Encode_def json_string_def key_prefix_def json_space_def)
  then show ?thesis by (simp add: json_Decode_def read_string_literal strip_prefix_def)
qed

lemma json_Decode_newline: "json_Decode (newline # t) = json_Decode t"
  by (simp add: json_Decode_def json_space_def newline_def)

lemma decode_loop_newline: "decode_loop (newline # t) = decode_loop t"
  by (simp add: decode_loop.simps [of t] decode_loop.simps [of "newline # t"] json_Decode_newline)

lemma decode_loop_stop: "json_Decode t = None \<Longrightarrow> decode_loop t = []"
  by (simp add: decode_loop.simps [of t])

lemma decode_loop_Encode [simp]: "decode_loop (json_Encode kv @ t) = kv # decode_loop t"
  by (simp add: decode_loop.simps [of "json_Encode kv @ t"] json_Decode_Encode decode_loop_newline)

lemma decode_loop_Nil [simp]: "decode_loop [] = []"
  by (simp add: decode_loop_stop json_Decode_def strip_prefix_def key_prefix_def)

lemma decode_loop_append: "decode_loop (concat (map json_Encode kvs) @ t) = kvs @ decode_loop t"
  by (induction kvs) simp_all

definition ascii :: "string \<Rightarrow> bool" where
  "ascii s \<longleftrightarrow> (\<forall>c\<in>set s. of_char c < (128 :: nat))"



end
