(* ===== verification/Worker.thy ===== *)
theory Worker
  imports Json Coordinator_Inv "HOL-Library.List_Lexorder" "HOL-Library.Char_ord"
begin

unbundle bit_operations_syntax

text \<open>
  The MapReduce worker (\<^verbatim>\<open>mr/worker.go\<close>) and the sequential reference program
  (\<^verbatim>\<open>main/mrsequential.go\<close>).  A worker's state includes the files of its working
  directory.  Remote calls are parameters: \<open>peer\<close> answers for the other workers and
  \<open>coordUp\<close> says whether the coordinator can be reached; the message sent to the
  coordinator is part of the result.  Creation of files may fail (\<open>createOk\<close>); writes to a
  file that was created succeed.  \<open>srt\<close> stands for \<^verbatim>\<open>sort.Sort\<close> with the order
  \<^verbatim>\<open>ByKey\<close>, which is not stable.
\<close>

section \<open>Hashing\<close>

text \<open>\<^verbatim>\<open>fnv.New32a\<close>: FNV-1a with 32 bits.\<close>

definition fnv32a :: "string \<Rightarrow> 32 word" where
  "fnv32a key = foldl (\<lambda>h c. (h XOR of_nat (of_char c)) * 16777619) 2166136261 key"

definition ihash :: "string \<Rightarrow> int" where
  "ihash key = uint (fnv32a key AND 0x7fffffff)"

section \<open>State and files\<close>

record WorkerProcess =
  IsSetup :: bool
  w_IpAddress :: string
  w_WorkerId :: int
  CompletedMapTasks :: "bool list"
  CompletedReduceTasks :: "bool list"
  CoordAddress :: string
  w_port :: string
  disk :: "(string \<times> string) list"

definition mr_file :: "int \<Rightarrow> int \<Rightarrow> string" where
  "mr_file j n = ''mr-'' @ Itoa j @ ''-'' @ Itoa n"

definition mr_pattern :: "int \<Rightarrow> string" where
  "mr_pattern n = ''mr-*-'' @ Itoa n"

text \<open>
  \<^verbatim>\<open>filepath.Match\<close> for patterns whose only special character is the asterisk, and
  \<^verbatim>\<open>filepath.Glob\<close>, which lists the matching names in lexical order.
\<close>

fun glob_match :: "string \<Rightarrow> string \<Rightarrow> bool" where
  "glob_match [] s \<longleftrightarrow> s = []"
| "glob_match (p # ps) [] \<longleftrightarrow> p = CHR ''*'' \<and> glob_match ps []"
| "glob_match (p # ps) (c # s) \<longleftrightarrow>
     (if p = CHR ''*'' then glob_match ps (c # s) \<or> c \<noteq> CHR ''/'' \<and> glob_match (p # ps) s
      else c = p \<and> glob_match ps s)"

definition Glob :: "(string \<times> string) list \<Rightarrow> string \<Rightarrow> string list" where
  "Glob d pat = sort (filter (glob_match pat) (map fst d))"

fun read_files :: "(string \<times> string) list \<Rightarrow> string list \<Rightarrow> string \<Rightarrow> string go" where
  "read_files d [] acc = Inr acc"
| "read_files d (fileName # fs) acc =
     (case map_of d fileName of
        None \<Rightarrow> Inl (Fatal ''File couldn't be opened'')
      | Some content \<Rightarrow> read_files d fs (acc @ content))"

definition retreiveFiles :: "WorkerProcess \<Rightarrow> string \<Rightarrow> string go" where
  "retreiveFiles worker fileNamePattern = read_files (disk worker) (Glob (disk worker) fileNamePattern) ''''"

definition getFiles :: "WorkerProcess \<Rightarrow> FileRequest \<Rightarrow> Files go" where
  "getFiles worker request =
     (if fr_FileType request = MAPFILES then
        go_bind (retreiveFiles worker (mr_pattern (fr_FileID request))) (\<lambda>d.
          Inr \<lparr>WorkerStat = WORKERALIVE, FileData = d\<rparr>)
      else
        go_bind (retreiveFiles worker ''mr-out-*'') (\<lambda>d.
          Inr \<lparr>WorkerStat = WORKERALIVE, FileData = d\<rparr>))"

definition GetMappedBuckets :: "WorkerProcess \<Rightarrow> FileRequest \<Rightarrow> Files go" where
  "GetMappedBuckets worker request = getFiles worker request"

definition updateWorkingCompletedFiles :: "WorkerProcess \<Rightarrow> Method \<Rightarrow> int \<Rightarrow> WorkerProcess go" where
  "updateWorkingCompletedFiles worker workType j =
     (if workType = MAP then
        go_bind (slice_set (CompletedMapTasks worker) j True) (\<lambda>ts. Inr (worker\<lparr>CompletedMapTasks := ts\<rparr>))
      else
        go_bind (slice_set (CompletedReduceTasks worker) j True) (\<lambda>ts. Inr (worker\<lparr>CompletedReduceTasks := ts\<rparr>)))"

definition read_or_empty :: "(string \<times> string) list \<Rightarrow> string \<Rightarrow> string" where
  "read_or_empty d f = (case map_of d f of None \<Rightarrow> '''' | Some content \<Rightarrow> content)"

text \<open>\<^verbatim>\<open>CallDone\<close>: the message that is sent to \<^verbatim>\<open>Coordinator.WorkDone\<close>.\<close>

definition CallDone :: "WorkerProcess \<Rightarrow> Method \<Rightarrow> string \<Rightarrow> int \<Rightarrow> (WorkerProcess \<times> WorkComplete) go" where
  "CallDone worker workType outFile j =
     (let outContent = (if workType = REDUCE then read_or_empty (disk worker) outFile else '''') in
      go_bind (updateWorkingCompletedFiles worker workType j) (\<lambda>worker'.
        Inr (worker', \<lparr>wc_WorkType = workType, wc_JobId = j, wc_OutputFile = outContent,
                       wc_WorkerId = w_WorkerId worker\<rparr>)))"

section \<open>Map jobs\<close>

fun bucket_loop :: "int \<Rightarrow> KeyValue list \<Rightarrow> KeyValue list list \<Rightarrow> KeyValue list list go" where
  "bucket_loop nReduce [] intermediate = Inr intermediate"
| "bucket_loop nReduce (kv # kvs) intermediate =
     (if nReduce = 0 then Inl DivideByZero
      else
        let bucketId = ihash (Key kv) mod nReduce in
        go_bind (slice_get intermediate bucketId) (\<lambda>b.
        go_bind (slice_set intermediate bucketId (b @ [kv])) (bucket_loop nReduce kvs)))"

fun write_loop ::
  "(string \<Rightarrow> bool) \<Rightarrow> int \<Rightarrow> nat \<Rightarrow> KeyValue list list \<Rightarrow> (string \<times> string) list \<Rightarrow> (string \<times> string) list go" where
  "write_loop createOk j n [] d = Inr d"
| "write_loop createOk j n (b # bs) d =
     (if createOk (mr_file j (int n))
      then write_loop createOk j (Suc n) bs (al_put (mr_file j (int n)) (concat (map json_Encode b)) d)
      else Inl (Fatal ''cannot open''))"

definition DoMap ::
  "(string \<Rightarrow> bool) \<Rightarrow> (string \<Rightarrow> string \<Rightarrow> KeyValue list) \<Rightarrow> WorkerProcess \<Rightarrow> WorkReply \<Rightarrow>
   (WorkerProcess \<times> WorkComplete) go" where
  "DoMap createOk mapf worker reply =
     (if NReduce reply < 0 then Inl MakeSliceLen
      else
        go_bind (bucket_loop (NReduce reply) (mapf (MapFileName reply) (MapFileContent reply))
                   (replicate (nat (NReduce reply)) [])) (\<lambda>intermediate.
        go_bind (write_loop createOk (JobId reply) 0 intermediate (disk worker)) (\<lambda>d.
          CallDone (worker\<lparr>disk := d\<rparr>) (WorkType reply) '''' (JobId reply))))"

section \<open>Reduce jobs\<close>

datatype reduce_outcome = Reported WorkComplete | Aborted JobFailed

text \<open>\<^verbatim>\<open>CallGetFiles\<close>; the second component is the report of a dead worker.\<close>

definition CallGetFiles ::
  "(string \<Rightarrow> FileRequest \<Rightarrow> Files option) \<Rightarrow> bool \<Rightarrow> FileRequest \<Rightarrow> WorkerLocation \<Rightarrow> int \<Rightarrow>
   (JobFailed + Files) go" where
  "CallGetFiles peer coordUp request workerLocation j =
     (case peer (loc_Address workerLocation) request of
        Some fd \<Rightarrow> Inr (Inr fd)
      | None \<Rightarrow>
          if coordUp
          then Inr (Inl \<lparr>jf_UnreachableWorker = workerLocation, jf_WorkType = REDUCE, jf_JobId = j\<rparr>)
          else Inl (Exit 0))"

fun collect_loop ::
  "(string \<Rightarrow> FileRequest \<Rightarrow> Files option) \<Rightarrow> bool \<Rightarrow> WorkerProcess \<Rightarrow> int \<Rightarrow> WorkerLocation list \<Rightarrow>
   KeyValue list \<Rightarrow> (JobFailed + KeyValue list) go" where
  "collect_loop peer coordUp worker j [] bufferedFile = Inr (Inr bufferedFile)"
| "collect_loop peer coordUp worker j (l # ls) bufferedFile =
     (if loc_WorkerId l = w_WorkerId worker then
        go_bind (retreiveFiles worker (mr_pattern j)) (\<lambda>d.
          collect_loop peer coordUp worker j ls (bufferedFile @ decode_loop d))
      else if loc_Address l \<noteq> w_IpAddress worker then
        go_bind (CallGetFiles peer coordUp \<lparr>fr_FileType = MAPFILES, fr_FileID = j\<rparr> l j) (\<lambda>r.
          case r of
            Inl jf \<Rightarrow> Inr (Inl jf)
          | Inr fd \<Rightarrow> collect_loop peer coordUp worker j ls (bufferedFile @ decode_loop (FileData fd)))
      else if coordUp
        then Inr (Inl \<lparr>jf_UnreachableWorker = l, jf_WorkType = REDUCE, jf_JobId = j\<rparr>)
        else Inl (Exit 0))"

function values_loop :: "KeyValue list \<Rightarrow> nat \<Rightarrow> nat \<Rightarrow> string list \<Rightarrow> nat \<times> string list" where
  "values_loop buf i j vals =
     (if j < length buf \<and> Key (buf ! j) = Key (buf ! i)
      then values_loop buf i (Suc j) (vals @ [Value (buf ! j)])
      else (j, vals))"
  by pat_completeness auto
termination
  by (relation "measure (\<lambda>(buf, i, j, vals). length buf - j)") auto

declare values_loop.simps [simp del]

lemma values_loop_ge: "j \<le> fst (values_loop buf i j vals)"
proof (induction buf i j vals rule: values_loop.induct)
  case (1 buf i j vals)
  then show ?case by (subst values_loop.simps) auto
qed

lemma values_loop_gt:
  assumes "i < length buf" "values_loop buf i i [] = (j, vals)"
  shows "i < j"
  using assms values_loop_ge [of "Suc i" buf i "[] @ [Value (buf ! i)]"]
  by (subst (asm) values_loop.simps) (simp add: Suc_le_eq)

definition out_line :: "string \<Rightarrow> string \<Rightarrow> string" where
  "out_line k v = k @ '' '' @ v @ [newline]"

function reduce_loop ::
  "(string \<Rightarrow> string list \<Rightarrow> string) \<Rightarrow> KeyValue list \<Rightarrow> nat \<Rightarrow> string \<Rightarrow> string" where
  "reduce_loop reducef buf i ofile =
     (if i < length buf then
        case values_loop buf i i [] of
          (j, vals) \<Rightarrow>
            reduce_loop reducef buf j
              (ofile @ out_line (Key (buf ! i)) (reducef (Key (buf ! i)) vals))
      else ofile)"
  by pat_completeness auto
termination
  by (relation "measure (\<lambda>(reducef, buf, i, ofile). length buf - i)")
    (auto intro: diff_less_mono2 values_loop_gt [OF _ sym])

declare reduce_loop.simps [simp del]

definition DoReduce ::
  "(KeyValue list \<Rightarrow> KeyValue list) \<Rightarrow> (string \<Rightarrow> bool) \<Rightarrow> (string \<Rightarrow> FileRequest \<Rightarrow> Files option) \<Rightarrow> bool \<Rightarrow>
   (string \<Rightarrow> string list \<Rightarrow> string) \<Rightarrow> WorkerProcess \<Rightarrow> WorkReply \<Rightarrow> (WorkerProcess \<times> reduce_outcome) go" where
  "DoReduce srt createOk peer coordUp reducef worker reply =
     go_bind (collect_loop peer coordUp worker (JobId reply) (ReduceFileLocations reply) []) (\<lambda>r.
     case r of
       Inl jf \<Rightarrow> Inr (worker, Aborted jf)
     | Inr collected \<Rightarrow>
         let bufferedFile = srt collected;
             ofileName = out_file (JobId reply);
             output = reduce_loop reducef bufferedFile 0 '''';
             worker' = (if createOk ofileName
                        then worker\<lparr>disk := al_put ofileName output (disk worker)\<rparr>
                        else worker)
         in go_bind (CallDone worker' (WorkType reply) ofileName (JobId reply)) (\<lambda>(worker'', wc).
              Inr (worker'', Reported wc)))"

section \<open>The worker process\<close>

definition CallSetup :: "(SetupRequest \<Rightarrow> WorkSetup option) \<Rightarrow> WorkerProcess \<Rightarrow> WorkSetup" where
  "CallSetup coordSetup worker =
     (case coordSetup \<lparr>req_IPAddress = w_IpAddress worker\<rparr> of
        Some workReply \<Rightarrow> workReply
      | None \<Rightarrow> \<lparr>ws_WorkerId = - 1, ws_NumFiles = 0, ws_NReduce = 0\<rparr>)"

definition CallGetWork :: "(WorkRequest \<Rightarrow> WorkReply option) \<Rightarrow> WorkerProcess \<Rightarrow> WorkReply" where
  "CallGetWork coordWork worker =
     (case coordWork \<lparr>req_WorkerId = w_WorkerId worker\<rparr> of
        Some workReply \<Rightarrow> workReply
      | None \<Rightarrow> \<lparr>WorkType = NOWORK, JobId = - 1, NumFiles = - 1, NReduce = - 1, MapFileName = '''',
                 MapFileContent = '''', ReduceFileLocations = []\<rparr>)"

text \<open>\<^verbatim>\<open>Worker\<close> up to its loop.\<close>

definition Worker_start ::
  "(SetupRequest \<Rightarrow> WorkSetup option) \<Rightarrow> (string \<times> string) list \<Rightarrow> string \<Rightarrow> string \<Rightarrow> WorkerProcess go" where
  "Worker_start coordSetup d serverAddress workerAddress =
     go_bind (slice_get (Split workerAddress (CHR '':'')) 1) (\<lambda>port.
       let worker = \<lparr>IsSetup = False, w_IpAddress = workerAddress, w_WorkerId = - 1,
             CompletedMapTasks = [], CompletedReduceTasks = [], CoordAddress = serverAddress,
             w_port = port, disk = d\<rparr>;
           reply = CallSetup coordSetup worker
       in if ws_WorkerId reply < 0 then Inl (Fatal ''Coordinator not reachable :('')
          else if ws_NumFiles reply < 0 \<or> ws_NReduce reply < 0 then Inl MakeSliceLen
          else Inr (worker\<lparr>w_WorkerId := ws_WorkerId reply, IsSetup := True,
                 CompletedMapTasks := replicate (nat (ws_NumFiles reply)) False,
                 CompletedReduceTasks := replicate (nat (ws_NReduce reply)) False\<rparr>))"

datatype worker_action = Stopped | Waited | Mapped WorkComplete | Reduced reduce_outcome

text \<open>One iteration of the loop of \<^verbatim>\<open>Worker\<close>.\<close>

definition Worker_iteration ::
  "(KeyValue list \<Rightarrow> KeyValue list) \<Rightarrow> (string \<Rightarrow> bool) \<Rightarrow> (string \<Rightarrow> FileRequest \<Rightarrow> Files option) \<Rightarrow> bool \<Rightarrow>
   (WorkRequest \<Rightarrow> WorkReply option) \<Rightarrow>
   (string \<Rightarrow> string \<Rightarrow> KeyValue list) \<Rightarrow> (string \<Rightarrow> string list \<Rightarrow> string) \<Rightarrow> WorkerProcess \<Rightarrow>
   (WorkerProcess \<times> worker_action) go" where
  "Worker_iteration srt createOk peer coordUp coordWork mapf reducef worker =
     (let reply = CallGetWork coordWork worker in
      if WorkType reply = NOWORK then Inr (worker, Stopped)
      else if WorkType reply = WAIT then Inr (worker, Waited)
      else if WorkType reply = MAP then
        go_bind (DoMap createOk mapf worker reply) (\<lambda>(worker', wc). Inr (worker', Mapped wc))
      else
        go_bind (DoReduce srt createOk peer coordUp reducef worker reply) (\<lambda>(worker', r).
          Inr (worker', Reduced r)))"

section \<open>The sequential program\<close>

fun seq_read_loop ::
  "file_system \<Rightarrow> (string \<Rightarrow> string \<Rightarrow> KeyValue list) \<Rightarrow> string list \<Rightarrow> KeyValue list \<Rightarrow> KeyValue list go" where
  "seq_read_loop fs mapf [] intermediate = Inr intermediate"
| "seq_read_loop fs mapf (filename # fns) intermediate =
     (case fs filename of
        OpenError \<Rightarrow> Inl (Fatal ''cannot open'')
      | ReadError \<Rightarrow> Inl (Fatal ''cannot read'')
      | FileContent content \<Rightarrow> seq_read_loop fs mapf fns (intermediate @ mapf filename content))"

function seq_scan :: "KeyValue list \<Rightarrow> nat \<Rightarrow> nat \<Rightarrow> nat" where
  "seq_scan kvs i j =
     (if j < length kvs \<and> Key (kvs ! j) = Key (kvs ! i) then seq_scan kvs i (Suc j) else j)"
  by pat_completeness auto
termination
  by (relation "measure (\<lambda>(kvs, i, j). length kvs - j)") auto

declare seq_scan.simps [simp del]

lemma seq_scan_ge: "j \<le> seq_scan kvs i j"
proof (induction kvs i j rule: seq_scan.induct)
  case (1 kvs i j)
  then show ?case by (subst seq_scan.simps) auto
qed

function seq_reduce_loop ::
  "(string \<Rightarrow> string list \<Rightarrow> string) \<Rightarrow> KeyValue list \<Rightarrow> nat \<Rightarrow> string \<Rightarrow> string" where
  "seq_reduce_loop reducef kvs i ofile =
     (if i < length kvs then
        let j = seq_scan kvs i (i + 1);
            vals = map (\<lambda>k. Value (kvs ! k)) [i..<j]
        in seq_reduce_loop reducef kvs j
             (ofile @ out_line (Key (kvs ! i)) (reducef (Key (kvs ! i)) vals))
      else ofile)"
  by pat_completeness auto
termination
  by (relation "measure (\<lambda>(reducef, kvs, i, ofile). length kvs - i)")
    (use seq_scan_ge [of "Suc _"] in \<open>auto simp: Suc_le_eq intro!: diff_less_mono2\<close>)

declare seq_reduce_loop.simps [simp del]

text \<open>\<^verbatim>\<open>main\<close>: the arguments after the program name, and the content of \<^verbatim>\<open>mr-out-0\<close>.\<close>

definition mrsequential ::
  "(KeyValue list \<Rightarrow> KeyValue list) \<Rightarrow> file_system \<Rightarrow> (string \<Rightarrow> string \<Rightarrow> KeyValue list) \<Rightarrow>
   (string \<Rightarrow> string list \<Rightarrow> string) \<Rightarrow> string list \<Rightarrow> string go" where
  "mrsequential srt fs mapf reducef args =
     (if length args < 2 then Inl (Exit 1)
      else go_bind (seq_read_loop fs mapf (tl args) []) (\<lambda>intermediate.
             Inr (seq_reduce_loop reducef (srt intermediate) 0 '''')))"

end
