(* ===== verification/MapReduce.thy ===== *)
theory MapReduce
  imports Worker
begin

text \<open>
  What the workers compute.  The loops of the reducer and of the sequential program are both
  shown equal to a reference that groups a sorted list by key; map jobs leave one file per
  bucket; a reducer that fetches all buckets of its job produces the lines of its keys; and the
  output of all reducers together is the output of the sequential program.
\<close>

section \<open>Grouping by key\<close>

function group_lines :: "(string \<Rightarrow> string list \<Rightarrow> string) \<Rightarrow> KeyValue list \<Rightarrow> string list" where
  "group_lines reducef [] = []"
| "group_lines reducef (kv # kvs) =
     out_line (Key kv) (reducef (Key kv) (Value kv # map Value (takeWhile (\<lambda>x. Key x = Key kv) kvs))) #
     group_lines reducef (dropWhile (\<lambda>x. Key x = Key kv) kvs)"
  by pat_completeness auto
termination
  by (relation "measure (\<lambda>(reducef, kvs). length kvs)") (auto simp: le_imp_less_Suc length_dropWhile_le)

lemma values_loop_eq:
  "j \<le> length buf \<Longrightarrow>
   values_loop buf i j vals =
     (j + length (takeWhile (\<lambda>x. Key x = Key (buf ! i)) (drop j buf)),
      vals @ map Value (takeWhile (\<lambda>x. Key x = Key (buf ! i)) (drop j buf)))"
proof (induction buf i j vals rule: values_loop.induct)
  case (1 buf i j vals)
  show ?case
  proof (cases "j < length buf")
    case True
    with 1 show ?thesis
      by (subst values_loop.simps) (simp add: Cons_nth_drop_Suc [symmetric])
  qed (use 1 in \<open>subst values_loop.simps, simp\<close>)
qed

lemma seq_scan_eq:
  "j \<le> length buf \<Longrightarrow>
   seq_scan buf i j = j + length (takeWhile (\<lambda>x. Key x = Key (buf ! i)) (drop j buf))"
proof (induction buf i j rule: seq_scan.induct)
  case (1 buf i j)
  show ?case
  proof (cases "j < length buf")
    case True
    with 1 show ?thesis
      by (subst seq_scan.simps) (simp add: Cons_nth_drop_Suc [symmetric])
  qed (use 1 in \<open>subst seq_scan.simps, simp\<close>)
qed

lemma drop_takeWhile_length: "drop (i + length (takeWhile P (drop i xs))) xs = dropWhile P (drop i xs)"
  by (metis add.commute drop_drop dropWhile_eq_drop)

lemma reduce_loop_eq: "reduce_loop reducef buf i ofile = ofile @ concat (group_lines reducef (drop i buf))"
proof (induction reducef buf i ofile rule: reduce_loop.induct)
  case (1 reducef buf i ofile)
  show ?case
  proof (cases "i < length buf")
    case True
    let ?tw = "takeWhile (\<lambda>x. Key x = Key (buf ! i)) (drop (Suc i) buf)"
    have d: "drop i buf = buf ! i # drop (Suc i) buf" using True by (simp add: Cons_nth_drop_Suc)
    have v: "values_loop buf i i [] = (i + length (takeWhile (\<lambda>x. Key x = Key (buf ! i)) (drop i buf)),
        map Value (takeWhile (\<lambda>x. Key x = Key (buf ! i)) (drop i buf)))"
      using True by (simp add: values_loop_eq)
    show ?thesis
      using "1.IH" [OF True v [symmetric]] True
      by (subst reduce_loop.simps) (simp add: v drop_takeWhile_length, simp add: d)
  qed (subst reduce_loop.simps, simp)
qed

lemma map_nth_segment: "i + n \<le> length xs \<Longrightarrow> map (\<lambda>k. f (xs ! k)) [i..<i + n] = map f (take n (drop i xs))"
  by (rule nth_equalityI) auto

lemma seq_reduce_loop_eq:
  "seq_reduce_loop reducef buf i ofile = ofile @ concat (group_lines reducef (drop i buf))"
proof (induction reducef buf i ofile rule: seq_reduce_loop.induct)
  case (1 reducef buf i ofile)
  show ?case
  proof (cases "i < length buf")
    case True
    let ?P = "\<lambda>x. Key x = Key (buf ! i)"
    let ?tw = "takeWhile ?P (drop (Suc i) buf)"
    have d: "drop i buf = buf ! i # drop (Suc i) buf" using True by (simp add: Cons_nth_drop_Suc)
    have j: "seq_scan buf i (i + 1) = Suc i + length ?tw"
      using True seq_scan_eq [of "Suc i" buf i] by simp
    have len: "i + Suc (length ?tw) \<le> length buf"
      using length_takeWhile_le [of ?P "drop (Suc i) buf"] True by simp
    have "map (\<lambda>k. Value (buf ! k)) [i..<Suc i + length ?tw] = map Value (take (Suc (length ?tw)) (drop i buf))"
      using map_nth_segment [OF len, of Value] by simp
    also have "\<dots> = Value (buf ! i) # map Value ?tw"
      by (simp add: d takeWhile_eq_take [symmetric])
    finally have vals: "map (\<lambda>k. Value (buf ! k)) [i..<Suc i + length ?tw] = Value (buf ! i) # map Value ?tw" .
    have dr: "drop (Suc i + length ?tw) buf = dropWhile ?P (drop (Suc i) buf)"
      by (rule drop_takeWhile_length)
    show ?thesis
      using "1.IH" [OF True refl refl] True
      unfolding j vals dr
      by (subst seq_reduce_loop.simps) (simp only: j vals Let_def if_True d group_lines.simps concat.simps append_assoc)
  qed (subst seq_reduce_loop.simps, simp)
qed

definition values_of :: "string \<Rightarrow> KeyValue list \<Rightarrow> string list" where
  "values_of k kvs = map Value (filter (\<lambda>x. Key x = k) kvs)"

text \<open>The lines of the reduced keys, as a multiset.\<close>

definition key_lines :: "(string \<Rightarrow> string list \<Rightarrow> string) \<Rightarrow> KeyValue list \<Rightarrow> string set \<Rightarrow> string multiset" where
  "key_lines reducef kvs ks = image_mset (\<lambda>k. out_line k (reducef k (values_of k kvs))) (mset_set ks)"

lemma sorted_group:
  assumes "sorted (map Key (kv # kvs))"
  shows "takeWhile (\<lambda>x. Key x = Key kv) kvs = filter (\<lambda>x. Key x = Key kv) kvs"
    and "dropWhile (\<lambda>x. Key x = Key kv) kvs = filter (\<lambda>x. Key x \<noteq> Key kv) kvs"
proof -
  have "takeWhile (\<lambda>x. Key x = Key kv) kvs = filter (\<lambda>x. Key x = Key kv) kvs \<and>
        dropWhile (\<lambda>x. Key x = Key kv) kvs = filter (\<lambda>x. Key x \<noteq> Key kv) kvs"
    using assms
  proof (induction kvs)
    case (Cons x xs)
    show ?case
    proof (cases "Key x = Key kv")
      case True
      with Cons show ?thesis by simp
    next
      case False
      then have "\<forall>y\<in>set xs. Key y \<noteq> Key kv" using Cons.prems by auto
      with False show ?thesis by (simp add: filter_empty_conv filter_id_conv)
    qed
  qed simp
  then show "takeWhile (\<lambda>x. Key x = Key kv) kvs = filter (\<lambda>x. Key x = Key kv) kvs"
    and "dropWhile (\<lambda>x. Key x = Key kv) kvs = filter (\<lambda>x. Key x \<noteq> Key kv) kvs" by simp_all
qed

lemma sorted_map_filter: "sorted (map Key kvs) \<Longrightarrow> sorted (map Key (filter P kvs))"
  by (induction kvs) auto

lemma values_of_filter_neq: "k \<noteq> k' \<Longrightarrow> values_of k (filter (\<lambda>x. Key x \<noteq> k') kvs) = values_of k kvs"
  by (auto simp: values_of_def intro!: arg_cong [where f = "map Value"] filter_cong)

lemma group_lines_mset:
  "sorted (map Key kvs) \<Longrightarrow> mset (group_lines reducef kvs) = key_lines reducef kvs (Key ` set kvs)"
proof (induction reducef kvs rule: group_lines.induct)
  case (2 reducef kv kvs)
  let ?rest = "filter (\<lambda>x. Key x \<noteq> Key kv) kvs"
  note sg = sorted_group [OF "2.prems"]
  have "sorted (map Key ?rest)" using "2.prems" by (intro sorted_map_filter) simp
  then have "mset (group_lines reducef ?rest) = key_lines reducef ?rest (Key ` set ?rest)"
    using "2.IH" by (simp add: sg)
  also have "\<dots> = key_lines reducef (kv # kvs) (Key ` set ?rest)"
    unfolding key_lines_def
  proof (rule image_mset_cong)
    fix k assume "k \<in># mset_set (Key ` set ?rest)"
    then have "k \<noteq> Key kv" by auto
    then show "out_line k (reducef k (values_of k ?rest)) = out_line k (reducef k (values_of k (kv # kvs)))"
      using values_of_filter_neq [of k "Key kv" kvs] by (simp add: values_of_def)
  qed
  finally have rest: "mset (group_lines reducef ?rest) = key_lines reducef (kv # kvs) (Key ` set ?rest)" .
  have keys: "Key ` set (kv # kvs) = insert (Key kv) (Key ` set ?rest)" "Key kv \<notin> Key ` set ?rest"
    by auto
  show ?case
    unfolding keys(1) group_lines.simps mset.simps sg rest
    using keys(2) by (simp add: key_lines_def values_of_def)
qed (simp add: key_lines_def)

text \<open>
  A reduce function that does not depend on the order of the values, and a sort that returns a
  sorted permutation.
\<close>

definition order_free :: "(string \<Rightarrow> string list \<Rightarrow> string) \<Rightarrow> bool" where
  "order_free reducef \<longleftrightarrow> (\<forall>k vs vs'. mset vs = mset vs' \<longrightarrow> reducef k vs = reducef k vs')"

definition sorts_by_key :: "(KeyValue list \<Rightarrow> KeyValue list) \<Rightarrow> bool" where
  "sorts_by_key srt \<longleftrightarrow> (\<forall>kvs. mset (srt kvs) = mset kvs \<and> sorted (map Key (srt kvs)))"

lemma order_freeD: "order_free reducef \<Longrightarrow> mset vs = mset vs' \<Longrightarrow> reducef k vs = reducef k vs'"
  unfolding order_free_def by blast

lemma mset_values_of: "mset kvs = mset kvs' \<Longrightarrow> mset (values_of k kvs) = mset (values_of k kvs')"
  by (simp add: values_of_def)

lemma key_lines_cong:
  assumes "order_free reducef" "\<And>k. k \<in> ks \<Longrightarrow> mset (values_of k kvs) = mset (values_of k kvs')" "finite ks"
  shows "key_lines reducef kvs ks = key_lines reducef kvs' ks"
  unfolding key_lines_def
proof (rule image_mset_cong)
  fix k assume "k \<in># mset_set ks"
  then have "k \<in> ks" using assms(3) by simp
  then show "out_line k (reducef k (values_of k kvs)) = out_line k (reducef k (values_of k kvs'))"
    using order_freeD [OF assms(1) assms(2)] by simp
qed

lemma sorted_lines:
  assumes "order_free reducef" "sorts_by_key srt"
  shows "mset (group_lines reducef (srt kvs)) = key_lines reducef kvs (Key ` set kvs)"
proof -
  have m: "mset (srt kvs) = mset kvs" "sorted (map Key (srt kvs))"
    using assms(2) by (auto simp: sorts_by_key_def)
  then have "set (srt kvs) = set kvs" by (metis mset_eq_setD)
  then show ?thesis
    using group_lines_mset [OF m(2), of reducef] key_lines_cong [OF assms(1), of _ "srt kvs" kvs]
      mset_values_of [OF m(1)] by simp
qed

section \<open>Buckets\<close>

lemma ihash_bounds: "0 \<le> ihash key" "ihash key < 2 ^ 31"
proof -
  have "fnv32a key AND 0x7fffffff = take_bit 31 (fnv32a key)"
    by (simp add: take_bit_eq_mask mask_eq_exp_minus_1)
  then have "ihash key = take_bit 31 (uint (fnv32a key))"
    by (simp add: ihash_def unsigned_take_bit_eq)
  then show "0 \<le> ihash key" "ihash key < 2 ^ 31"
    using take_bit_int_less_exp [of 31] by simp_all
qed

definition bucket_of :: "int \<Rightarrow> string \<Rightarrow> int" where
  "bucket_of n k = ihash k mod n"

definition bucket :: "int \<Rightarrow> nat \<Rightarrow> KeyValue list \<Rightarrow> KeyValue list" where
  "bucket n b kvs = filter (\<lambda>kv. bucket_of n (Key kv) = int b) kvs"

lemma bucket_of_bounds: "0 < n \<Longrightarrow> 0 \<le> bucket_of n k \<and> bucket_of n k < n"
  by (simp add: bucket_of_def)

lemma bucket_loop_eq:
  "0 < n \<Longrightarrow> length im = nat n \<Longrightarrow>
   bucket_loop n kvs im = Inr (map (\<lambda>b. im ! b @ bucket n b kvs) [0..<nat n])"
proof (induction kvs arbitrary: im)
  case Nil
  then show ?case by (simp add: bucket_def map_nth [symmetric] flip: Nil.prems(2))
next
  case (Cons kv kvs)
  let ?b = "bucket_of n (Key kv)"
  have b: "0 \<le> ?b" "?b < n" using bucket_of_bounds [OF Cons.prems(1)] by simp_all
  then have r: "in_range im ?b" using Cons.prems(2) by (simp add: in_range_def)
  let ?im = "im[nat ?b := im ! nat ?b @ [kv]]"
  have "bucket_loop n (kv # kvs) im = bucket_loop n kvs ?im"
    using Cons.prems(1) r by (simp add: bucket_of_def [symmetric] Let_def)
  also have "\<dots> = Inr (map (\<lambda>b. ?im ! b @ bucket n b kvs) [0..<nat n])"
    using Cons by simp
  also have "map (\<lambda>b. ?im ! b @ bucket n b kvs) [0..<nat n] = map (\<lambda>b. im ! b @ bucket n b (kv # kvs)) [0..<nat n]"
    using b Cons.prems(2) by (auto simp: bucket_def nth_list_update)
  finally show ?case .
qed

lemma mr_file_inj [simp]: "0 \<le> n \<Longrightarrow> 0 \<le> n' \<Longrightarrow> 0 \<le> j \<Longrightarrow> 0 \<le> j' \<Longrightarrow> mr_file j n = mr_file j' n' \<longleftrightarrow> j = j' \<and> n = n'"
proof -
  assume "0 \<le> n" "0 \<le> n'" "0 \<le> j" "0 \<le> j'"
  then have "CHR ''-'' \<notin> set (Itoa j)" "CHR ''-'' \<notin> set (Itoa n)" by (simp_all add: Itoa_def)
  then show ?thesis by (simp add: mr_file_def append_Cons_eq_iff)
qed

lemma write_loop_ok:
  assumes "\<forall>f. createOk f" "0 \<le> j"
  shows "\<exists>d'. write_loop createOk j n bs d = Inr d' \<and>
     (distinct (map fst d) \<longrightarrow> distinct (map fst d')) \<and>
     fst ` set d' = fst ` set d \<union> (\<lambda>b. mr_file j (int b)) ` {n..<n + length bs} \<and>
     (\<forall>b<length bs. map_of d' (mr_file j (int (n + b))) = Some (concat (map json_Encode (bs ! b)))) \<and>
     (\<forall>f. f \<notin> (\<lambda>b. mr_file j (int b)) ` {n..<n + length bs} \<longrightarrow> map_of d' f = map_of d f)"
proof (induction bs arbitrary: n d)
  case (Cons b bs)
  let ?d = "al_put (mr_file j (int n)) (concat (map json_Encode b)) d"
  obtain d' where d': "write_loop createOk j (Suc n) bs ?d = Inr d'"
    "distinct (map fst ?d) \<longrightarrow> distinct (map fst d')"
    "fst ` set d' = fst ` set ?d \<union> (\<lambda>b. mr_file j (int b)) ` {Suc n..<Suc n + length bs}"
    "\<forall>b<length bs. map_of d' (mr_file j (int (Suc n + b))) = Some (concat (map json_Encode (bs ! b)))"
    "\<forall>f. f \<notin> (\<lambda>b. mr_file j (int b)) ` {Suc n..<Suc n + length bs} \<longrightarrow> map_of d' f = map_of ?d f"
    using Cons.IH by blast
  have ivl: "{n..<n + length (b # bs)} = insert n {Suc n..<Suc n + length bs}" by auto
  have "mr_file j (int n) \<notin> (\<lambda>b. mr_file j (int b)) ` {Suc n..<Suc n + length bs}"
    using assms(2) by auto
  then have "map_of d' (mr_file j (int n)) = Some (concat (map json_Encode b))"
    using d'(5) by simp
  then have "\<forall>i<length (b # bs). map_of d' (mr_file j (int (n + i))) = Some (concat (map json_Encode ((b # bs) ! i)))"
    using d'(4) by (auto simp: less_Suc_eq_0_disj add.left_commute)
  moreover have "\<forall>f. f \<notin> (\<lambda>b. mr_file j (int b)) ` {n..<n + length (b # bs)} \<longrightarrow> map_of d' f = map_of d f"
    using d'(5) unfolding ivl by simp
  moreover have "write_loop createOk j n (b # bs) d = Inr d'" using d'(1) assms(1) by simp
  moreover have "distinct (map fst d) \<longrightarrow> distinct (map fst d')" using d'(2) by simp
  moreover have "fst ` set d' = fst ` set d \<union> (\<lambda>b. mr_file j (int b)) ` {n..<n + length (b # bs)}"
    using d'(3) unfolding ivl by simp
  ultimately show ?case by blast
qed simp

section \<open>Files of a worker\<close>

lemma glob_literal: "CHR ''*'' \<notin> set p \<Longrightarrow> glob_match (p @ q) s \<longleftrightarrow> (\<exists>t. s = p @ t \<and> glob_match q t)"
proof (induction p arbitrary: s)
  case (Cons a p)
  then show ?case by (cases s) auto
qed simp

lemma glob_exact: "CHR ''*'' \<notin> set q \<Longrightarrow> glob_match q s \<longleftrightarrow> s = q"
  using glob_literal [of q "[]" s] by simp

lemma glob_star:
  "CHR ''*'' \<notin> set q \<Longrightarrow>
   glob_match (CHR ''*'' # q) s \<longleftrightarrow> (\<exists>pre. s = pre @ q \<and> CHR ''/'' \<notin> set pre)"
proof (induction s)
  case Nil
  then show ?case by (auto simp: glob_exact)
next
  case (Cons c s)
  have "(\<exists>pre. c # s = pre @ q \<and> CHR ''/'' \<notin> set pre) \<longleftrightarrow>
    c # s = q \<or> c \<noteq> CHR ''/'' \<and> (\<exists>pre. s = pre @ q \<and> CHR ''/'' \<notin> set pre)"
    by (auto simp: Cons_eq_append_conv)
  with Cons show ?case by (simp add: glob_exact)
qed

lemma digits_only:
  assumes "0 \<le> n"
  shows "CHR ''-'' \<notin> set (Itoa n)" "CHR ''*'' \<notin> set (Itoa n)" "CHR ''/'' \<notin> set (Itoa n)"
  using assms set_show_nat [of "CHR ''*''" "nat n"] set_show_nat [of "CHR ''/''" "nat n"]
  by (auto simp: Itoa_def)

lemma glob_pattern:
  assumes "0 \<le> r"
  shows "glob_match (mr_pattern r) s \<longleftrightarrow> (\<exists>pre. s = ''mr-'' @ pre @ ''-'' @ Itoa r \<and> CHR ''/'' \<notin> set pre)"
proof -
  have "mr_pattern r = ''mr-'' @ CHR ''*'' # (''-'' @ Itoa r)" by (simp add: mr_pattern_def)
  moreover have "CHR ''*'' \<notin> set (''-'' @ Itoa r)" using digits_only [OF assms] by simp
  ultimately show ?thesis
    using glob_literal [of "''mr-''" "CHR ''*'' # (''-'' @ Itoa r)" s] glob_star [of "''-'' @ Itoa r"]
    by auto
qed

lemma glob_mr_file [simp]:
  assumes "0 \<le> r" "0 \<le> n" "0 \<le> j"
  shows "glob_match (mr_pattern r) (mr_file j n) \<longleftrightarrow> n = r"
proof
  assume "glob_match (mr_pattern r) (mr_file j n)"
  then obtain pre where "Itoa j @ CHR ''-'' # Itoa n = pre @ CHR ''-'' # Itoa r"
    using assms by (auto simp: glob_pattern mr_file_def)
  then show "n = r"
    using append_Cons_eq_iff [of "CHR ''-''" "Itoa j" "Itoa n" pre "Itoa r"]
      digits_only(1) [OF assms(3)] digits_only(1) [OF assms(2)] by simp
next
  assume "n = r"
  then show "glob_match (mr_pattern r) (mr_file j n)"
    using assms digits_only(3) [OF assms(3)] by (auto simp: glob_pattern mr_file_def)
qed

lemma glob_out_file:
  assumes "0 \<le> r" "0 \<le> r'"
  shows "glob_match (mr_pattern r) (out_file r') \<longleftrightarrow> r' = r"
proof
  assume "glob_match (mr_pattern r) (out_file r')"
  then obtain pre where "''out'' @ CHR ''-'' # Itoa r' = pre @ CHR ''-'' # Itoa r"
    using assms by (auto simp: glob_pattern out_file_def)
  then show "r' = r"
    using append_Cons_eq_iff [of "CHR ''-''" "''out''" "Itoa r'" pre "Itoa r"]
      digits_only(1) [OF assms(2)] by simp
next
  assume "r' = r"
  then show "glob_match (mr_pattern r) (out_file r')"
    using assms by (auto simp: glob_pattern out_file_def)
qed

text \<open>The files of reduce job \<open>r\<close> on a disk are those of the map jobs \<open>J\<close>.\<close>

definition holds_jobs ::
  "(string \<times> string) list \<Rightarrow> int \<Rightarrow> nat \<Rightarrow> (nat \<Rightarrow> KeyValue list) \<Rightarrow> nat set \<Rightarrow> bool" where
  "holds_jobs d n r outp J \<longleftrightarrow>
     distinct (map fst d) \<and>
     {f \<in> fst ` set d. glob_match (mr_pattern (int r)) f} = (\<lambda>j. mr_file (int j) (int r)) ` J \<and>
     (\<forall>j\<in>J. map_of d (mr_file (int j) (int r)) = Some (concat (map json_Encode (bucket n r (outp j)))))"

lemma read_files_ok:
  "(\<forall>f\<in>set fs. map_of d f = Some (g f)) \<Longrightarrow> read_files d fs acc = Inr (acc @ concat (map g fs))"
  by (induction fs arbitrary: acc) auto

lemma distinct_image_list:
  assumes "distinct xs" "set xs = f ` A" "inj_on f A"
  obtains as where "xs = map f as" "distinct as" "set as = A"
proof -
  have "xs \<in> lists (f ` A)" using assms(2) by auto
  then obtain as where as: "xs = map f as" "as \<in> lists A" by (auto simp: lists_image)
  then have "distinct as" using assms(1) by (simp add: distinct_map)
  moreover have "set as = A"
    using as assms(2,3) by (metis in_listsD inj_on_image_eq_iff list.set_map subsetI subset_refl)
  ultimately show ?thesis using that as(1) by blast
qed

lemma retreive_bucket:
  assumes h: "holds_jobs (disk w) n r outp J"
  shows "\<exists>data. retreiveFiles w (mr_pattern (int r)) = Inr data \<and>
           mset (decode_loop data) = (\<Sum>j\<in>J. mset (bucket n r (outp j)))"
proof -
  let ?d = "disk w" and ?f = "\<lambda>j. mr_file (int j) (int r)"
  let ?names = "Glob ?d (mr_pattern (int r))"
  have "set ?names = ?f ` J" "distinct ?names" and c: "\<forall>j\<in>J. map_of ?d (?f j) = Some (concat (map json_Encode (bucket n r (outp j))))"
    using h by (auto simp: holds_jobs_def Glob_def)
  then obtain js where js: "?names = map ?f js" "distinct js" "set js = J"
    by (metis (mono_tags, lifting) distinct_image_list inj_onI mr_file_inj of_nat_0_le_iff of_nat_eq_iff)
  have "\<forall>f\<in>set ?names. map_of ?d f = Some (the (map_of ?d f))"
    using c js by auto
  then have "retreiveFiles w (mr_pattern (int r)) = Inr (concat (map (\<lambda>f. the (map_of ?d f)) ?names))"
    by (simp add: retreiveFiles_def read_files_ok)
  also have "map (\<lambda>f. the (map_of ?d f)) ?names = map (\<lambda>j. concat (map json_Encode (bucket n r (outp j)))) js"
    using c js by simp
  also have "concat \<dots> = concat (map json_Encode (concat (map (\<lambda>j. bucket n r (outp j)) js)))"
    by (induction js) simp_all
  finally have "retreiveFiles w (mr_pattern (int r)) = Inr (concat (map json_Encode (concat (map (\<lambda>j. bucket n r (outp j)) js))))" .
  moreover have "mset (decode_loop (concat (map json_Encode (concat (map (\<lambda>j. bucket n r (outp j)) js))))) = (\<Sum>j\<in>J. mset (bucket n r (outp j)))"
    using js(2,3) decode_loop_append [of _ "[]"]
    by (simp add: mset_concat sum_list_distinct_conv_sum_set comp_def)
  ultimately show ?thesis by blast
qed

section \<open>Map jobs\<close>

text \<open>The disk after map job \<open>j\<close> with output \<open>kvs\<close> has been written to \<open>n\<close> buckets.\<close>

definition wrote_buckets ::
  "int \<Rightarrow> int \<Rightarrow> KeyValue list \<Rightarrow> (string \<times> string) list \<Rightarrow> (string \<times> string) list \<Rightarrow> bool" where
  "wrote_buckets j n kvs d d' \<longleftrightarrow>
     (distinct (map fst d) \<longrightarrow> distinct (map fst d')) \<and>
     fst ` set d' = fst ` set d \<union> (\<lambda>b. mr_file j (int b)) ` {0..<nat n} \<and>
     (\<forall>b<nat n. map_of d' (mr_file j (int b)) = Some (concat (map json_Encode (bucket n b kvs)))) \<and>
     (\<forall>f. f \<notin> (\<lambda>b. mr_file j (int b)) ` {0..<nat n} \<longrightarrow> map_of d' f = map_of d f)"

lemma DoMap_ok:
  assumes "\<forall>f. createOk f" "0 < NReduce reply" "0 \<le> JobId reply" "WorkType reply = MAP"
    and "in_range (CompletedMapTasks w) (JobId reply)"
  shows "\<exists>d'. DoMap createOk mapf w reply =
      Inr (w\<lparr>disk := d', CompletedMapTasks := (CompletedMapTasks w)[nat (JobId reply) := True]\<rparr>,
           \<lparr>wc_WorkType = MAP, wc_JobId = JobId reply, wc_OutputFile = '''', wc_WorkerId = w_WorkerId w\<rparr>) \<and>
    wrote_buckets (JobId reply) (NReduce reply) (mapf (MapFileName reply) (MapFileContent reply)) (disk w) d'"
proof -
  let ?n = "NReduce reply" and ?kvs = "mapf (MapFileName reply) (MapFileContent reply)"
  let ?bs = "map (\<lambda>b. bucket ?n b ?kvs) [0..<nat ?n]"
  have b: "bucket_loop ?n ?kvs (replicate (nat ?n) []) = Inr ?bs"
    using assms(2) by (simp add: bucket_loop_eq)
  obtain d' where d': "write_loop createOk (JobId reply) 0 ?bs (disk w) = Inr d'"
    and wr: "wrote_buckets (JobId reply) ?n ?kvs (disk w) d'"
    using write_loop_ok [OF assms(1,3), of 0 ?bs "disk w"] by (auto simp: wrote_buckets_def)
  have "DoMap createOk mapf w reply =
      Inr (w\<lparr>disk := d', CompletedMapTasks := (CompletedMapTasks w)[nat (JobId reply) := True]\<rparr>,
           \<lparr>wc_WorkType = MAP, wc_JobId = JobId reply, wc_OutputFile = '''', wc_WorkerId = w_WorkerId w\<rparr>)"
    using assms b d' by (simp add: DoMap_def CallDone_def updateWorkingCompletedFiles_def)
  with wr show ?thesis by blast
qed

lemma holds_jobs_add:
  assumes h: "holds_jobs d n r outp J" and r: "r < nat n"
    and wr: "wrote_buckets (int j) n (outp j) d d'"
  shows "holds_jobs d' n r outp (insert j J)"
proof -
  note d' = wr [unfolded wrote_buckets_def, THEN conjunct1]
    wr [unfolded wrote_buckets_def, THEN conjunct2, THEN conjunct1]
    wr [unfolded wrote_buckets_def, THEN conjunct2, THEN conjunct2, THEN conjunct1]
    wr [unfolded wrote_buckets_def, THEN conjunct2, THEN conjunct2, THEN conjunct2]
  let ?m = "glob_match (mr_pattern (int r))"
  have "{f \<in> fst ` set d'. ?m f} = {f \<in> fst ` set d. ?m f} \<union> {f \<in> (\<lambda>b. mr_file (int j) (int b)) ` {0..<nat n}. ?m f}"
    unfolding d'(2) by blast
  also have "{f \<in> (\<lambda>b. mr_file (int j) (int b)) ` {0..<nat n}. ?m f} = {mr_file (int j) (int r)}"
    using r by auto
  finally have "{f \<in> fst ` set d'. ?m f} = (\<lambda>j. mr_file (int j) (int r)) ` insert j J"
    using h by (simp add: holds_jobs_def)
  moreover have "map_of d' (mr_file (int i) (int r)) = Some (concat (map json_Encode (bucket n r (outp i))))"
    if "i \<in> insert j J" for i
  proof (cases "i = j")
    case False
    then have "mr_file (int i) (int r) \<notin> (\<lambda>b. mr_file (int j) (int b)) ` {0..<nat n}" by auto
    with d'(4) False that h show ?thesis by (simp add: holds_jobs_def)
  qed (use d'(3) r in simp)
  ultimately show ?thesis using h d'(1) by (simp add: holds_jobs_def)
qed

text \<open>A worker that runs a list of map jobs, as the coordinator \<open>c\<close> hands them out.\<close>

definition map_output :: "file_system \<Rightarrow> (string \<Rightarrow> string \<Rightarrow> KeyValue list) \<Rightarrow> Coordinator \<Rightarrow> nat \<Rightarrow> KeyValue list" where
  "map_output fs mapf c j = mapf (files (mapper c) ! j) (file_text fs (files (mapper c) ! j))"

fun run_maps ::
  "(string \<Rightarrow> bool) \<Rightarrow> file_system \<Rightarrow> (string \<Rightarrow> string \<Rightarrow> KeyValue list) \<Rightarrow> Coordinator \<Rightarrow>
   WorkerProcess \<Rightarrow> nat list \<Rightarrow> WorkerProcess go" where
  "run_maps createOk fs mapf c w [] = Inr w"
| "run_maps createOk fs mapf c w (j # js) =
     go_bind (DoMap createOk mapf w (map_reply fs c j zero_WorkReply)) (\<lambda>(w', wc).
       run_maps createOk fs mapf c w' js)"

text \<open>What stays the same while a worker runs jobs.\<close>

definition same_worker :: "WorkerProcess \<Rightarrow> WorkerProcess \<Rightarrow> bool" where
  "same_worker w w' \<longleftrightarrow>
     w_WorkerId w' = w_WorkerId w \<and> w_IpAddress w' = w_IpAddress w \<and>
     length (CompletedMapTasks w') = length (CompletedMapTasks w) \<and>
     length (CompletedReduceTasks w') = length (CompletedReduceTasks w)"

lemma run_maps_ok:
  assumes "\<forall>f. createOk f" "0 < Nreduce c"
  shows "\<forall>j\<in>set js. j < length (CompletedMapTasks w) \<Longrightarrow>
    (\<forall>r<nat (Nreduce c). holds_jobs (disk w) (Nreduce c) r (map_output fs mapf c) J) \<Longrightarrow>
    \<exists>w'. run_maps createOk fs mapf c w js = Inr w' \<and> same_worker w w' \<and>
      (\<forall>r<nat (Nreduce c). holds_jobs (disk w') (Nreduce c) r (map_output fs mapf c) (J \<union> set js))"
proof (induction js arbitrary: w J)
  case Nil
  then show ?case by (simp add: same_worker_def)
next
  case (Cons j js)
  let ?n = "Nreduce c" and ?r = "map_reply fs c j zero_WorkReply"
  have rep: "NReduce ?r = ?n" "JobId ?r = int j" "WorkType ?r = MAP"
    "mapf (MapFileName ?r) (MapFileContent ?r) = map_output fs mapf c j"
    by (simp_all add: map_reply_def map_output_def)
  obtain d' where d': "DoMap createOk mapf w ?r =
      Inr (w\<lparr>disk := d', CompletedMapTasks := (CompletedMapTasks w)[j := True]\<rparr>,
           \<lparr>wc_WorkType = MAP, wc_JobId = int j, wc_OutputFile = '''', wc_WorkerId = w_WorkerId w\<rparr>)"
    and wr: "wrote_buckets (int j) ?n (map_output fs mapf c j) (disk w) d'"
    using DoMap_ok [of createOk ?r w mapf, unfolded rep] assms Cons.prems(1) by auto
  let ?w = "w\<lparr>disk := d', CompletedMapTasks := (CompletedMapTasks w)[j := True]\<rparr>"
  have "\<forall>r<nat ?n. holds_jobs (disk ?w) ?n r (map_output fs mapf c) (insert j J)"
    using Cons.prems(2) wr by (auto intro: holds_jobs_add)
  then obtain w' where "run_maps createOk fs mapf c ?w js = Inr w'" "same_worker ?w w'"
    "\<forall>r<nat ?n. holds_jobs (disk w') ?n r (map_output fs mapf c) (insert j J \<union> set js)"
    using Cons.IH [of ?w "insert j J"] Cons.prems(1) by auto
  then show ?case using d' by (auto simp: same_worker_def)
qed

lemma holds_jobs_empty: "holds_jobs [] n r outp {}"
  by (simp add: holds_jobs_def)

section \<open>Properties\<close>

text \<open>the grouping loop of the reducer and that of the sequential program write the same output
  for every list of pairs, sorted or not.\<close>

theorem reduce_loops_agree:
  "reduce_loop reducef buf 0 '''' = seq_reduce_loop reducef buf 0 ''''"
  by (simp add: reduce_loop_eq seq_reduce_loop_eq)


definition sample_worker :: WorkerProcess where
  "sample_worker = \<lparr>IsSetup = True, w_IpAddress = ''h1'', w_WorkerId = 1, CompletedMapTasks = [False],
     CompletedReduceTasks = [False, False], CoordAddress = ''c'', w_port = ''1'', disk = []\<rparr>"

definition sample_reply :: WorkReply where
  "sample_reply = zero_WorkReply\<lparr>WorkType := MAP, NReduce := 2, MapFileName := ''f'', MapFileContent := ''x''\<rparr>"


end
