(* ===== verification/MapReduce_Equiv.thy ===== *)
theory MapReduce_Equiv
  imports MapReduce
begin

text \<open>
  A pool of workers that has run all map jobs and then runs the reduce jobs in any order
  produces the output of the sequential program.
\<close>

section \<open>Reduce jobs on a pool of workers\<close>

definition worker_loc :: "WorkerProcess \<Rightarrow> WorkerLocation" where
  "worker_loc w = \<lparr>loc_WorkerId = w_WorkerId w, loc_Address = w_IpAddress w\<rparr>"

text \<open>A call of \<^verbatim>\<open>WorkerProcess.GetMappedBuckets\<close> at an address reaches the worker that listens there.\<close>

definition pool_peer :: "WorkerProcess list \<Rightarrow> string \<Rightarrow> FileRequest \<Rightarrow> Files option" where
  "pool_peer pool addr req =
     (case find (\<lambda>w. w_IpAddress w = addr) pool of
        None \<Rightarrow> None
      | Some w \<Rightarrow> (case GetMappedBuckets w req of Inl _ \<Rightarrow> None | Inr fd \<Rightarrow> Some fd))"

definition bucket_data :: "WorkerProcess \<Rightarrow> int \<Rightarrow> KeyValue list" where
  "bucket_data w j = decode_loop (projr (retreiveFiles w (mr_pattern j)))"

lemma pool_peer_ok:
  assumes "distinct (map w_IpAddress pool)" "w \<in> set pool" "retreiveFiles w (mr_pattern j) = Inr d"
  shows "pool_peer pool (w_IpAddress w) \<lparr>fr_FileType = MAPFILES, fr_FileID = j\<rparr> =
           Some \<lparr>WorkerStat = WORKERALIVE, FileData = d\<rparr>"
proof -
  have "find (\<lambda>v. w_IpAddress v = w_IpAddress w) pool = Some w"
    using assms(1,2)
  proof (induction pool)
    case (Cons v pool)
    then show ?case by (cases "v = w") auto
  qed simp
  with assms(3) show ?thesis by (simp add: pool_peer_def GetMappedBuckets_def getFiles_def)
qed

lemma collect_pool:
  assumes d: "distinct (map w_WorkerId pool)" "distinct (map w_IpAddress pool)" and me: "me \<in> set pool"
    and r: "\<forall>w\<in>set pool. \<exists>d. retreiveFiles w (mr_pattern j) = Inr d"
  shows "set ws \<subseteq> set pool \<Longrightarrow>
    collect_loop (pool_peer pool) up me j (map worker_loc ws) acc =
      Inr (Inr (acc @ concat (map (\<lambda>w. bucket_data w j) ws)))"
proof (induction ws arbitrary: acc)
  case (Cons w ws)
  obtain dt where dt: "retreiveFiles w (mr_pattern j) = Inr dt" using r Cons.prems by auto
  show ?case
  proof (cases "w = me")
    case True
    with Cons dt show ?thesis by (simp add: worker_loc_def bucket_data_def)
  next
    case False
    then have "w_WorkerId w \<noteq> w_WorkerId me" "w_IpAddress w \<noteq> w_IpAddress me"
      using d me Cons.prems by (auto simp: distinct_map inj_on_def)
    moreover have "pool_peer pool (w_IpAddress w) \<lparr>fr_FileType = 1, fr_FileID = j\<rparr> =
        Some \<lparr>WorkerStat = WORKERALIVE, FileData = dt\<rparr>"
      using pool_peer_ok [OF d(2) _ dt] Cons.prems by simp
    ultimately show ?thesis
      using Cons dt by (simp add: worker_loc_def CallGetFiles_def bucket_data_def)
  qed
qed simp

definition reduce_job :: "WorkerProcess list \<Rightarrow> nat \<Rightarrow> WorkReply" where
  "reduce_job pool r = zero_WorkReply\<lparr>WorkType := REDUCE, JobId := int r,
     ReduceFileLocations := map worker_loc pool\<rparr>"

lemma DoReduce_pool:
  assumes "\<forall>f. createOk f" "distinct (map w_WorkerId pool)" "distinct (map w_IpAddress pool)"
    and "k < length pool" "r < length (CompletedReduceTasks (pool ! k))"
    and "\<forall>w\<in>set pool. \<exists>d. retreiveFiles w (mr_pattern (int r)) = Inr d"
  shows "DoReduce srt createOk (pool_peer pool) up reducef (pool ! k) (reduce_job pool r) =
    (let lines = group_lines reducef (srt (concat (map (\<lambda>w. bucket_data w (int r)) pool))) in
     Inr ((pool ! k)\<lparr>disk := al_put (out_file (int r)) (concat lines) (disk (pool ! k)),
            CompletedReduceTasks := (CompletedReduceTasks (pool ! k))[r := True]\<rparr>,
          Reported \<lparr>wc_WorkType = REDUCE, wc_JobId = int r, wc_OutputFile = concat lines,
            wc_WorkerId = w_WorkerId (pool ! k)\<rparr>))"
  using assms collect_pool [of pool "pool ! k" "int r" pool up "[]"]
  by (simp add: DoReduce_def reduce_job_def reduce_loop_eq CallDone_def read_or_empty_def
      updateWorkingCompletedFiles_def Let_def)

lemma holds_jobs_output:
  assumes "holds_jobs d n r outp J" "r \<noteq> r'"
  shows "holds_jobs (al_put (out_file (int r')) x d) n r outp J"
proof -
  have "\<not> glob_match (mr_pattern (int r)) (out_file (int r'))"
    using assms(2) by (simp add: glob_out_file)
  moreover have "mr_file (int j) (int r) \<noteq> out_file (int r')" for j
    using calculation by (metis glob_mr_file of_nat_0_le_iff)
  ultimately show ?thesis
    using assms(1) by (auto simp: holds_jobs_def)
qed

fun run_reduces ::
  "(KeyValue list \<Rightarrow> KeyValue list) \<Rightarrow> (string \<Rightarrow> bool) \<Rightarrow> (string \<Rightarrow> string list \<Rightarrow> string) \<Rightarrow>
   WorkerProcess list \<Rightarrow> (nat \<times> nat) list \<Rightarrow> string list go" where
  "run_reduces srt createOk reducef pool [] = Inr []"
| "run_reduces srt createOk reducef pool ((r, k) # rs) =
     go_bind (DoReduce srt createOk (pool_peer pool) True reducef (pool ! k) (reduce_job pool r)) (\<lambda>(w, oc).
     case oc of
       Aborted jf \<Rightarrow> run_reduces srt createOk reducef pool rs
     | Reported wc \<Rightarrow>
         go_bind (run_reduces srt createOk reducef (pool[k := w]) rs) (\<lambda>outs.
           Inr (wc_OutputFile wc # outs)))"

text \<open>The pool holds the output of the map jobs \<open>jss\<close>, as far as the reduce jobs \<open>R\<close> need it.\<close>

definition pool_ok ::
  "WorkerProcess list \<Rightarrow> int \<Rightarrow> (nat \<Rightarrow> KeyValue list) \<Rightarrow> nat list list \<Rightarrow> nat set \<Rightarrow> bool" where
  "pool_ok pool n outp jss R \<longleftrightarrow>
     length jss = length pool \<and> distinct (map w_WorkerId pool) \<and> distinct (map w_IpAddress pool) \<and>
     (\<forall>k<length pool. distinct (jss ! k) \<and> length (CompletedReduceTasks (pool ! k)) = nat n \<and>
        (\<forall>r\<in>R. holds_jobs (disk (pool ! k)) n r outp (set (jss ! k))))"

lemma pool_bucket:
  assumes "pool_ok pool n outp jss R" "r \<in> R" "k < length pool"
  shows "\<exists>d. retreiveFiles (pool ! k) (mr_pattern (int r)) = Inr d"
    and "mset (bucket_data (pool ! k) (int r)) = (\<Sum>j\<leftarrow>jss ! k. mset (bucket n r (outp j)))"
proof -
  have h: "holds_jobs (disk (pool ! k)) n r outp (set (jss ! k))" "distinct (jss ! k)"
    using assms by (auto simp: pool_ok_def)
  then obtain d where "retreiveFiles (pool ! k) (mr_pattern (int r)) = Inr d"
    "mset (decode_loop d) = (\<Sum>j\<in>set (jss ! k). mset (bucket n r (outp j)))"
    using retreive_bucket by blast
  with h(2) show "\<exists>d. retreiveFiles (pool ! k) (mr_pattern (int r)) = Inr d"
    and "mset (bucket_data (pool ! k) (int r)) = (\<Sum>j\<leftarrow>jss ! k. mset (bucket n r (outp j)))"
    by (auto simp: bucket_data_def sum_list_distinct_conv_sum_set)
qed

lemma pool_kvs:
  assumes "pool_ok pool n outp jss R" "r \<in> R"
  shows "mset (concat (map (\<lambda>w. bucket_data w (int r)) pool)) = (\<Sum>j\<leftarrow>concat jss. mset (bucket n r (outp j)))"
proof -
  have len: "length jss = length pool" using assms(1) by (simp add: pool_ok_def)
  have "map (\<lambda>w. mset (bucket_data w (int r))) pool = map (\<lambda>js. \<Sum>j\<leftarrow>js. mset (bucket n r (outp j))) jss"
    using len pool_bucket(2) [OF assms] by (intro nth_equalityI) auto
  then have "mset (concat (map (\<lambda>w. bucket_data w (int r)) pool)) = (\<Sum>js\<leftarrow>jss. \<Sum>j\<leftarrow>js. mset (bucket n r (outp j)))"
    by (simp add: mset_concat comp_def)
  also have "\<dots> = (\<Sum>j\<leftarrow>concat jss. mset (bucket n r (outp j)))"
    by (induction jss) simp_all
  finally show ?thesis .
qed

lemma pool_ok_reduced:
  assumes p: "pool_ok pool n outp jss R" and "k < length pool" "R' \<subseteq> R" "r \<notin> R'"
  shows "pool_ok (pool[k := (pool ! k)\<lparr>disk := al_put (out_file (int r)) x (disk (pool ! k)),
            CompletedReduceTasks := (CompletedReduceTasks (pool ! k))[r := True]\<rparr>]) n outp jss R'"
proof -
  let ?w = "(pool ! k)\<lparr>disk := al_put (out_file (int r)) x (disk (pool ! k)),
            CompletedReduceTasks := (CompletedReduceTasks (pool ! k))[r := True]\<rparr>"
  have "map w_WorkerId (pool[k := ?w]) = map w_WorkerId pool" "map w_IpAddress (pool[k := ?w]) = map w_IpAddress pool"
    using assms(2) by (simp_all add: map_update list_update_same_conv)
  moreover have "holds_jobs (disk (pool[k := ?w] ! i)) n r' outp (set (jss ! i))"
    if "i < length pool" "r' \<in> R'" for i r'
  proof -
    have h: "holds_jobs (disk (pool ! i)) n r' outp (set (jss ! i))" using p assms(3) that by (auto simp: pool_ok_def)
    moreover have "r' \<noteq> r" using that assms(4) by auto
    ultimately show ?thesis using that holds_jobs_output [OF h] by (cases "i = k") simp_all
  qed
  moreover have "length (CompletedReduceTasks (pool[k := ?w] ! i)) = nat n" if "i < length pool" for i
    using p that by (cases "i = k") (simp_all add: pool_ok_def)
  ultimately show ?thesis using p by (simp add: pool_ok_def)
qed

lemma run_reduces_ok:
  assumes "\<forall>f. createOk f"
  shows "pool_ok pool n outp jss (fst ` set rs) \<Longrightarrow> distinct (map fst rs) \<Longrightarrow>
    \<forall>(r, k)\<in>set rs. r < nat n \<and> k < length pool \<Longrightarrow>
    \<exists>kvss. run_reduces srt createOk reducef pool rs = Inr (map (\<lambda>kvs. concat (group_lines reducef (srt kvs))) kvss) \<and>
      list_all2 (\<lambda>r kvs. mset kvs = (\<Sum>j\<leftarrow>concat jss. mset (bucket n r (outp j)))) (map fst rs) kvss"
proof (induction rs arbitrary: pool)
  case (Cons rk rs)
  obtain r k where rk: "rk = (r, k)" by fastforce
  let ?kvs = "concat (map (\<lambda>w. bucket_data w (int r)) pool)"
  let ?out = "concat (group_lines reducef (srt ?kvs))"
  let ?w = "(pool ! k)\<lparr>disk := al_put (out_file (int r)) ?out (disk (pool ! k)),
            CompletedReduceTasks := (CompletedReduceTasks (pool ! k))[r := True]\<rparr>"
  have k: "k < length pool" "r < nat n" and r: "r \<in> fst ` set (rk # rs)" "r \<notin> fst ` set rs"
    using Cons.prems(2,3) rk by auto
  have p: "distinct (map w_WorkerId pool)" "distinct (map w_IpAddress pool)" "length (CompletedReduceTasks (pool ! k)) = nat n"
    using Cons.prems(1) k by (simp_all add: pool_ok_def)
  have "\<forall>w\<in>set pool. \<exists>d. retreiveFiles w (mr_pattern (int r)) = Inr d"
    using pool_bucket(1) [OF Cons.prems(1) r(1)] by (auto simp: in_set_conv_nth)
  then have red: "DoReduce srt createOk (pool_peer pool) True reducef (pool ! k) (reduce_job pool r) =
      Inr (?w, Reported \<lparr>wc_WorkType = REDUCE, wc_JobId = int r, wc_OutputFile = ?out,
            wc_WorkerId = w_WorkerId (pool ! k)\<rparr>)"
    using DoReduce_pool [OF assms p(1,2) k(1)] p(3) k(2) by (simp add: Let_def)
  have "pool_ok (pool[k := ?w]) n outp jss (fst ` set rs)"
    using pool_ok_reduced [OF Cons.prems(1) k(1) _ r(2)] by auto
  then obtain kvss where "run_reduces srt createOk reducef (pool[k := ?w]) rs = Inr (map (\<lambda>kvs. concat (group_lines reducef (srt kvs))) kvss)"
    "list_all2 (\<lambda>r kvs. mset kvs = (\<Sum>j\<leftarrow>concat jss. mset (bucket n r (outp j)))) (map fst rs) kvss"
    using Cons.IH [of "pool[k := ?w]"] Cons.prems(2,3) by auto
  with red pool_kvs [OF Cons.prems(1) r(1)] show ?case
    by (intro exI [of _ "?kvs # kvss"]) (simp add: rk)
qed simp

section \<open>The output of all reducers\<close>

definition all_pairs :: "nat \<Rightarrow> (nat \<Rightarrow> KeyValue list) \<Rightarrow> KeyValue list" where
  "all_pairs m outp = concat (map outp [0..<m])"

lemma bucket_concat: "bucket n r (concat kvss) = concat (map (bucket n r) kvss)"
  by (induction kvss) (simp_all add: bucket_def)

lemma bucket_sum:
  assumes "mset (concat jss) = mset [0..<m]"
  shows "(\<Sum>j\<leftarrow>concat jss. mset (bucket n r (outp j))) = mset (bucket n r (all_pairs m outp))"
proof -
  have "(\<Sum>j\<leftarrow>concat jss. mset (bucket n r (outp j))) = (\<Sum>j\<in>#mset (concat jss). mset (bucket n r (outp j)))"
    by (metis mset_map sum_mset_sum_list)
  also have "\<dots> = (\<Sum>j\<leftarrow>[0..<m]. mset (bucket n r (outp j)))"
    unfolding assms by (metis mset_map sum_mset_sum_list)
  finally show ?thesis
    by (simp add: all_pairs_def bucket_concat mset_concat comp_def)
qed

lemma keys_bucket: "Key ` set (bucket n r kvs) = {k \<in> Key ` set kvs. bucket_of n k = int r}"
  by (auto simp: bucket_def)

lemma values_of_bucket: "bucket_of n k = int r \<Longrightarrow> values_of k (bucket n r kvs) = values_of k kvs"
  by (auto simp: values_of_def bucket_def intro!: arg_cong [where f = "map Value"] filter_cong)

lemma bucket_lines:
  assumes "order_free reducef" "sorts_by_key srt" "mset kvs = mset (bucket n r all)"
  shows "mset (group_lines reducef (srt kvs)) = key_lines reducef all {k \<in> Key ` set all. bucket_of n k = int r}"
proof -
  have "set kvs = set (bucket n r all)" using assms(3) by (metis mset_eq_setD)
  then have keys: "Key ` set kvs = {k \<in> Key ` set all. bucket_of n k = int r}" by (metis keys_bucket)
  have "key_lines reducef kvs (Key ` set kvs) = key_lines reducef all (Key ` set kvs)"
  proof (rule key_lines_cong [OF assms(1)])
    fix k assume "k \<in> Key ` set kvs"
    then have "bucket_of n k = int r" using keys by auto
    then show "mset (values_of k kvs) = mset (values_of k all)"
      using mset_values_of [OF assms(3), of k] values_of_bucket by metis
  qed simp
  then show ?thesis using sorted_lines [OF assms(1,2), of kvs] keys by simp
qed

lemma key_lines_union:
  "finite A \<Longrightarrow> finite B \<Longrightarrow> A \<inter> B = {} \<Longrightarrow> key_lines reducef kvs (A \<union> B) = key_lines reducef kvs A + key_lines reducef kvs B"
  by (simp add: key_lines_def mset_set_Union)

lemma key_lines_buckets:
  assumes "distinct rs"
  shows "(\<Sum>r\<leftarrow>rs. key_lines reducef all {k \<in> Key ` set all. bucket_of n k = int r}) =
    key_lines reducef all {k \<in> Key ` set all. \<exists>r\<in>set rs. bucket_of n k = int r}"
  using assms
proof (induction rs)
  case (Cons r rs)
  let ?K = "\<lambda>P. {k \<in> Key ` set all. P k}"
  have "?K (\<lambda>k. \<exists>r\<in>set (r # rs). bucket_of n k = int r) =
      ?K (\<lambda>k. bucket_of n k = int r) \<union> ?K (\<lambda>k. \<exists>r\<in>set rs. bucket_of n k = int r)"
    by auto
  moreover have "?K (\<lambda>k. bucket_of n k = int r) \<inter> ?K (\<lambda>k. \<exists>r\<in>set rs. bucket_of n k = int r) = {}"
    using Cons.prems by auto
  ultimately show ?case using Cons by (simp add: key_lines_union)
qed (simp add: key_lines_def)

lemma seq_read_ok:
  "\<forall>f\<in>set fls. \<exists>t. fs f = FileContent t \<Longrightarrow>
   seq_read_loop fs mapf fls acc = Inr (acc @ concat (map (\<lambda>f. mapf f (file_text fs f)) fls))"
  by (induction fls arbitrary: acc) (auto simp: file_text_def)

lemma mrsequential_lines:
  assumes "\<forall>f\<in>set fls. \<exists>t. fs f = FileContent t" "fls \<noteq> []"
  shows "mrsequential srt fs mapf reducef (app # fls) =
    Inr (concat (group_lines reducef (srt (concat (map (\<lambda>f. mapf f (file_text fs f)) fls)))))"
proof -
  have "\<not> length (app # fls) < 2" using assms(2) by (cases fls) simp_all
  with seq_read_ok [OF assms(1), of mapf "[]"] show ?thesis
    by (simp add: mrsequential_def seq_reduce_loop_eq)
qed

section \<open>End to end\<close>

text \<open>A worker before its first job, as \<^verbatim>\<open>Worker\<close> sets it up in an empty directory.\<close>

definition fresh_worker :: "Coordinator \<Rightarrow> WorkerProcess \<Rightarrow> bool" where
  "fresh_worker c w \<longleftrightarrow>
     disk w = [] \<and> length (CompletedMapTasks w) = length (files (mapper c)) \<and>
     length (CompletedReduceTasks w) = nat (Nreduce c)"

fun run_pool ::
  "(string \<Rightarrow> bool) \<Rightarrow> file_system \<Rightarrow> (string \<Rightarrow> string \<Rightarrow> KeyValue list) \<Rightarrow> Coordinator \<Rightarrow>
   (WorkerProcess \<times> nat list) list \<Rightarrow> WorkerProcess list go" where
  "run_pool createOk fs mapf c [] = Inr []"
| "run_pool createOk fs mapf c ((w, js) # ws) =
     go_bind (run_maps createOk fs mapf c w js) (\<lambda>w'.
     go_bind (run_pool createOk fs mapf c ws) (\<lambda>ws'. Inr (w' # ws')))"

lemma run_pool_ok:
  assumes "\<forall>f. createOk f" "0 < Nreduce c"
  shows "\<forall>(w, js)\<in>set ws. fresh_worker c w \<and> distinct js \<and> (\<forall>j\<in>set js. j < length (files (mapper c))) \<Longrightarrow>
    \<exists>pool. run_pool createOk fs mapf c ws = Inr pool \<and>
      list_all2 (\<lambda>(w, js) w'. same_worker w w' \<and>
        (\<forall>r<nat (Nreduce c). holds_jobs (disk w') (Nreduce c) r (map_output fs mapf c) (set js))) ws pool"
proof (induction ws)
  case (Cons wj ws)
  obtain w js where wj: "wj = (w, js)" by fastforce
  have w: "fresh_worker c w" "\<forall>j\<in>set js. j < length (CompletedMapTasks w)"
    using Cons.prems wj by (auto simp: fresh_worker_def)
  have "\<forall>r<nat (Nreduce c). holds_jobs (disk w) (Nreduce c) r (map_output fs mapf c) {}"
    using w(1) by (simp add: fresh_worker_def holds_jobs_empty)
  then obtain w' where "run_maps createOk fs mapf c w js = Inr w'" "same_worker w w'"
    "\<forall>r<nat (Nreduce c). holds_jobs (disk w') (Nreduce c) r (map_output fs mapf c) (set js)"
    using run_maps_ok [OF assms w(2)] by fastforce
  moreover obtain pool where "run_pool createOk fs mapf c ws = Inr pool"
    "list_all2 (\<lambda>(w, js) w'. same_worker w w' \<and>
        (\<forall>r<nat (Nreduce c). holds_jobs (disk w') (Nreduce c) r (map_output fs mapf c) (set js))) ws pool"
    using Cons by auto
  ultimately show ?case by (simp add: wj)
qed simp

lemma run_pool_pool_ok:
  assumes "\<forall>(w, js)\<in>set ws. fresh_worker c w \<and> distinct js"
    and "list_all2 (\<lambda>(w, js) w'. same_worker w w' \<and>
        (\<forall>r<nat (Nreduce c). holds_jobs (disk w') (Nreduce c) r outp (set js))) ws pool"
    and "distinct (map (w_WorkerId \<circ> fst) ws)" "distinct (map (w_IpAddress \<circ> fst) ws)"
    and "R \<subseteq> {..<nat (Nreduce c)}"
  shows "pool_ok pool (Nreduce c) outp (map snd ws) R"
proof -
  have len: "length pool = length ws" using assms(2) by (simp add: list_all2_lengthD)
  have nth: "same_worker (fst (ws ! k)) (pool ! k)"
    "\<forall>r<nat (Nreduce c). holds_jobs (disk (pool ! k)) (Nreduce c) r outp (set (snd (ws ! k)))"
    "fresh_worker c (fst (ws ! k))" "distinct (snd (ws ! k))" if "k < length ws" for k
    using list_all2_nthD [OF assms(2) that] assms(1) nth_mem [OF that] by (auto simp: case_prod_unfold)
  have "map w_WorkerId pool = map (w_WorkerId \<circ> fst) ws" "map w_IpAddress pool = map (w_IpAddress \<circ> fst) ws"
    using len nth(1) by (auto intro!: nth_equalityI simp: same_worker_def)
  with assms(3-5) len nth show ?thesis
    by (auto simp: pool_ok_def same_worker_def fresh_worker_def)
qed

lemma reducer_lines:
  assumes of: "order_free reducef" and srt: "sorts_by_key srt" and n: "0 < n"
    and rs: "mset rs = mset [0..<nat n]"
    and kvss: "list_all2 (\<lambda>r kvs. mset kvs = mset (bucket n r all)) rs kvss"
  shows "(\<Sum>kvs\<leftarrow>kvss. mset (group_lines reducef (srt kvs))) = mset (group_lines reducef (srt all))"
proof -
  have eq: "map (\<lambda>kvs. mset (group_lines reducef (srt kvs))) kvss =
      map (\<lambda>r. key_lines reducef all {k \<in> Key ` set all. bucket_of n k = int r}) rs"
  proof (rule nth_equalityI)
    show len: "length (map (\<lambda>kvs. mset (group_lines reducef (srt kvs))) kvss) =
        length (map (\<lambda>r. key_lines reducef all {k \<in> Key ` set all. bucket_of n k = int r}) rs)"
      using list_all2_lengthD [OF kvss] by simp
    fix i assume "i < length (map (\<lambda>kvs. mset (group_lines reducef (srt kvs))) kvss)"
    then have i: "i < length rs" "i < length kvss" using len by simp_all
    show "map (\<lambda>kvs. mset (group_lines reducef (srt kvs))) kvss ! i =
        map (\<lambda>r. key_lines reducef all {k \<in> Key ` set all. bucket_of n k = int r}) rs ! i"
      using bucket_lines [OF of srt list_all2_nthD [OF kvss i(1)]] i by simp
  qed
  have "distinct rs" using rs by (metis distinct_upt mset_eq_imp_distinct_iff)
  note sum = key_lines_buckets [OF this, of reducef all n]
  have "set rs = {0..<nat n}" using mset_eq_setD [OF rs] by simp
  then have "\<exists>r\<in>set rs. bucket_of n k = int r" for k
    using bucket_of_bounds [OF n, of k] by (intro bexI [of _ "nat (bucket_of n k)"]) simp_all
  then have "{k \<in> Key ` set all. \<exists>r\<in>set rs. bucket_of n k = int r} = Key ` set all" by blast
  with eq sum sorted_lines [OF of srt, of all] show ?thesis by simp
qed

lemma jobs_ok:
  assumes "mset (concat (map snd ws)) = mset [0..<m]" "(w, js) \<in> set ws"
  shows "distinct js" "\<forall>j\<in>set js. j < m"
proof -
  have js: "js \<in> set (map snd ws)" using assms(2) by force
  have "distinct (concat (map snd ws))" using assms(1) by (metis distinct_upt mset_eq_imp_distinct_iff)
  then show "distinct js" using js by (simp only: distinct_concat_iff)
  have "set js \<subseteq> set (concat (map snd ws))" using js unfolding set_concat by blast
  then show "\<forall>j\<in>set js. j < m" using mset_eq_setD [OF assms(1)] by auto
qed

lemma all_pairs_files:
  assumes "files (mapper c) = fls"
  shows "all_pairs (length fls) (map_output fs mapf c) = concat (map (\<lambda>f. mapf f (file_text fs f)) fls)"
proof -
  have "map (map_output fs mapf c) [0..<length fls] = map (\<lambda>f. mapf f (file_text fs f)) (map ((!) fls) [0..<length fls])"
    unfolding map_map using assms by (intro map_cong) (simp_all add: map_output_def)
  then show ?thesis by (simp add: all_pairs_def map_nth)
qed


end
