(* ===== verification/MR_Apps.thy ===== *)
theory MR_Apps
  imports MapReduce_Equiv Coordinator_Props
begin

text \<open>
  The MapReduce applications (\<^verbatim>\<open>mrapps\<close>): their map and reduce functions, that the reduce
  functions do not depend on the order of the values, and what word count computes.  Letters
  are those of ASCII.  Sleeping has no effect on the results; the random choice to crash is
  the parameter \<open>crash\<close>; process numbers and directory listings are parameters too.
\<close>

section \<open>Word count\<close>

text \<open>\<^verbatim>\<open>strings.FieldsFunc\<close>: the maximal runs of characters that are no separators.\<close>

fun fields_loop :: "(char \<Rightarrow> bool) \<Rightarrow> string \<Rightarrow> string \<Rightarrow> string list" where
  "fields_loop ff cur [] = (if cur = [] then [] else [cur])"
| "fields_loop ff cur (c # s) =
     (if ff c then (if cur = [] then fields_loop ff [] s else cur # fields_loop ff [] s)
      else fields_loop ff (cur @ [c]) s)"

definition FieldsFunc :: "string \<Rightarrow> (char \<Rightarrow> bool) \<Rightarrow> string list" where
  "FieldsFunc s ff = fields_loop ff [] s"

definition IsLetter :: "char \<Rightarrow> bool" where
  "IsLetter c \<longleftrightarrow> (let n = of_char c :: nat in (65 \<le> n \<and> n \<le> 90) \<or> (97 \<le> n \<and> n \<le> 122))"

definition wc_Map :: "string \<Rightarrow> string \<Rightarrow> KeyValue list" where
  "wc_Map filename contents =
     (let words = FieldsFunc contents (\<lambda>r. \<not> IsLetter r)
      in map (\<lambda>w. \<lparr>Key = w, Value = ''1''\<rparr>) words)"

definition wc_Reduce :: "string \<Rightarrow> string list \<Rightarrow> string" where
  "wc_Reduce key vals = Itoa (int (length vals))"

section \<open>Inverted index\<close>

definition indexer_Map :: "(string list \<Rightarrow> string list) \<Rightarrow> string \<Rightarrow> string \<Rightarrow> KeyValue list" where
  "indexer_Map ord document value =
     (let words = FieldsFunc value (\<lambda>x. \<not> IsLetter x);
          m = fold (\<lambda>w. al_put w True) words []
      in map (\<lambda>w. \<lparr>Key = w, Value = document\<rparr>) (ord (map fst m)))"

definition indexer_Reduce :: "string \<Rightarrow> string list \<Rightarrow> string" where
  "indexer_Reduce key vals =
     (let vs = sort vals in Itoa (int (length vs)) @ '' '' @ Join vs '','')"

section \<open>Test applications\<close>

definition maybeCrash :: "bool \<Rightarrow> unit go" where
  "maybeCrash crash = (if crash then Inl (Exit 1) else Inr ())"

definition crash_Map :: "bool \<Rightarrow> string \<Rightarrow> string \<Rightarrow> KeyValue list go" where
  "crash_Map crash filename contents =
     go_bind (maybeCrash crash) (\<lambda>_.
       Inr [\<lparr>Key = ''a'', Value = filename\<rparr>,
            \<lparr>Key = ''b'', Value = Itoa (int (length filename))\<rparr>,
            \<lparr>Key = ''c'', Value = Itoa (int (length contents))\<rparr>,
            \<lparr>Key = ''d'', Value = ''xyzzy''\<rparr>])"

definition crash_Reduce :: "bool \<Rightarrow> string \<Rightarrow> string list \<Rightarrow> string go" where
  "crash_Reduce crash key vals =
     go_bind (maybeCrash crash) (\<lambda>_. let vv = sort vals in Inr (Join vv '' ''))"

text \<open>\<^verbatim>\<open>nocrash.go\<close>: the condition of \<^verbatim>\<open>maybeCrash\<close> is a conjunction with false.\<close>

definition nocrash_maybeCrash :: "bool \<Rightarrow> unit go" where
  "nocrash_maybeCrash r = (if False \<and> r then Inl (Exit 1) else Inr ())"

definition nocrash_Map :: "bool \<Rightarrow> string \<Rightarrow> string \<Rightarrow> KeyValue list go" where
  "nocrash_Map r filename contents =
     go_bind (nocrash_maybeCrash r) (\<lambda>_.
       Inr [\<lparr>Key = ''a'', Value = filename\<rparr>,
            \<lparr>Key = ''b'', Value = Itoa (int (length filename))\<rparr>,
            \<lparr>Key = ''c'', Value = Itoa (int (length contents))\<rparr>,
            \<lparr>Key = ''d'', Value = ''xyzzy''\<rparr>])"

definition nocrash_Reduce :: "bool \<Rightarrow> string \<Rightarrow> string list \<Rightarrow> string go" where
  "nocrash_Reduce r key vals =
     go_bind (nocrash_maybeCrash r) (\<lambda>_. let vv = sort vals in Inr (Join vv '' ''))"

definition early_exit_Map :: "string \<Rightarrow> string \<Rightarrow> KeyValue list" where
  "early_exit_Map filename contents = [\<lparr>Key = filename, Value = ''1''\<rparr>]"

definition early_exit_Reduce :: "string \<Rightarrow> string list \<Rightarrow> string" where
  "early_exit_Reduce key vals = Itoa (int (length vals))"

text \<open>\<^verbatim>\<open>jobcount.go\<close>: the map function creates a file per call; the state is the counter and the directory.\<close>

definition jobcount_Map :: "int \<Rightarrow> nat \<times> string list \<Rightarrow> (nat \<times> string list) \<times> KeyValue list" where
  "jobcount_Map me st =
     (case st of (cnt, names) \<Rightarrow>
        ((cnt + 1, (''mr-worker-jobcount-'' @ Itoa me @ ''-'' @ Itoa (int cnt)) # names),
         [\<lparr>Key = ''a'', Value = ''x''\<rparr>]))"

definition jobcount_Reduce :: "string list \<Rightarrow> string \<Rightarrow> string list \<Rightarrow> string" where
  "jobcount_Reduce names key vals =
     Itoa (int (length (filter (\<lambda>n. take (length ''mr-worker-jobcount'') n = ''mr-worker-jobcount'') names)))"

definition rtiming_Map :: "string \<Rightarrow> string \<Rightarrow> KeyValue list" where
  "rtiming_Map filename contents =
     map (\<lambda>k. \<lparr>Key = [k], Value = ''1''\<rparr>) ''abcdefghij''"

definition mtiming_Reduce :: "string \<Rightarrow> string list \<Rightarrow> string" where
  "mtiming_Reduce key vals = (let vv = sort vals in Join vv '' '')"

section \<open>The reduce functions\<close>

lemma sort_mset_eq: "mset vs = mset vs' \<Longrightarrow> sort vs = sort (vs' :: string list)"
  by (metis mset_sort properties_for_sort sorted_sort)

lemma wc_order_free: "order_free wc_Reduce"
  by (auto simp: order_free_def wc_Reduce_def dest: mset_eq_length)

text \<open>the results of all the applications' reduce functions are independent of the order in
  which the values arrive, which is the condition under which the distributed and the
  sequential runs agree.\<close>

theorem apps_order_free:
  "order_free wc_Reduce \<and> order_free indexer_Reduce \<and> order_free early_exit_Reduce \<and>
   order_free (jobcount_Reduce names) \<and> order_free mtiming_Reduce \<and>
   (mset vs = mset vs' \<longrightarrow> crash_Reduce crash k vs = crash_Reduce crash k vs' \<and>
      nocrash_Reduce crash k vs = nocrash_Reduce crash k vs')"
proof -
  have "order_free indexer_Reduce" "order_free mtiming_Reduce"
    unfolding order_free_def indexer_Reduce_def mtiming_Reduce_def using sort_mset_eq by metis+
  moreover have "order_free early_exit_Reduce"
    by (auto simp: order_free_def early_exit_Reduce_def dest: mset_eq_length)
  moreover have "order_free (jobcount_Reduce names)"
    by (simp add: order_free_def jobcount_Reduce_def)
  moreover have "crash_Reduce crash k vs = crash_Reduce crash k vs'"
    "nocrash_Reduce crash k vs = nocrash_Reduce crash k vs'" if "mset vs = mset vs'"
    using sort_mset_eq [OF that] by (simp_all add: crash_Reduce_def nocrash_Reduce_def)
  ultimately show ?thesis using wc_order_free by blast
qed

theorem apps_order_free_witness:
  "crash_Reduce False ''k'' [''b'', ''a''] = Inr ''a b'' \<and>
   crash_Reduce False ''k'' [''b'', ''a''] = crash_Reduce False ''k'' [''a'', ''b'']"
proof -
  have "crash_Reduce False ''k'' [''b'', ''a''] = Inr ''a b''" by code_simp
  moreover have "mset [''b'', ''a''] = mset [''a'', ''b'']" by simp
  ultimately show ?thesis using apps_order_free [of "[]" "[''b'', ''a'']" "[''a'', ''b'']" False "''k''"] by blast
qed

section \<open>What word count computes\<close>

abbreviation words_of :: "string \<Rightarrow> string list" where
  "words_of s \<equiv> FieldsFunc s (\<lambda>r. \<not> IsLetter r)"

lemma fields_loop_concat: "concat (fields_loop ff cur s) = cur @ filter (\<lambda>c. \<not> ff c) s"
  by (induction ff cur s rule: fields_loop.induct) auto

lemma fields_loop_words:
  "\<forall>c\<in>set cur. \<not> ff c \<Longrightarrow> w \<in> set (fields_loop ff cur s) \<Longrightarrow> w \<noteq> [] \<and> (\<forall>c\<in>set w. \<not> ff c)"
proof (induction s arbitrary: cur)
  case (Cons c s)
  have rest: "w \<in> set (fields_loop ff [] s) \<Longrightarrow> w \<noteq> [] \<and> (\<forall>c\<in>set w. \<not> ff c)"
    by (rule Cons.IH [of "[]"]) simp_all
  show ?case
  proof (cases "ff c")
    case True
    with Cons.prems rest show ?thesis by (cases "cur = []") (simp, force)
  next
    case False
    show ?thesis by (rule Cons.IH [of "cur @ [c]"]) (use Cons.prems False in auto)
  qed
qed (simp split: if_splits)

lemma values_of_wc: "length (values_of w (wc_Map f s)) = count_list (words_of s) w"
proof -
  have "length (values_of w (map (\<lambda>w. \<lparr>Key = w, Value = ''1''\<rparr>) ws)) = count_list ws w" for ws
    by (induction ws) (auto simp: values_of_def)
  then show ?thesis by (simp add: wc_Map_def)
qed

lemma values_of_concat: "values_of k (concat kvss) = concat (map (values_of k) kvss)"
  by (induction kvss) (simp_all add: values_of_def)

lemma count_list_concat: "count_list (concat xss) x = (\<Sum>xs\<leftarrow>xss. count_list xs x)"
  by (induction xss) simp_all

lemma wc_values:
  "length (values_of w (concat (map (\<lambda>f. wc_Map f (text f)) fls))) =
   count_list (concat (map (\<lambda>f. words_of (text f)) fls)) w"
  by (simp add: values_of_concat count_list_concat length_concat values_of_wc comp_def)

lemma wc_keys: "Key ` set (concat (map (\<lambda>f. wc_Map f (text f)) fls)) = set (concat (map (\<lambda>f. words_of (text f)) fls))"
  by (simp add: image_UN wc_Map_def image_image)


section \<open>Concrete runs\<close>

definition demo_worker :: "int \<Rightarrow> string \<Rightarrow> WorkerProcess" where
  "demo_worker i addr = \<lparr>IsSetup = True, w_IpAddress = addr, w_WorkerId = i,
     CompletedMapTasks = [False, False], CompletedReduceTasks = [False, False], CoordAddress = ''c'',
     w_port = ''1'', disk = []\<rparr>"

definition demo_coord :: Coordinator where
  "demo_coord = projr (MakeCoordinator ''ip'' [''f'', ''g''] 2)"

lemma sort_key_sorts: "sorts_by_key (sort_key Key)"
  by (simp add: sorts_by_key_def)


lemma demo_coord_simps [simp]: "Nreduce demo_coord = 2" "files (mapper demo_coord) = [''f'', ''g'']"
  by (simp_all add: demo_coord_def MakeCoordinator_def Let_def)


section \<open>A map job that was run twice\<close>

text \<open>
  When a map job is handed out a second time because its first worker was slow, and both
  workers finish it, both stay registered as holders of map output and the reducers fetch the
  bucket from both.
\<close>

definition slow_mapper_run :: "mr_event list" where
  "slow_mapper_run =
     [Setup ''h1'', Setup ''h2'', Request 1] @ replicate 10 Tick @ [Request 2, report MAP 0 2, report MAP 0 1]"


end
