(* ===== verification/Chord_Util.thy ===== *)
theory Chord_Util
  imports Prelude
begin

text \<open>
  Identifiers of the Chord ring (\<^verbatim>\<open>Lab3_Chord/chordUtil.go\<close>): arithmetic modulo \<open>2^160\<close>,
  finger offsets and the interval test.  \<open>sha\<close> is the SHA-1 digest of a string read as a
  big-endian number.  The interval test is characterised by the clockwise distance on the ring,
  from which the other theories reason.
\<close>

type_synonym NodeAddress = string

definition keySize :: nat where "keySize = 160"

definition hashMod :: int where "hashMod = 2 ^ keySize"

definition mod_id :: "int \<Rightarrow> int" where
  "mod_id x = x mod hashMod"

definition hashString :: "(string \<Rightarrow> int) \<Rightarrow> NodeAddress \<Rightarrow> int" where
  "hashString sha elt = mod_id (sha elt)"

text \<open>\<^verbatim>\<open>big.Int.Exp\<close> without modulus gives 1 for exponents that are not positive.\<close>

definition big_exp2 :: "int \<Rightarrow> int" where
  "big_exp2 y = (if y \<le> 0 then 1 else 2 ^ nat y)"

definition jump :: "(string \<Rightarrow> int) \<Rightarrow> NodeAddress \<Rightarrow> int \<Rightarrow> int" where
  "jump sha address fingerentry =
     (hashString sha address + big_exp2 (fingerentry - 1)) mod hashMod"

definition jumpIdentifier :: "int \<Rightarrow> int \<Rightarrow> int" where
  "jumpIdentifier identifier fingerentry = (identifier + big_exp2 (fingerentry - 1)) mod hashMod"

definition between :: "int \<Rightarrow> int \<Rightarrow> int \<Rightarrow> bool \<Rightarrow> bool" where
  "between start elt end' inclusive =
     (if end' > start
      then (start < elt \<and> elt < end') \<or> (inclusive \<and> elt = end')
      else start < elt \<or> elt < end' \<or> (inclusive \<and> elt = end'))"

text \<open>\<^verbatim>\<open>big.Int.SetString\<close> with base 16: an optional sign and at least one hexadecimal digit.\<close>

definition hex_digit :: "char \<Rightarrow> int option" where
  "hex_digit c =
     (let n = of_char c :: int in
      if 48 \<le> n \<and> n \<le> 57 then Some (n - 48)
      else if 97 \<le> n \<and> n \<le> 102 then Some (n - 87)
      else if 65 \<le> n \<and> n \<le> 70 then Some (n - 55)
      else None)"

fun hex_value :: "int \<Rightarrow> string \<Rightarrow> int option" where
  "hex_value acc [] = Some acc"
| "hex_value acc (c # s) =
     (case hex_digit c of None \<Rightarrow> None | Some d \<Rightarrow> hex_value (16 * acc + d) s)"

definition SetString16 :: "string \<Rightarrow> int option" where
  "SetString16 s =
     (case s of
        [] \<Rightarrow> None
      | c # r \<Rightarrow>
          if c = CHR ''-'' then (if r = [] then None else map_option uminus (hex_value 0 r))
          else if c = CHR ''+'' then (if r = [] then None else hex_value 0 r)
          else hex_value 0 s)"

definition getIdentifier :: "(string \<Rightarrow> int) \<Rightarrow> NodeAddress \<Rightarrow> string \<Rightarrow> int go" where
  "getIdentifier sha address specified =
     (if specified = ''XXX'' then Inr (hashString sha address)
      else
        (case SetString16 specified of
           None \<Rightarrow> Inl (Fatal ''Specified identifier parse error'')
         | Some n \<Rightarrow> Inr (n mod hashMod)))"

definition verifyRange :: "int \<Rightarrow> int \<Rightarrow> int \<Rightarrow> bool" where
  "verifyRange stabilize fixFingers checkPred =
     (let stab = (stabilize > 0 \<and> stabilize < 60001);
          finger = (fixFingers > 0 \<and> fixFingers < 60001);
          check = (checkPred > 0 \<and> checkPred < 60001)
      in stab \<and> finger \<and> check)"

section \<open>The ring\<close>

definition on_ring :: "int \<Rightarrow> bool" where
  "on_ring x \<longleftrightarrow> 0 \<le> x \<and> x < hashMod"

text \<open>The clockwise distance from \<open>s\<close> to \<open>x\<close>; a full turn from \<open>s\<close> to itself.\<close>

definition cw :: "int \<Rightarrow> int \<Rightarrow> int" where
  "cw s x = (if x = s then hashMod else (x - s) mod hashMod)"

lemma hashMod_pos [simp]: "0 < hashMod"
  by (simp add: hashMod_def)

lemma on_ring_mod [simp]: "on_ring (x mod hashMod)"
  by (simp add: on_ring_def)

lemma on_ring_hashString [simp]: "on_ring (hashString sha a)"
  by (simp add: hashString_def mod_id_def)

lemma on_ring_jumpIdentifier [simp]: "on_ring (jumpIdentifier x n)"
  by (simp add: jumpIdentifier_def)

lemma cw_cases:
  assumes "on_ring s" "on_ring x"
  shows "cw s x = (if s < x then x - s else x - s + hashMod)"
proof -
  have "(x - s) mod hashMod = (if s \<le> x then x - s else x - s + hashMod)"
  proof (cases "s \<le> x")
    case True
    then show ?thesis using assms by (simp add: on_ring_def)
  next
    case False
    then have "(x - s + hashMod) mod hashMod = x - s + hashMod"
      using assms by (intro mod_pos_pos_trivial) (simp_all add: on_ring_def)
    then show ?thesis using False by simp
  qed
  then show ?thesis by (simp add: cw_def)
qed

lemma cw_bounds: "on_ring s \<Longrightarrow> on_ring x \<Longrightarrow> 0 < cw s x \<and> cw s x \<le> hashMod"
  by (auto simp: cw_cases on_ring_def)

lemma cw_inj: "on_ring s \<Longrightarrow> on_ring x \<Longrightarrow> on_ring y \<Longrightarrow> cw s x = cw s y \<longleftrightarrow> x = y"
  by (auto simp: cw_cases on_ring_def split: if_splits)

lemma between_cw:
  "on_ring s \<Longrightarrow> on_ring x \<Longrightarrow> on_ring e \<Longrightarrow> between s x e inclusive \<longleftrightarrow> cw s x < cw s e \<or> (inclusive \<and> x = e)"
  by (auto simp: cw_cases between_def on_ring_def)

lemma between_incl_cw: "on_ring s \<Longrightarrow> on_ring x \<Longrightarrow> on_ring e \<Longrightarrow> between s x e True \<longleftrightarrow> cw s x \<le> cw s e"
  using cw_inj [of s x e] by (auto simp: between_cw)

text \<open>Measured from \<open>s\<close>, an interval that starts at \<open>t\<close>.\<close>

lemma cw_shift:
  assumes "on_ring s" "on_ring t" "on_ring x"
  shows "cw t x = (if cw s t < cw s x then cw s x - cw s t else cw s x - cw s t + hashMod)"
  using assms by (auto simp: cw_cases on_ring_def)

end
