(* ===== verification/Chord_Node.thy ===== *)
theory Chord_Node
  imports Chord_Util
begin

text \<open>
  A Chord node (\<^verbatim>\<open>Lab3_Chord/chordTypes.go\<close>, \<^verbatim>\<open>rpc.go\<close>, \<^verbatim>\<open>chord.go\<close>): its state, the messages,
  initialisation, the search for a successor and the handlers that other nodes call.  The
  address ''X'' stands for an unknown node, as in the source.  Slices are indexed with checks;
  the certificate pool and the mutex are left out, and trace output has no effect.
\<close>

section \<open>Types\<close>

type_synonym RetCode = int

definition SOLONODE :: RetCode where "SOLONODE = 0"
definition MYSUCC :: RetCode where "MYSUCC = 1"
definition IAMSUCC :: RetCode where "IAMSUCC = 2"
definition PASSALONG :: RetCode where "PASSALONG = 3"

lemmas retcode_defs [simp] = SOLONODE_def MYSUCC_def IAMSUCC_def PASSALONG_def

type_synonym FileStat = int

definition FILEOK :: FileStat where "FILEOK = 0"
definition NOSUCHFILE :: FileStat where "NOSUCHFILE = 1"
definition READERR :: FileStat where "READERR = 2"
definition CREATEERR :: FileStat where "CREATEERR = 3"
definition WRITEERR :: FileStat where "WRITEERR = 4"

lemmas filestat_defs [simp] = FILEOK_def NOSUCHFILE_def READERR_def CREATEERR_def WRITEERR_def

record FingerEntry =
  f_Identifier :: int
  f_NodeAddress :: NodeAddress

record NodeInfo =
  Identifier :: int
  NodeAddress :: NodeAddress
  Predecessor :: NodeAddress
  NextFinger :: int
  FingerTable :: "FingerEntry list"
  Successors :: "NodeAddress list"
  JoinPending :: bool

record Timings =
  t_Stabilize :: int
  t_FixFingers :: int
  t_CheckPred :: int

record Chord =
  protocol :: string
  node :: NodeInfo
  numSucc :: int
  joinNodeIp :: string
  joinNodePort :: string
  intervalTimings :: Timings
  stored :: "string list"
  replicatedFiles :: "string list"
  encKey :: string
  verbose :: bool
  local_fs :: "(string \<times> string) list"

record JoinRequest =
  jr_NodeAddress :: NodeAddress
  jr_Identifier :: int

record Response =
  IsSuccessor :: bool
  r_NodeAddress :: NodeAddress
  r_Identifier :: int

record StabilizeRequest =
  sr_NodeAddress :: NodeAddress
  sr_Identifier :: int

record StabilizeResponse =
  YouGood :: bool
  sp_NewPredAddress :: NodeAddress
  NodeSuccessors :: "NodeAddress list"

record FindRequest =
  QueryIdentifier :: int
  QueryNodeAddress :: NodeAddress

record NotifyRequest =
  nr_NodeAddress :: NodeAddress
  nr_Identifier :: int

record NotifyResponse =
  Success :: bool
  np_NewPredAddress :: NodeAddress

definition zero_Response :: Response where
  "zero_Response = \<lparr>IsSuccessor = False, r_NodeAddress = '''', r_Identifier = 0\<rparr>"

definition zero_StabilizeResponse :: StabilizeResponse where
  "zero_StabilizeResponse = \<lparr>YouGood = False, sp_NewPredAddress = '''', NodeSuccessors = []\<rparr>"

definition zero_NotifyResponse :: NotifyResponse where
  "zero_NotifyResponse = \<lparr>Success = False, np_NewPredAddress = ''''\<rparr>"

definition zero_FingerEntry :: FingerEntry where
  "zero_FingerEntry = \<lparr>f_Identifier = 0, f_NodeAddress = ''''\<rparr>"

text \<open>Updates of one field of the node.\<close>

definition set_pred :: "NodeAddress \<Rightarrow> Chord \<Rightarrow> Chord" where
  "set_pred a chord = chord\<lparr>node := (node chord)\<lparr>Predecessor := a\<rparr>\<rparr>"

definition set_succs :: "NodeAddress list \<Rightarrow> Chord \<Rightarrow> Chord" where
  "set_succs as chord = chord\<lparr>node := (node chord)\<lparr>Successors := as\<rparr>\<rparr>"

definition set_succ :: "int \<Rightarrow> NodeAddress \<Rightarrow> Chord \<Rightarrow> Chord go" where
  "set_succ n a chord = go_bind (slice_set (Successors (node chord)) n a) (\<lambda>as. Inr (set_succs as chord))"

definition set_fingers :: "FingerEntry list \<Rightarrow> Chord \<Rightarrow> Chord" where
  "set_fingers ft chord = chord\<lparr>node := (node chord)\<lparr>FingerTable := ft\<rparr>\<rparr>"

definition set_finger :: "int \<Rightarrow> NodeAddress \<Rightarrow> Chord \<Rightarrow> Chord go" where
  "set_finger n a chord =
     go_bind (slice_get (FingerTable (node chord)) n) (\<lambda>f.
     go_bind (slice_set (FingerTable (node chord)) n (f\<lparr>f_NodeAddress := a\<rparr>)) (\<lambda>ft.
       Inr (set_fingers ft chord)))"

section \<open>Initialisation\<close>

definition getArgs ::
  "(string \<Rightarrow> int) \<Rightarrow> bool \<Rightarrow> string \<Rightarrow> string \<Rightarrow> string \<Rightarrow> string \<Rightarrow> int \<Rightarrow> int \<Rightarrow> int \<Rightarrow> string \<Rightarrow> string \<Rightarrow> int \<Rightarrow> bool \<Rightarrow>
   (string \<times> string) list \<Rightarrow> Chord go" where
  "getArgs sha certOk address portvar joinAddress joinPort stabilize fixFingers checkPred encode identifier nSucc verb fs =
     (if \<not> verifyRange stabilize fixFingers checkPred then Inl (Fatal ''Arguments for --ts --tff --tcp not in range'')
      else if \<not> certOk then Inl (Fatal ''Cannot load certificate'')
      else
        let nodeAddress = address @ '':'' @ portvar in
        go_bind (getIdentifier sha nodeAddress identifier) (\<lambda>i.
          if nSucc < 0 then Inl MakeSliceLen
          else Inr
            \<lparr>protocol = ''tcp'',
             node = \<lparr>Identifier = i, NodeAddress = nodeAddress, Predecessor = '''', NextFinger = 0,
                     FingerTable = replicate (keySize + 1) zero_FingerEntry,
                     Successors = replicate (nat nSucc) '''', JoinPending = True\<rparr>,
             numSucc = nSucc, joinNodeIp = joinAddress, joinNodePort = joinPort,
             intervalTimings = \<lparr>t_Stabilize = stabilize, t_FixFingers = fixFingers, t_CheckPred = checkPred\<rparr>,
             stored = [], replicatedFiles = [], encKey = encode, verbose = verb, local_fs = fs\<rparr>))"

definition initClient :: "Chord \<Rightarrow> Chord go" where
  "initClient chord =
     (let nd = node chord;
          ft = map (\<lambda>(n, f). if n = 0 then f
                      else \<lparr>f_Identifier = jumpIdentifier (Identifier nd) (int n), f_NodeAddress = NodeAddress nd\<rparr>)
                 (zip [0..<length (FingerTable nd)] (FingerTable nd))
      in go_bind (slice_set ft 0 \<lparr>f_Identifier = Identifier nd, f_NodeAddress = NodeAddress nd\<rparr>) (\<lambda>ft'.
           Inr (chord\<lparr>node := nd\<lparr>Successors := map (\<lambda>_. NodeAddress nd) (Successors nd),
                                  FingerTable := ft', Predecessor := ''X''\<rparr>\<rparr>)))"

definition Create :: "Chord \<Rightarrow> Chord go" where
  "Create chord =
     go_bind (set_succ 0 (NodeAddress (node chord)) chord) (\<lambda>chord'.
       Inr (set_pred (NodeAddress (node chord)) chord'))"

section \<open>Finding a successor\<close>

fun closestPreceedingNode_loop :: "Chord \<Rightarrow> int \<Rightarrow> nat \<Rightarrow> Response \<Rightarrow> (Response \<times> RetCode) go" where
  "closestPreceedingNode_loop chord identifier 0 joinResp =
     go_bind (slice_get (Successors (node chord)) 0) (\<lambda>s.
       Inr (joinResp\<lparr>r_NodeAddress := s\<rparr>, PASSALONG))"
| "closestPreceedingNode_loop chord identifier (Suc n) joinResp =
     go_bind (slice_get (FingerTable (node chord)) (int (Suc n))) (\<lambda>f.
       if between (Identifier (node chord)) identifier (f_Identifier f) True
       then Inr (joinResp\<lparr>r_Identifier := f_Identifier f, r_NodeAddress := f_NodeAddress f\<rparr>, PASSALONG)
       else closestPreceedingNode_loop chord identifier n joinResp)"

definition closestPreceedingNode :: "Chord \<Rightarrow> int \<Rightarrow> Response \<Rightarrow> (Response \<times> RetCode) go" where
  "closestPreceedingNode chord identifier joinResp =
     closestPreceedingNode_loop chord identifier keySize joinResp"

fun find_loop ::
  "(string \<Rightarrow> int) \<Rightarrow> Chord \<Rightarrow> int \<Rightarrow> NodeAddress list \<Rightarrow> Response \<Rightarrow> (Response \<times> RetCode) go" where
  "find_loop sha chord identifier [] response = closestPreceedingNode chord identifier response"
| "find_loop sha chord identifier (s # ss) response =
     (if s = ''X'' then
        Inr (\<lparr>IsSuccessor = True, r_NodeAddress = NodeAddress (node chord), r_Identifier = Identifier (node chord)\<rparr>, SOLONODE)
      else
        let currSucc = hashString sha s in
        if between (Identifier (node chord)) identifier currSucc True then
          Inr (\<lparr>IsSuccessor = True, r_NodeAddress = s, r_Identifier = currSucc\<rparr>, MYSUCC)
        else
          let pred = hashString sha (Predecessor (node chord)) in
          if between pred identifier (Identifier (node chord)) True then
            Inr (\<lparr>IsSuccessor = True, r_NodeAddress = NodeAddress (node chord), r_Identifier = Identifier (node chord)\<rparr>, IAMSUCC)
          else find_loop sha chord identifier ss response)"

definition find_node :: "(string \<Rightarrow> int) \<Rightarrow> Chord \<Rightarrow> int \<Rightarrow> Response \<Rightarrow> (Response \<times> RetCode) go" where
  "find_node sha chord identifier response =
     find_loop sha chord identifier (Successors (node chord)) response"

section \<open>Handlers\<close>

definition FindSuccessor :: "(string \<Rightarrow> int) \<Rightarrow> Chord \<Rightarrow> FindRequest \<Rightarrow> Response \<Rightarrow> Response go" where
  "FindSuccessor sha chord findReq findResp =
     go_bind (find_node sha chord (QueryIdentifier findReq) findResp) (\<lambda>(resp, retCode).
       if retCode = PASSALONG then
         let resp' = resp\<lparr>IsSuccessor := False\<rparr> in
         if r_NodeAddress resp' = ''X''
         then go_bind (slice_get (Successors (node chord)) 0) (\<lambda>s. Inr (resp'\<lparr>r_NodeAddress := s\<rparr>))
         else Inr resp'
       else Inr resp)"

definition Stabilize :: "Chord \<Rightarrow> StabilizeRequest \<Rightarrow> StabilizeResponse \<Rightarrow> Chord \<times> StabilizeResponse" where
  "Stabilize chord req resp =
     (if Predecessor (node chord) = ''X'' then
        (set_pred (sr_NodeAddress req) chord,
         resp\<lparr>YouGood := True, NodeSuccessors := Successors (node chord)\<rparr>)
      else if Predecessor (node chord) = sr_NodeAddress req then
        (chord, resp\<lparr>YouGood := True, NodeSuccessors := Successors (node chord)\<rparr>)
      else (chord, resp\<lparr>YouGood := False, sp_NewPredAddress := Predecessor (node chord)\<rparr>))"

definition Notify :: "(string \<Rightarrow> int) \<Rightarrow> Chord \<Rightarrow> NotifyRequest \<Rightarrow> NotifyResponse \<Rightarrow> Chord \<times> NotifyResponse" where
  "Notify sha chord req resp =
     (if Predecessor (node chord) = ''X'' \<or> Predecessor (node chord) = nr_NodeAddress req then
        (set_pred (nr_NodeAddress req) chord, resp\<lparr>Success := True\<rparr>)
      else
        let pred = hashString sha (Predecessor (node chord)) in
        if between pred (nr_Identifier req) (Identifier (node chord)) True
        then (set_pred (nr_NodeAddress req) chord, resp\<lparr>Success := True\<rparr>)
        else (chord, resp\<lparr>Success := False, np_NewPredAddress := Predecessor (node chord)\<rparr>))"

definition Join_node :: "(string \<Rightarrow> int) \<Rightarrow> Chord \<Rightarrow> JoinRequest \<Rightarrow> Response \<Rightarrow> (Chord \<times> Response) go" where
  "Join_node sha chord joinReq resp =
     go_bind (find_node sha chord (jr_Identifier joinReq) resp) (\<lambda>(r, retCode).
       if retCode = MYSUCC then
         go_bind (set_succ 0 (jr_NodeAddress joinReq) chord) (\<lambda>chord'. Inr (chord', r))
       else if retCode = SOLONODE then
         go_bind (set_succ 0 (jr_NodeAddress joinReq) chord) (\<lambda>chord'. Inr (chord', r))
       else if retCode = IAMSUCC then Inr (set_pred (r_NodeAddress r) chord, r)
       else Inr (chord, r\<lparr>IsSuccessor := False\<rparr>))"

definition CheckPred :: "Chord \<Rightarrow> Chord" where
  "CheckPred chord = chord"

end
