(* ===== verification/Chord_Client.thy ===== *)
theory Chord_Client
  imports Chord_Node
begin

text \<open>
  The active side of a Chord node (\<^verbatim>\<open>Lab3_Chord/chordRPC.go\<close> and the interval functions of
  \<^verbatim>\<open>chord.go\<close>).  Answers of other nodes are parameters: \<open>net\<close> maps the address and the request to
  the answer, or to \<open>None\<close> when the call fails.  Goroutines that are started are returned as the
  address they will call.
\<close>

section \<open>Successor lists and fingers\<close>

fun verifySuccs_loop :: "StabilizeResponse \<Rightarrow> int list \<Rightarrow> Chord \<Rightarrow> Chord go" where
  "verifySuccs_loop resp [] chord = Inr chord"
| "verifySuccs_loop resp (n # ns) chord =
     go_bind (slice_get (NodeSuccessors resp) (n - 1)) (\<lambda>succsSuccessor.
       if succsSuccessor = ''X'' then Inr chord
       else
         go_bind (slice_get (Successors (node chord)) n) (\<lambda>s.
         go_bind (if s = ''X'' then set_succ n succsSuccessor chord else Inr chord) (\<lambda>chord1.
         go_bind (slice_get (Successors (node chord1)) n) (\<lambda>s1.
         go_bind (if succsSuccessor \<noteq> s1 then set_succ n succsSuccessor chord1 else Inr chord1) (\<lambda>chord2.
           verifySuccs_loop resp ns chord2)))))"

definition verifySuccs :: "Chord \<Rightarrow> StabilizeResponse \<Rightarrow> Chord go" where
  "verifySuccs chord resp = verifySuccs_loop resp (map int [1..<length (Successors (node chord))]) chord"

fun next_valid :: "FingerEntry list \<Rightarrow> nat list \<Rightarrow> int go" where
  "next_valid ft [] = Inr (- 1)"
| "next_valid ft (n # ns) =
     go_bind (slice_get ft (int n)) (\<lambda>f. if f_NodeAddress f \<noteq> ''X'' then Inr (int n) else next_valid ft ns)"

definition getNextValidFinger :: "Chord \<Rightarrow> nat \<Rightarrow> int go" where
  "getNextValidFinger chord start = next_valid (FingerTable (node chord)) [start..<keySize + 1]"

text \<open>The loop that copies an address into the fingers \<open>n, ..., 1\<close>.\<close>

fun copy_down :: "NodeAddress \<Rightarrow> nat \<Rightarrow> Chord \<Rightarrow> Chord go" where
  "copy_down a 0 chord = Inr chord"
| "copy_down a (Suc n) chord = go_bind (set_finger (int (Suc n)) a chord) (copy_down a n)"

definition findNewSucc :: "Chord \<Rightarrow> Chord go" where
  "findNewSucc chord =
     (if length (Successors (node chord)) > 1
      then Inr (set_succs (tl (Successors (node chord)) @ [''X'']) chord)
      else
        go_bind (getNextValidFinger chord 1) (\<lambda>validFingerIndex.
          if validFingerIndex = - 1 then set_succ 0 (Predecessor (node chord)) chord
          else
            go_bind (slice_get (FingerTable (node chord)) validFingerIndex) (\<lambda>f.
              copy_down (f_NodeAddress f) (nat (validFingerIndex - 1)) chord)))"

definition collapse :: "NodeAddress \<Rightarrow> NodeAddress list \<Rightarrow> NodeAddress list" where
  "collapse failedNode ss =
     filter (\<lambda>s. s \<noteq> failedNode) ss @ map (\<lambda>_. ''X'') (filter (\<lambda>s. s = failedNode) ss)"

fun failed_scan :: "FingerEntry list \<Rightarrow> NodeAddress \<Rightarrow> nat \<Rightarrow> NodeAddress \<Rightarrow> (nat \<times> NodeAddress) go" where
  "failed_scan ft failedNode 0 succ = Inr (keySize, succ)"
| "failed_scan ft failedNode (Suc n) succ =
     go_bind (slice_get ft (int (Suc n))) (\<lambda>f.
       if failedNode = f_NodeAddress f then Inr (Suc n, succ)
       else failed_scan ft failedNode n (f_NodeAddress f))"

fun replace_failed :: "NodeAddress \<Rightarrow> NodeAddress \<Rightarrow> nat \<Rightarrow> Chord \<Rightarrow> Chord go" where
  "replace_failed failedNode succ 0 chord = Inr chord"
| "replace_failed failedNode succ (Suc n) chord =
     go_bind (slice_get (FingerTable (node chord)) (int (Suc n))) (\<lambda>f.
       if f_NodeAddress f \<noteq> failedNode then Inr chord
       else go_bind (set_finger (int (Suc n)) succ chord) (replace_failed failedNode succ n))"

definition clearDeadSucc :: "Chord \<Rightarrow> Chord go" where
  "clearDeadSucc chord =
     go_bind (slice_get (Successors (node chord)) 0) (\<lambda>failedNode.
       let chord1 = set_succs (collapse failedNode (Successors (node chord))) chord in
       go_bind (failed_scan (FingerTable (node chord1)) failedNode keySize (Predecessor (node chord1))) (\<lambda>(failedId, succ).
         replace_failed failedNode succ failedId chord1))"

section \<open>Calls\<close>

definition CallFindSuccessor ::
  "(NodeAddress \<Rightarrow> FindRequest \<Rightarrow> Response option) \<Rightarrow> Chord \<Rightarrow> FindRequest \<Rightarrow> Response option" where
  "CallFindSuccessor net chord findReq =
     (if QueryNodeAddress findReq = NodeAddress (node chord)
      then Some (zero_Response\<lparr>r_NodeAddress := NodeAddress (node chord), IsSuccessor := True\<rparr>)
      else net (QueryNodeAddress findReq) findReq)"

fun resolveFinger_loop ::
  "(NodeAddress \<Rightarrow> FindRequest \<Rightarrow> Response option) \<Rightarrow> nat \<Rightarrow> int \<Rightarrow> FindRequest \<Rightarrow> Chord \<Rightarrow> (Chord \<times> bool) go" where
  "resolveFinger_loop net 0 fingerIndex findReq chord = Inr (chord, True)"
| "resolveFinger_loop net (Suc k) fingerIndex findReq chord =
     (case CallFindSuccessor net chord findReq of
        None \<Rightarrow> go_bind (set_finger fingerIndex ''X'' chord) (\<lambda>chord'. Inr (chord', False))
      | Some resp \<Rightarrow>
          if IsSuccessor resp then
            go_bind (set_finger fingerIndex (r_NodeAddress resp) chord) (\<lambda>chord'. Inr (chord', True))
          else
            let findReq' = findReq\<lparr>QueryNodeAddress := r_NodeAddress resp\<rparr> in
            if QueryNodeAddress findReq' = NodeAddress (node chord) then
              go_bind (set_finger fingerIndex (NodeAddress (node chord)) chord) (\<lambda>chord'. Inr (chord', True))
            else resolveFinger_loop net k fingerIndex findReq' chord)"

definition resolveFinger ::
  "(NodeAddress \<Rightarrow> FindRequest \<Rightarrow> Response option) \<Rightarrow> Chord \<Rightarrow> NodeAddress \<Rightarrow> nat \<Rightarrow> (Chord \<times> bool) go" where
  "resolveFinger net chord nodeToAsk fingerIndex =
     go_bind
       (if nodeToAsk = ''X'' then
          go_bind (getNextValidFinger chord fingerIndex) (\<lambda>i.
            if i = - 1 then Inr (Predecessor (node chord))
            else go_bind (slice_get (FingerTable (node chord)) i) (\<lambda>f. Inr (f_NodeAddress f)))
        else Inr nodeToAsk)
       (\<lambda>ask.
          if ask = ''X'' then Inr (chord, False)
          else
            go_bind (slice_get (FingerTable (node chord)) (int fingerIndex)) (\<lambda>finger.
              if ask = NodeAddress (node chord) then
                go_bind (set_finger (int fingerIndex) (NodeAddress (node chord)) chord) (\<lambda>chord'. Inr (chord', True))
              else
                resolveFinger_loop net 32 (int fingerIndex)
                  \<lparr>QueryIdentifier = f_Identifier finger, QueryNodeAddress = ask\<rparr> chord))"

definition FixFingers ::
  "(string \<Rightarrow> int) \<Rightarrow> (NodeAddress \<Rightarrow> FindRequest \<Rightarrow> Response option) \<Rightarrow> Chord \<Rightarrow> Chord go" where
  "FixFingers sha net chord =
     go_bind (slice_get (Successors (node chord)) 0) (\<lambda>succ0.
       let validSucc = (succ0 \<noteq> ''X'');
           succId = hashString sha succ0;
           nf = (NextFinger (node chord) + 1) mod int keySize;
           chord1 = chord\<lparr>node := (node chord)\<lparr>NextFinger := nf\<rparr>\<rparr>
       in
       go_bind (slice_get (FingerTable (node chord1)) nf) (\<lambda>finger.
       go_bind (if validSucc \<and> between (Identifier (node chord1)) (f_Identifier finger) succId True
                then set_finger nf succ0 chord1 else Inr chord1) (\<lambda>chord2.
       go_bind (slice_get (FingerTable (node chord2)) nf) (\<lambda>finger2.
         let askNode = (if validSucc \<and> f_NodeAddress finger2 = NodeAddress (node chord2) then succ0
                        else f_NodeAddress finger2)
         in go_bind (resolveFinger net chord2 askNode (nat nf)) (\<lambda>(chord3, ok). Inr chord3)))))"

text \<open>The second component is the node that a new goroutine will notify.\<close>

definition CallNotify :: "Chord \<Rightarrow> NodeAddress \<Rightarrow> NotifyResponse option \<Rightarrow> (Chord \<times> NodeAddress option) go" where
  "CallNotify chord nodeAddress answer =
     (case answer of
        None \<Rightarrow> Inr (chord, None)
      | Some resp \<Rightarrow>
          if Success resp then
            go_bind (set_succ 0 nodeAddress (chord\<lparr>node := (node chord)\<lparr>JoinPending := False\<rparr>\<rparr>)) (\<lambda>chord'.
              Inr (chord', None))
          else Inr (chord, Some (np_NewPredAddress resp)))"

datatype join_next = NotifyNode NodeAddress | JoinNode NodeAddress

definition CallJoin :: "Chord \<Rightarrow> Response option \<Rightarrow> join_next go" where
  "CallJoin chord answer =
     (case answer of
        None \<Rightarrow> Inl (Fatal ''Cannot join specified node on chord ring'')
      | Some resp \<Rightarrow>
          if IsSuccessor resp then Inr (NotifyNode (r_NodeAddress resp))
          else Inr (JoinNode (r_NodeAddress resp)))"

definition CallStabilize ::
  "(NodeAddress \<Rightarrow> StabilizeRequest \<Rightarrow> StabilizeResponse option) \<Rightarrow> Chord \<Rightarrow> (Chord \<times> NodeAddress option) go" where
  "CallStabilize net chord =
     (let req = \<lparr>sr_NodeAddress = NodeAddress (node chord), sr_Identifier = Identifier (node chord)\<rparr> in
      go_bind (slice_get (Successors (node chord)) 0) (\<lambda>succ.
        if succ \<noteq> ''X'' \<and> succ = NodeAddress (node chord) then Inr (chord, None)
        else
          go_bind (if succ = ''X'' then findNewSucc chord else Inr chord) (\<lambda>chord1.
            case net succ req of
              None \<Rightarrow> go_bind (clearDeadSucc chord1) (\<lambda>chord2. Inr (chord2, None))
            | Some resp \<Rightarrow>
                if \<not> YouGood resp then
                  if sp_NewPredAddress resp \<noteq> NodeAddress (node chord1)
                  then Inr (chord1, Some (sp_NewPredAddress resp))
                  else Inr (chord1, None)
                else go_bind (verifySuccs chord1 resp) (\<lambda>chord2. Inr (chord2, None)))))"

definition CallCheckPred :: "(NodeAddress \<Rightarrow> bool) \<Rightarrow> Chord \<Rightarrow> bool" where
  "CallCheckPred alive chord =
     (if Predecessor (node chord) = ''X'' then False
      else if Predecessor (node chord) = NodeAddress (node chord) then True
      else alive (Predecessor (node chord)))"

fun resolve_loop ::
  "(NodeAddress \<Rightarrow> FindRequest \<Rightarrow> Response option) \<Rightarrow> Chord \<Rightarrow> nat \<Rightarrow> FindRequest \<Rightarrow> NodeAddress" where
  "resolve_loop net chord 0 findReq = ''X''"
| "resolve_loop net chord (Suc k) findReq =
     (if QueryNodeAddress findReq = NodeAddress (node chord) then NodeAddress (node chord)
      else
        (case CallFindSuccessor net chord findReq of
           None \<Rightarrow> ''X''
         | Some resp \<Rightarrow>
             if IsSuccessor resp then r_NodeAddress resp
             else resolve_loop net chord k (findReq\<lparr>QueryNodeAddress := r_NodeAddress resp\<rparr>)))"

definition resolveIdentifier ::
  "(string \<Rightarrow> int) \<Rightarrow> (NodeAddress \<Rightarrow> FindRequest \<Rightarrow> Response option) \<Rightarrow> Chord \<Rightarrow> int \<Rightarrow> NodeAddress go" where
  "resolveIdentifier sha net chord identifier =
     go_bind (find_node sha chord identifier zero_Response) (\<lambda>(response, retCode).
       if retCode \<noteq> PASSALONG then Inr (r_NodeAddress response)
       else if r_NodeAddress response = NodeAddress (node chord) then Inr (NodeAddress (node chord))
       else Inr (resolve_loop net chord 32
              \<lparr>QueryIdentifier = identifier, QueryNodeAddress = r_NodeAddress response\<rparr>))"

end
