(* ===== verification/Chord_Files.thy ===== *)
theory Chord_Files
  imports Chord_Client "HOL-Library.List_Lexorder" "HOL-Library.Char_ord"
begin

text \<open>
  Files of a Chord node (\<^verbatim>\<open>Lab3_Chord/chord.go\<close>, \<^verbatim>\<open>chordRPC.go\<close>): storing, looking up,
  replication to the successor, reassignment when the predecessor changes, encryption, and the
  command line.  The local file system is an association list from paths to contents.  The
  authenticated cipher AES-GCM is given by two parameters \<open>seal\<close> and \<open>open'\<close>; the nonce is a
  parameter, \<open>None\<close> when no random bytes could be read.  Calls to other nodes whose answer only
  affects the trace are returned as messages.
\<close>

section \<open>Messages and paths\<close>

record StoreFileRequest =
  FileIdentifier :: int
  FileName :: string
  sf_FileContent :: string
  DuplicationReq :: bool

record StoreFileResponse =
  sf_FileStatus :: FileStat

record RetreiveFileRequest =
  rf_FileIdentifier :: int
  rf_FileName :: string

record RetreiveFileResponse =
  rr_NodeAddress :: NodeAddress
  rr_Identifier :: int
  rr_FileStatus :: FileStat
  rr_FileContent :: string

definition zero_RetreiveFileResponse :: RetreiveFileResponse where
  "zero_RetreiveFileResponse =
     \<lparr>rr_NodeAddress = '''', rr_Identifier = 0, rr_FileStatus = 0, rr_FileContent = ''''\<rparr>"

text \<open>The verb \<^verbatim>\<open>%x\<close> for numbers.\<close>

fun show_hex :: "nat \<Rightarrow> string" where
  "show_hex n = (if n < 16 then [''0123456789abcdef'' ! n] else show_hex (n div 16) @ [''0123456789abcdef'' ! (n mod 16)])"

declare show_hex.simps [simp del]

definition fmt_x :: "int \<Rightarrow> string" where
  "fmt_x i = (if i < 0 then CHR ''-'' # show_hex (nat (- i)) else show_hex (nat i))"

definition fileDir :: "Chord \<Rightarrow> string" where
  "fileDir chord = fmt_x (Identifier (node chord)) @ ''Files''"

definition duplDir :: "Chord \<Rightarrow> string" where
  "duplDir chord = fmt_x (Identifier (node chord)) @ ''Replicated''"

section \<open>Storing and looking up\<close>

definition CallDuplication :: "Chord \<Rightarrow> StoreFileRequest \<Rightarrow> (NodeAddress \<times> StoreFileRequest) option go" where
  "CallDuplication chord req =
     go_bind (slice_get (Successors (node chord)) 0) (\<lambda>s.
       if s = ''X'' then Inr None
       else if s = NodeAddress (node chord) then Inr None
       else Inr (Some (s, req)))"

text \<open>The result has the error flag and the duplication request that is sent to the successor.\<close>

definition StoreFile ::
  "(string \<Rightarrow> bool) \<Rightarrow> (string \<Rightarrow> bool) \<Rightarrow> Chord \<Rightarrow> StoreFileRequest \<Rightarrow>
   (Chord \<times> StoreFileResponse \<times> bool \<times> (NodeAddress \<times> StoreFileRequest) option) go" where
  "StoreFile createOk writeOk chord req =
     (let filePath = (if DuplicationReq req then duplDir chord else fileDir chord) @ ''/'' @ FileName req in
      if \<not> createOk filePath then Inr (chord, \<lparr>sf_FileStatus = CREATEERR\<rparr>, True, None)
      else if \<not> writeOk filePath then
        Inr (chord\<lparr>local_fs := al_put filePath '''' (local_fs chord)\<rparr>, \<lparr>sf_FileStatus = WRITEERR\<rparr>, True, None)
      else
        let chord1 = chord\<lparr>local_fs := al_put filePath (sf_FileContent req) (local_fs chord)\<rparr> in
        if DuplicationReq req then
          Inr (chord1\<lparr>replicatedFiles := replicatedFiles chord1 @ [FileName req]\<rparr>, \<lparr>sf_FileStatus = FILEOK\<rparr>, False, None)
        else
          let chord2 = chord1\<lparr>stored := stored chord1 @ [FileName req]\<rparr> in
          go_bind (CallDuplication chord2 (req\<lparr>DuplicationReq := True\<rparr>)) (\<lambda>msg.
            Inr (chord2, \<lparr>sf_FileStatus = FILEOK\<rparr>, False, msg)))"

definition LookUp ::
  "(string \<Rightarrow> bool) \<Rightarrow> Chord \<Rightarrow> RetreiveFileRequest \<Rightarrow> RetreiveFileResponse \<Rightarrow> RetreiveFileResponse" where
  "LookUp readOk chord req resp =
     (let filePath = fileDir chord @ ''/'' @ rf_FileName req in
      case map_of (local_fs chord) filePath of
        None \<Rightarrow> resp\<lparr>rr_FileContent := '''', rr_FileStatus := NOSUCHFILE\<rparr>
      | Some content \<Rightarrow>
          if \<not> readOk filePath then resp\<lparr>rr_FileContent := '''', rr_FileStatus := READERR\<rparr>
          else resp\<lparr>rr_FileContent := content, rr_NodeAddress := NodeAddress (node chord),
                    rr_Identifier := Identifier (node chord), rr_FileStatus := FILEOK\<rparr>)"

text \<open>The node that is asked to store a file.\<close>

definition CallStoreFile ::
  "(string \<Rightarrow> int) \<Rightarrow> (NodeAddress \<Rightarrow> FindRequest \<Rightarrow> Response option) \<Rightarrow> Chord \<Rightarrow> StoreFileRequest \<Rightarrow>
   (NodeAddress \<times> StoreFileRequest) go" where
  "CallStoreFile sha net chord req =
     go_bind (resolveIdentifier sha net chord (FileIdentifier req)) (\<lambda>destinationNode.
       Inr (destinationNode, req))"

section \<open>Encryption\<close>

definition aes_key_ok :: "string \<Rightarrow> bool" where
  "aes_key_ok k \<longleftrightarrow> length k = 16 \<or> length k = 24 \<or> length k = 32"

definition NonceSize :: nat where "NonceSize = 12"

definition encrypt ::
  "(string \<Rightarrow> string \<Rightarrow> string \<Rightarrow> string) \<Rightarrow> string option \<Rightarrow> string \<Rightarrow> string \<Rightarrow> string option" where
  "encrypt seal nonce content key =
     (if \<not> aes_key_ok key then None
      else (case nonce of None \<Rightarrow> None | Some n \<Rightarrow> Some (n @ seal key n content)))"

definition decrypt ::
  "(string \<Rightarrow> string \<Rightarrow> string \<Rightarrow> string option) \<Rightarrow> string \<Rightarrow> string \<Rightarrow> string option go" where
  "decrypt open' content key =
     (if \<not> aes_key_ok key then Inr None
      else if length content < NonceSize then Inl IndexOutOfRange
      else Inr (open' key (take NonceSize content) (drop NonceSize content)))"

definition getFileContent ::
  "(string \<Rightarrow> string \<Rightarrow> string \<Rightarrow> string) \<Rightarrow> string option \<Rightarrow> (string \<Rightarrow> string option) \<Rightarrow> string \<Rightarrow> string \<Rightarrow> string option" where
  "getFileContent seal nonce readLocal filePath key =
     (case readLocal filePath of None \<Rightarrow> None | Some content \<Rightarrow> encrypt seal nonce content key)"

datatype lookup_result = Unreachable | NoSuchFile | CannotRead | DecryptFailure | Looked int NodeAddress string

definition CallLookup ::
  "(string \<Rightarrow> int) \<Rightarrow> (NodeAddress \<Rightarrow> FindRequest \<Rightarrow> Response option) \<Rightarrow>
   (NodeAddress \<Rightarrow> RetreiveFileRequest \<Rightarrow> RetreiveFileResponse option) \<Rightarrow>
   (string \<Rightarrow> string \<Rightarrow> string \<Rightarrow> string option) \<Rightarrow> Chord \<Rightarrow> RetreiveFileRequest \<Rightarrow> lookup_result go" where
  "CallLookup sha net look open' chord req =
     go_bind (resolveIdentifier sha net chord (rf_FileIdentifier req)) (\<lambda>destinationNode.
       case look destinationNode req of
         None \<Rightarrow> Inr Unreachable
       | Some resp \<Rightarrow>
           if rr_FileStatus resp \<noteq> FILEOK then
             Inr (if rr_FileStatus resp = NOSUCHFILE then NoSuchFile else CannotRead)
           else
             go_bind (decrypt open' (rr_FileContent resp) (encKey chord)) (\<lambda>d.
               Inr (case d of None \<Rightarrow> DecryptFailure
                    | Some content \<Rightarrow> Looked (rr_Identifier resp) (rr_NodeAddress resp) content)))"

section \<open>Reassignment\<close>

text \<open>A request that is addressed to the node itself is executed by its own handler.\<close>

definition deliver_self ::
  "(string \<Rightarrow> bool) \<Rightarrow> (string \<Rightarrow> bool) \<Rightarrow> Chord \<Rightarrow> NodeAddress \<times> StoreFileRequest \<Rightarrow> Chord go" where
  "deliver_self createOk writeOk chord m =
     (if fst m = NodeAddress (node chord)
      then go_bind (StoreFile createOk writeOk chord (snd m)) (\<lambda>(chord', r). Inr chord')
      else Inr chord)"

fun reassign_loop ::
  "(string \<Rightarrow> int) \<Rightarrow> (NodeAddress \<Rightarrow> FindRequest \<Rightarrow> Response option) \<Rightarrow> (string \<Rightarrow> bool) \<Rightarrow> (string \<Rightarrow> bool) \<Rightarrow>
   string list \<Rightarrow> string list \<Rightarrow> (NodeAddress \<times> StoreFileRequest) list \<Rightarrow> Chord \<Rightarrow>
   (Chord \<times> string list \<times> (NodeAddress \<times> StoreFileRequest) list) go" where
  "reassign_loop sha net createOk writeOk [] keepFiles msgs chord = Inr (chord, keepFiles, msgs)"
| "reassign_loop sha net createOk writeOk (entry # es) keepFiles msgs chord =
     (let fileId = hashString sha entry in
      if between (hashString sha (Predecessor (node chord))) fileId (Identifier (node chord)) True
      then reassign_loop sha net createOk writeOk es (keepFiles @ [entry]) msgs chord
      else
        (case map_of (local_fs chord) (fileDir chord @ ''/'' @ entry) of
           None \<Rightarrow> reassign_loop sha net createOk writeOk es keepFiles msgs chord
         | Some content \<Rightarrow>
             let chord1 = chord\<lparr>local_fs := al_del (fileDir chord @ ''/'' @ entry) (local_fs chord)\<rparr> in
             go_bind (CallStoreFile sha net chord1
                \<lparr>FileIdentifier = fileId, FileName = entry, sf_FileContent = content, DuplicationReq = False\<rparr>) (\<lambda>m.
             go_bind (deliver_self createOk writeOk chord1 m) (\<lambda>chord2.
               reassign_loop sha net createOk writeOk es keepFiles (msgs @ [m]) chord2))))"

definition reassignToPred ::
  "(string \<Rightarrow> int) \<Rightarrow> (NodeAddress \<Rightarrow> FindRequest \<Rightarrow> Response option) \<Rightarrow> (string \<Rightarrow> bool) \<Rightarrow> (string \<Rightarrow> bool) \<Rightarrow> Chord \<Rightarrow>
   (Chord \<times> (NodeAddress \<times> StoreFileRequest) list) go" where
  "reassignToPred sha net createOk writeOk chord =
     (if stored chord = [] \<or> Predecessor (node chord) = NodeAddress (node chord) then Inr (chord, [])
      else
        go_bind (reassign_loop sha net createOk writeOk (stored chord) [] [] chord) (\<lambda>(chord', keepFiles, msgs).
          if length keepFiles < length (stored chord')
          then Inr (chord'\<lparr>stored := keepFiles\<rparr>, msgs)
          else Inr (chord', msgs)))"

text \<open>\<^verbatim>\<open>os.ReadDir\<close>: the names in a directory, in lexical order.\<close>

definition list_dir :: "(string \<times> string) list \<Rightarrow> string \<Rightarrow> string list" where
  "list_dir fs dir =
     sort (filter (\<lambda>n. CHR ''/'' \<notin> set n)
       (map (drop (length dir + 1)) (filter (\<lambda>k. take (length dir + 1) k = dir @ ''/'') (map fst fs))))"

fun duplicate_loop ::
  "(string \<Rightarrow> int) \<Rightarrow> string list \<Rightarrow> (NodeAddress \<times> StoreFileRequest) list \<Rightarrow> Chord \<Rightarrow>
   (Chord \<times> (NodeAddress \<times> StoreFileRequest) list) go" where
  "duplicate_loop sha [] msgs chord = Inr (chord, msgs)"
| "duplicate_loop sha (entry # es) msgs chord =
     (case map_of (local_fs chord) (duplDir chord @ ''/'' @ entry) of
        None \<Rightarrow> duplicate_loop sha es msgs chord
      | Some content \<Rightarrow>
          let chord1 = chord\<lparr>local_fs := al_put (fileDir chord @ ''/'' @ entry) content
                              (al_del (duplDir chord @ ''/'' @ entry) (local_fs chord))\<rparr> in
          go_bind (CallDuplication chord1
             \<lparr>FileIdentifier = hashString sha entry, FileName = entry, sf_FileContent = content, DuplicationReq = True\<rparr>) (\<lambda>m.
            duplicate_loop sha es (msgs @ (case m of None \<Rightarrow> [] | Some x \<Rightarrow> [x])) chord1))"

definition reassignDuplicatedToMe ::
  "(string \<Rightarrow> int) \<Rightarrow> Chord \<Rightarrow> (Chord \<times> (NodeAddress \<times> StoreFileRequest) list) go" where
  "reassignDuplicatedToMe sha chord =
     (if replicatedFiles chord = [] then Inr (chord, [])
      else
        go_bind (duplicate_loop sha (list_dir (local_fs chord) (duplDir chord)) [] chord) (\<lambda>(chord', msgs).
          Inr (chord'\<lparr>stored := stored chord' @ replicatedFiles chord', replicatedFiles := []\<rparr>, msgs)))"

definition initDuplication :: "Chord \<Rightarrow> Chord" where
  "initDuplication chord =
     chord\<lparr>local_fs := filter (\<lambda>(k, v). take (length (duplDir chord) + 1) k \<noteq> duplDir chord @ ''/'' \<and>
              take (length (fileDir chord) + 1) k \<noteq> fileDir chord @ ''/'') (local_fs chord)\<rparr>"

text \<open>The tick that checks the predecessor, in the loop of \<^verbatim>\<open>initIntervals\<close>.\<close>

definition checkPred_tick ::
  "(string \<Rightarrow> int) \<Rightarrow> (NodeAddress \<Rightarrow> FindRequest \<Rightarrow> Response option) \<Rightarrow> (string \<Rightarrow> bool) \<Rightarrow> (string \<Rightarrow> bool) \<Rightarrow>
   (NodeAddress \<Rightarrow> bool) \<Rightarrow> Chord \<Rightarrow> (Chord \<times> (NodeAddress \<times> StoreFileRequest) list) go" where
  "checkPred_tick sha net createOk writeOk alive chord =
     (if \<not> CallCheckPred alive chord then
        go_bind (reassignDuplicatedToMe sha chord) (\<lambda>(chord', msgs). Inr (set_pred ''X'' chord', msgs))
      else reassignToPred sha net createOk writeOk chord)"

section \<open>The command line\<close>

datatype command_result =
    HelpShown | BadPassword nat | PasswordSet | HashShown | StateShown | WrongUsage | FileEmpty
  | StoreSent "NodeAddress \<times> StoreFileRequest" | LookupShown lookup_result | UnknownCommand

text \<open>The slice \<^verbatim>\<open>s[:len(s)-1]\<close>.\<close>

definition drop_last :: "string \<Rightarrow> string go" where
  "drop_last s = (if s = [] then Inl IndexOutOfRange else Inr (butlast s))"

definition parseInput ::
  "(string \<Rightarrow> int) \<Rightarrow> (NodeAddress \<Rightarrow> FindRequest \<Rightarrow> Response option) \<Rightarrow>
   (NodeAddress \<Rightarrow> RetreiveFileRequest \<Rightarrow> RetreiveFileResponse option) \<Rightarrow>
   (string \<Rightarrow> string \<Rightarrow> string \<Rightarrow> string) \<Rightarrow> (string \<Rightarrow> string \<Rightarrow> string \<Rightarrow> string option) \<Rightarrow> string option \<Rightarrow>
   (string \<Rightarrow> string option) \<Rightarrow> Chord \<Rightarrow> string \<Rightarrow> (Chord \<times> command_result) go" where
  "parseInput sha net look seal open' nonce readLocal chord input =
     (let args = Split input (CHR '' '') in
      go_bind (slice_get args 0) (\<lambda>command.
      if command = ''help'' @ [CHR 0x0A] then Inr (chord, HelpShown)
      else if command = ''setpw'' then
        go_bind (slice_get args 1) (\<lambda>a.
        go_bind (drop_last a) (\<lambda>arg.
          if length arg \<noteq> 16 then Inr (chord, BadPassword (length arg))
          else Inr (chord\<lparr>encKey := arg\<rparr>, PasswordSet)))
      else if command = ''hash'' @ [CHR 0x0A] then Inr (chord, HashShown)
      else if command = ''d'' @ [CHR 0x0A] then Inr (chord, StateShown)
      else if command = ''StoreFile'' then
        (if length args \<noteq> 2 then Inr (chord, WrongUsage)
         else
           go_bind (slice_get args 1) (\<lambda>a.
           go_bind (drop_last a) (\<lambda>arg.
             case getFileContent seal nonce readLocal arg (encKey chord) of
               None \<Rightarrow> Inr (chord, FileEmpty)
             | Some fileContent \<Rightarrow>
                 go_bind (CallStoreFile sha net chord
                    \<lparr>FileIdentifier = hashString sha arg, FileName = arg, sf_FileContent = fileContent,
                     DuplicationReq = False\<rparr>) (\<lambda>m. Inr (chord, StoreSent m)))))
      else if command = ''Lookup'' then
        (if length args \<noteq> 2 then Inr (chord, WrongUsage)
         else
           go_bind (slice_get args 1) (\<lambda>a.
           go_bind (drop_last a) (\<lambda>arg.
           go_bind (CallLookup sha net look open' chord
              \<lparr>rf_FileIdentifier = hashString sha arg, rf_FileName = arg\<rparr>) (\<lambda>r. Inr (chord, LookupShown r)))))
      else if command = ''PrintState'' then Inr (chord, StateShown)
      else Inr (chord, UnknownCommand)))"

end
