(* ===== verification/Chord_Inv.thy ===== *)
theory Chord_Inv
  imports Chord_Files
begin

text \<open>
  The state of a Chord node under all its handlers and periodic tasks: the shape of its tables
  is an invariant, under which no operation indexes out of range.  The invariant also shows
  which entry of the finger table the node never maintains.
\<close>

section \<open>Well-formed nodes\<close>

text \<open>
  A node with \<open>r\<close> successors: tables of the right length, the unknown successors at the end of
  the list, the finger offsets fixed by \<^verbatim>\<open>initClient\<close>, and the last finger still pointing to the
  node itself.
\<close>

definition no_gap :: "NodeAddress list \<Rightarrow> bool" where
  "no_gap ss \<longleftrightarrow> sorted_wrt (\<lambda>a b. a = ''X'' \<longrightarrow> b = ''X'') ss"

definition wf_tables :: "nat \<Rightarrow> NodeInfo \<Rightarrow> bool" where
  "wf_tables r nd \<longleftrightarrow>
     length (Successors nd) = r \<and> no_gap (Successors nd) \<and> NodeAddress nd \<noteq> ''X'' \<and>
     length (FingerTable nd) = keySize + 1 \<and> on_ring (Identifier nd) \<and>
     0 \<le> NextFinger nd \<and> NextFinger nd < int keySize \<and>
     (\<forall>k. 1 \<le> k \<and> k \<le> keySize \<longrightarrow> f_Identifier (FingerTable nd ! k) = jumpIdentifier (Identifier nd) (int k)) \<and>
     f_NodeAddress (FingerTable nd ! keySize) = NodeAddress nd"

definition wf_chord :: "nat \<Rightarrow> Chord \<Rightarrow> bool" where
  "wf_chord r chord \<longleftrightarrow> wf_tables r (node chord)"

lemma wf_chordD:
  assumes "wf_chord r chord"
  shows "length (Successors (node chord)) = r" "length (FingerTable (node chord)) = 161"
    "on_ring (Identifier (node chord))" "0 \<le> NextFinger (node chord)" "NextFinger (node chord) < 160"
    "1 \<le> k \<Longrightarrow> k \<le> 160 \<Longrightarrow> f_Identifier (FingerTable (node chord) ! k) = jumpIdentifier (Identifier (node chord)) (int k)"
    "f_NodeAddress (FingerTable (node chord) ! 160) = NodeAddress (node chord)"
    "no_gap (Successors (node chord))" "NodeAddress (node chord) \<noteq> ''X''"
  using assms by (simp_all add: wf_chord_def wf_tables_def keySize_def)

lemma node_updates [simp]:
  "node (set_pred a chord) = (node chord)\<lparr>Predecessor := a\<rparr>"
  "node (set_succs as chord) = (node chord)\<lparr>Successors := as\<rparr>"
  "node (set_fingers ft chord) = (node chord)\<lparr>FingerTable := ft\<rparr>"
  by (simp_all add: set_pred_def set_succs_def set_fingers_def)

lemma wf_set_pred [inv_intros]: "wf_chord r chord \<Longrightarrow> wf_chord r (set_pred a chord)"
  by (simp add: wf_chord_def wf_tables_def)

lemma wf_set_succs [inv_intros]:
  "wf_chord r chord \<Longrightarrow> length as = r \<Longrightarrow> no_gap as \<Longrightarrow> wf_chord r (set_succs as chord)"
  by (simp add: wf_chord_def wf_tables_def)

lemma wf_join_pending [inv_intros]:
  "wf_chord r chord \<Longrightarrow> wf_chord r (chord\<lparr>node := (node chord)\<lparr>JoinPending := b\<rparr>\<rparr>)"
  by (simp add: wf_chord_def wf_tables_def)

lemma wf_next_finger [inv_intros]:
  "wf_chord r chord \<Longrightarrow> wf_chord r (chord\<lparr>node := (node chord)\<lparr>NextFinger := n mod int keySize\<rparr>\<rparr>)"
  by (simp add: wf_chord_def wf_tables_def keySize_def)

lemma wf_files [inv_intros]:
  "wf_chord r chord \<Longrightarrow> node chord' = node chord \<Longrightarrow> wf_chord r chord'"
  by (simp add: wf_chord_def)

lemma no_gap_update:
  assumes "no_gap ss" "a \<noteq> ''X''" "\<forall>i<n. ss ! i \<noteq> ''X''"
  shows "no_gap (ss[n := a])"
  unfolding no_gap_def sorted_wrt_iff_nth_less
proof (intro allI impI)
  fix i j assume ij: "i < j" "j < length (ss[n := a])" "ss[n := a] ! i = ''X''"
  then have i: "i \<noteq> n" using assms(2) by auto
  then have "ss ! i = ''X''" using ij by simp
  then have "\<not> i < n" "ss ! j = ''X''"
    using assms(1,3) ij by (auto simp: no_gap_def sorted_wrt_iff_nth_less)
  then show "ss[n := a] ! j = ''X''" using ij i by simp
qed

lemma no_gap_replicate: "no_gap (replicate n a)"
  by (simp add: no_gap_def sorted_wrt_iff_nth_less)

lemma no_gap_X: "no_gap (''X'' # ss) \<Longrightarrow> ss = replicate (length ss) ''X''"
  by (simp add: no_gap_def replicate_length_same)

lemma set_succ_wf:
  assumes "wf_chord r chord" "0 \<le> n" "n < int r" "a \<noteq> ''X''" "\<forall>i<nat n. Successors (node chord) ! i \<noteq> ''X''"
  shows "set_succ n a chord = Inr (set_succs ((Successors (node chord))[nat n := a]) chord) \<and>
         wf_chord r (set_succs ((Successors (node chord))[nat n := a]) chord)"
  using assms wf_chordD(8) [OF assms(1)]
  by (auto simp: set_succ_def in_range_def wf_chordD(1) intro: wf_set_succs no_gap_update)

text \<open>An entry other than the last one may be changed.\<close>

definition put_finger :: "nat \<Rightarrow> NodeAddress \<Rightarrow> Chord \<Rightarrow> Chord" where
  "put_finger n a chord =
     set_fingers ((FingerTable (node chord))[n := (FingerTable (node chord) ! n)\<lparr>f_NodeAddress := a\<rparr>]) chord"

lemma put_finger_simps [simp]:
  "Successors (node (put_finger n a chord)) = Successors (node chord)"
  "NodeAddress (node (put_finger n a chord)) = NodeAddress (node chord)"
  "Identifier (node (put_finger n a chord)) = Identifier (node chord)"
  "Predecessor (node (put_finger n a chord)) = Predecessor (node chord)"
  by (simp_all add: put_finger_def)

lemma set_finger_wf:
  assumes wf: "wf_chord r chord" and n: "n < 160"
  shows "set_finger (int n) a chord = Inr (put_finger n a chord) \<and> wf_chord r (put_finger n a chord)"
proof -
  have "length (FingerTable (node chord)) = 161" using wf by (rule wf_chordD)
  moreover from this have "wf_chord r (put_finger n a chord)"
    using wf n by (auto simp: wf_chord_def wf_tables_def put_finger_def keySize_def nth_list_update)
  ultimately show ?thesis using n by (simp add: set_finger_def put_finger_def)
qed

section \<open>Operations keep nodes well-formed\<close>

lemma initClient_wf:
  assumes "length (FingerTable (node chord)) = keySize + 1" "length (Successors (node chord)) = r"
    and "on_ring (Identifier (node chord))" "NextFinger (node chord) = 0" "NodeAddress (node chord) \<noteq> ''X''"
  shows "\<exists>chord'. initClient chord = Inr chord' \<and> wf_chord r chord' \<and>
    NodeAddress (node chord') = NodeAddress (node chord) \<and> Identifier (node chord') = Identifier (node chord) \<and>
    Successors (node chord') = replicate r (NodeAddress (node chord)) \<and> Predecessor (node chord') = ''X''"
  using assms
  by (auto simp: initClient_def Let_def in_range_def wf_chord_def wf_tables_def keySize_def
      map_replicate_const nth_list_update no_gap_def sorted_wrt_iff_nth_less)

lemma closest_wf:
  assumes wf: "wf_chord r chord" and r: "0 < r"
  shows "n \<le> 160 \<Longrightarrow> \<exists>resp. closestPreceedingNode_loop chord x n joinResp = Inr (resp, PASSALONG)"
proof (induction n)
  case 0
  then show ?case using wf_chordD(1) [OF wf] r by (auto simp: in_range_def)
next
  case (Suc n)
  then show ?case using wf_chordD(2) [OF wf] by auto
qed

lemma find_wf:
  assumes wf: "wf_chord r chord" and r: "0 < r"
  shows "\<exists>resp code. find_loop sha chord x ss response = Inr (resp, code) \<and> code \<in> {0, 1, 2, 3}"
proof (induction ss)
  case Nil
  then show ?case
    using closest_wf [OF assms, of 160 x response] by (auto simp: closestPreceedingNode_def keySize_def)
next
  case (Cons s ss)
  then show ?case by (auto simp: Let_def)
qed

lemma Create_wf:
  assumes "wf_chord r chord" "0 < r"
  shows "\<exists>chord'. Create chord = Inr chord' \<and> wf_chord r chord'"
  using set_succ_wf [OF assms(1), of 0] wf_chordD(9) [OF assms(1)] assms(2)
  by (auto simp: Create_def intro: wf_set_pred)

lemma Join_wf:
  assumes wf: "wf_chord r chord" and r: "0 < r" and a: "jr_NodeAddress req \<noteq> ''X''"
  shows "\<exists>chord' resp. Join_node sha chord req resp0 = Inr (chord', resp) \<and> wf_chord r chord'"
proof -
  obtain resp code where "find_node sha chord (jr_Identifier req) resp0 = Inr (resp, code)"
    using find_wf [OF wf r] unfolding find_node_def by blast
  then show ?thesis
    using set_succ_wf [OF wf, of 0] r wf a by (auto simp: Join_node_def intro: wf_set_pred)
qed

lemma Notify_wf: "wf_chord r chord \<Longrightarrow> wf_chord r (fst (Notify sha chord req resp))"
  by (auto simp: Notify_def Let_def intro: wf_set_pred)

lemma Stabilize_wf:
  "wf_chord r chord \<Longrightarrow> wf_chord r (fst (Stabilize chord req resp))"
  by (auto simp: Stabilize_def intro: wf_set_pred)

lemma verifySuccs_loop_step:
  assumes len: "m < length (Successors (node chord))" and m: "1 \<le> m" "m - 1 < length (NodeSuccessors resp)"
  shows "verifySuccs_loop resp (int m # ns) chord =
    (if NodeSuccessors resp ! (m - 1) = ''X'' then Inr chord
     else verifySuccs_loop resp ns (set_succs ((Successors (node chord))[m := NodeSuccessors resp ! (m - 1)]) chord))"
proof -
  let ?s = "NodeSuccessors resp ! (m - 1)"
  let ?c = "set_succs ((Successors (node chord))[m := ?s]) chord"
  have e: "int m - 1 = int (m - 1)" using m by auto
  have g: "slice_get (NodeSuccessors resp) (int m - 1) = Inr ?s"
    unfolding e using m(2) by (simp only: slice_get_ok in_range_nat nat_int)
  have st: "set_succ (int m) ?s chord = Inr ?c" using len by (simp add: set_succ_def)
  have eq: "?c = chord" if "?s = Successors (node chord) ! m"
    unfolding that by (simp add: set_succs_def)
  show ?thesis
  proof (cases "?s = Successors (node chord) ! m")
    case True
    then show ?thesis unfolding eq [OF True] using g len by simp
  next
    case False
    then show ?thesis using g len st by (cases "Successors (node chord) ! m = ''X''") simp_all
  qed
qed

declare verifySuccs_loop.simps(2) [simp del]

lemma verifySuccs_loop_wf:
  "wf_chord r chord \<Longrightarrow> r \<le> length (NodeSuccessors resp) + 1 \<Longrightarrow> 1 \<le> m \<Longrightarrow> m + k = r \<Longrightarrow>
   \<forall>i<m. Successors (node chord) ! i \<noteq> ''X'' \<Longrightarrow>
   \<exists>chord'. verifySuccs_loop resp (map int [m..<m + k]) chord = Inr chord' \<and> wf_chord r chord'"
proof (induction k arbitrary: m chord)
  case (Suc k)
  let ?s = "NodeSuccessors resp ! (m - 1)"
  let ?c = "set_succs ((Successors (node chord))[m := ?s]) chord"
  have len: "length (Successors (node chord)) = r" using Suc.prems(1) by (rule wf_chordD)
  have m: "m < length (Successors (node chord))" "m - 1 < length (NodeSuccessors resp)"
    using Suc.prems len by auto
  have ivl: "map int [m..<m + Suc k] = int m # map int [Suc m..<Suc m + k]"
    by (simp add: upt_conv_Cons)
  show ?case
  proof (cases "?s = ''X''")
    case True
    with verifySuccs_loop_step [OF m(1) Suc.prems(3) m(2)] Suc.prems(1) show ?thesis unfolding ivl by simp
  next
    case False
    have c: "wf_chord r ?c" using set_succ_wf [OF Suc.prems(1), of "int m" ?s] m len False Suc.prems(5) by simp
    have "\<forall>i<Suc m. Successors (node ?c) ! i \<noteq> ''X''"
      using Suc.prems(5) False m by (auto simp: nth_list_update less_Suc_eq)
    then obtain c' where "verifySuccs_loop resp (map int [Suc m..<Suc m + k]) ?c = Inr c'" "wf_chord r c'"
      using Suc.IH [OF c Suc.prems(2), of "Suc m"] Suc.prems(4) by auto
    with verifySuccs_loop_step [OF m(1) Suc.prems(3) m(2)] False show ?thesis unfolding ivl by simp
  qed
qed simp

lemma verifySuccs_wf:
  assumes "wf_chord r chord" "r \<le> length (NodeSuccessors resp) + 1" "0 < r" "Successors (node chord) ! 0 \<noteq> ''X''"
  shows "\<exists>chord'. verifySuccs chord resp = Inr chord' \<and> wf_chord r chord'"
  using verifySuccs_loop_wf [OF assms(1,2), of 1 "r - 1"] assms wf_chordD(1) [OF assms(1)]
  by (auto simp: verifySuccs_def)

lemma next_valid_wf:
  assumes "length ft = 161" "\<forall>n\<in>set ns. n < 161"
  shows "\<exists>i. next_valid ft ns = Inr i \<and> (i = - 1 \<or> i \<in> int ` set ns)"
  using assms(2)
proof (induction ns)
  case (Cons n ns)
  then show ?case using assms(1) by (cases "f_NodeAddress (ft ! n) = ''X''") auto
qed simp

lemma getNextValidFinger_wf:
  assumes "wf_chord r chord"
  shows "\<exists>i. getNextValidFinger chord start = Inr i \<and> (i = - 1 \<or> int start \<le> i \<and> i \<le> 160)"
  using next_valid_wf [OF wf_chordD(2) [OF assms], of "[start..<161]"]
  by (fastforce simp: getNextValidFinger_def keySize_def)

lemma next_valid_found: "length ft = 161 \<Longrightarrow> f_NodeAddress (ft ! 160) \<noteq> ''X'' \<Longrightarrow> 160 \<in> set ns \<Longrightarrow>
  \<forall>n\<in>set ns. n < 161 \<Longrightarrow> next_valid ft ns \<noteq> Inr (- 1)"
  by (induction ns) auto

lemma getNextValidFinger_last:
  assumes "wf_chord r chord"
  shows "getNextValidFinger chord 1 \<noteq> Inr (- 1)"
  using next_valid_found [OF wf_chordD(2) [OF assms], of "[1..<161]"] wf_chordD(7,9) [OF assms]
  by (simp add: getNextValidFinger_def keySize_def)

lemma copy_down_wf:
  "wf_chord r chord \<Longrightarrow> n < 160 \<Longrightarrow> \<exists>chord'. copy_down a n chord = Inr chord' \<and> wf_chord r chord'"
proof (induction n arbitrary: chord)
  case (Suc n)
  then show ?case using set_finger_wf [of r chord "Suc n" a] by auto
qed simp

text \<open>\<^verbatim>\<open>findNewSucc\<close> is called when the first successor, and hence every successor, is unknown.\<close>

lemma findNewSucc_wf:
  assumes wf: "wf_chord r chord" and r: "0 < r" and x: "Successors (node chord) ! 0 = ''X''"
  shows "\<exists>chord'. findNewSucc chord = Inr chord' \<and> wf_chord r chord' \<and> Successors (node chord') ! 0 = ''X''"
proof (cases "r > 1")
  case True
  have len: "length (Successors (node chord)) = r" and ng: "no_gap (Successors (node chord))"
    using wf by (simp_all add: wf_chordD)
  obtain ss where ss: "Successors (node chord) = ''X'' # ss" using len r x by (cases "Successors (node chord)") auto
  then have "ss = replicate (r - 1) ''X''" using no_gap_X ng len by force
  then have "tl (Successors (node chord)) @ [''X''] = replicate r ''X''"
    using True by (simp add: ss replicate_append_same flip: replicate_Suc)
  then have "no_gap (tl (Successors (node chord)) @ [''X''])" "(tl (Successors (node chord)) @ [''X'']) ! 0 = ''X''"
    using r by (simp_all add: no_gap_replicate)
  then show ?thesis
    using True wf len by (auto simp: findNewSucc_def intro: wf_set_succs)
next
  case False
  obtain i where i: "getNextValidFinger chord 1 = Inr i" "i = - 1 \<or> 1 \<le> i \<and> i \<le> 160"
    using getNextValidFinger_wf [OF wf, of 1] by auto
  have same: "copy_down a n c = Inr c' \<Longrightarrow> Successors (node c') = Successors (node c)" for a n c c'
    by (induction n arbitrary: c) (auto simp: set_finger_def)
  have "i \<noteq> - 1"
    using i(1) getNextValidFinger_last [OF wf] by auto
  then have "nat (i - 1) < 160" "in_range (FingerTable (node chord)) i"
    using i wf_chordD(2) [OF wf] by (auto simp: in_range_def)
  with copy_down_wf [OF wf] same \<open>i \<noteq> - 1\<close> i False wf_chordD(1) [OF wf] x show ?thesis
    by (fastforce simp: findNewSucc_def)
qed

lemma length_collapse [simp]: "length (collapse a ss) = length ss"
  by (induction ss) (auto simp: collapse_def)

lemma no_gap_collapse: "no_gap ss \<Longrightarrow> no_gap (collapse a ss)"
  by (auto simp: no_gap_def collapse_def sorted_wrt_append sorted_wrt_filter map_replicate_const
      no_gap_replicate [unfolded no_gap_def])

lemma failed_scan_wf:
  assumes ft: "length ft = 161" and last: "f_NodeAddress (ft ! 160) \<noteq> failed"
  shows "n \<le> 160 \<Longrightarrow> \<exists>i s. failed_scan ft failed n succ = Inr (i, s) \<and>
    (i < 160 \<or> i = 160 \<and> f_NodeAddress (ft ! 160) \<noteq> failed)"
proof (induction n arbitrary: succ)
  case 0
  then show ?case using last by (simp add: keySize_def)
next
  case (Suc n)
  show ?case
  proof (cases "failed = f_NodeAddress (ft ! Suc n)")
    case True
    then have "Suc n \<noteq> 160" using last by metis
    then show ?thesis using Suc True ft by auto
  next
    case False
    with Suc ft show ?thesis by simp
  qed
qed

lemma replace_failed_wf:
  "wf_chord r chord \<Longrightarrow> n \<le> 160 \<Longrightarrow> failed \<noteq> NodeAddress (node chord) \<Longrightarrow>
   \<exists>chord'. replace_failed failed succ n chord = Inr chord' \<and> wf_chord r chord'"
proof (induction n arbitrary: chord)
  case (Suc n)
  have ft: "length (FingerTable (node chord)) = 161"
    "f_NodeAddress (FingerTable (node chord) ! 160) = NodeAddress (node chord)"
    using wf_chordD(2,7) [OF Suc.prems(1)] by simp_all
  show ?case
  proof (cases "f_NodeAddress (FingerTable (node chord) ! Suc n) = failed")
    case True
    then have "Suc n < 160" using Suc.prems(2,3) ft(2) by (metis le_neq_implies_less)
    with set_finger_wf [OF Suc.prems(1), of "Suc n" succ] Suc True ft show ?thesis by auto
  next
    case False
    with Suc ft show ?thesis by simp
  qed
qed simp

lemma clearDeadSucc_wf:
  assumes wf: "wf_chord r chord" and r: "0 < r"
    and other: "Successors (node chord) ! 0 \<noteq> NodeAddress (node chord)"
  shows "\<exists>chord'. clearDeadSucc chord = Inr chord' \<and> wf_chord r chord'"
proof -
  let ?f = "Successors (node chord) ! 0"
  let ?c = "set_succs (collapse ?f (Successors (node chord))) chord"
  have len: "length (Successors (node chord)) = r" using wf by (rule wf_chordD)
  have c: "wf_chord r ?c" using wf len wf_chordD(8) [OF wf] by (auto intro: wf_set_succs no_gap_collapse)
  have last: "f_NodeAddress (FingerTable (node ?c) ! 160) \<noteq> ?f"
    using wf_chordD(7) [OF c] other by simp
  obtain i s where i: "failed_scan (FingerTable (node ?c)) ?f 160 (Predecessor (node ?c)) = Inr (i, s)" "i \<le> 160"
    using failed_scan_wf [OF wf_chordD(2) [OF c] last, of 160 "Predecessor (node ?c)"] by auto
  have "?f \<noteq> NodeAddress (node ?c)" using other by simp
  with replace_failed_wf [OF c i(2) this, of s] i len r show ?thesis
    by (auto simp: clearDeadSucc_def keySize_def Let_def in_range_def)
qed

section \<open>Periodic tasks\<close>

lemma resolveFinger_loop_wf:
  assumes "wf_chord r chord" "n < 160"
  shows "go_ok (\<lambda>(chord', ok). wf_chord r chord') (resolveFinger_loop net k (int n) req chord)"
proof (induction k arbitrary: req)
  case (Suc k)
  then show ?case
    using set_finger_wf [OF assms] assms(1)
    by (cases "CallFindSuccessor net chord req") (auto simp: Let_def)
qed (use assms in auto)

lemma resolveFinger_wf:
  assumes wf: "wf_chord r chord" and n: "n < 160"
  shows "go_ok (\<lambda>(chord', ok). wf_chord r chord') (resolveFinger net chord ask n)"
proof -
  have ft: "length (FingerTable (node chord)) = 161" using wf by (rule wf_chordD)
  obtain i where i: "getNextValidFinger chord n = Inr i" "i = - 1 \<or> int n \<le> i \<and> i \<le> 160"
    using getNextValidFinger_wf [OF wf] by blast
  then have "i \<noteq> - 1 \<Longrightarrow> in_range (FingerTable (node chord)) i" using ft by (auto simp: in_range_def)
  with i(1) have "go_ok (\<lambda>a. True) (if ask = ''X'' then
          go_bind (getNextValidFinger chord n) (\<lambda>i.
            if i = - 1 then Inr (Predecessor (node chord))
            else go_bind (slice_get (FingerTable (node chord)) i) (\<lambda>f. Inr (f_NodeAddress f)))
        else Inr ask)"
    by auto
  then show ?thesis unfolding resolveFinger_def
    by (rule go_ok_bind) (use resolveFinger_loop_wf [OF assms] set_finger_wf [OF assms] ft n wf in auto)
qed

lemma FixFingers_wf:
  assumes wf: "wf_chord r chord" and r: "0 < r"
  shows "go_ok (wf_chord r) (FixFingers sha net chord)"
proof -
  define nf where "nf = nat ((NextFinger (node chord) + 1) mod 160)"
  have nf: "(NextFinger (node chord) + 1) mod 160 = int nf" "nf < 160" by (auto simp: nf_def)
  let ?c = "chord\<lparr>node := (node chord)\<lparr>NextFinger := int nf\<rparr>\<rparr>"
  have c: "wf_chord r ?c" using wf_next_finger [OF wf, of "NextFinger (node chord) + 1"] nf by (simp add: keySize_def)
  have get: "go_ok (\<lambda>f. True) (slice_get (FingerTable (node c2)) (int nf))" if "wf_chord r c2" for c2
    using wf_chordD(2) [OF that] nf(2) by simp
  have put: "go_ok (wf_chord r) (set_finger (int nf) a c2)" if "wf_chord r c2" for a c2
    using set_finger_wf [OF that nf(2)] by simp
  have fin: "go_ok (wf_chord r) (go_bind (resolveFinger net c2 ask nf) (\<lambda>(c3, ok). Inr c3))"
    if "wf_chord r c2" for c2 ask
    by (rule go_ok_bind [OF resolveFinger_wf [OF that nf(2)]]) auto
  have succ: "go_ok (\<lambda>s. True) (slice_get (Successors (node chord)) 0)"
    using wf_chordD(1) [OF wf] r by (simp add: in_range_def)
  show ?thesis
    unfolding FixFingers_def Let_def keySize_def of_nat_numeral nf(1) nat_int
    by (rule go_ok_bind [OF succ] go_ok_bind [OF get] go_ok_bind [of "wf_chord r"] go_ok_if put fin c | assumption | simp add: c)+
qed

lemma CallStabilize_wf:
  assumes wf: "wf_chord r chord" and r: "0 < r" and x: "\<And>req. net ''X'' req = None"
    and len: "\<And>a req resp. net a req = Some resp \<Longrightarrow> YouGood resp \<Longrightarrow> r \<le> length (NodeSuccessors resp) + 1"
  shows "\<exists>chord' nxt. CallStabilize net chord = Inr (chord', nxt) \<and> wf_chord r chord'"
proof -
  let ?s = "Successors (node chord) ! 0"
  let ?req = "\<lparr>sr_NodeAddress = NodeAddress (node chord), sr_Identifier = Identifier (node chord)\<rparr>"
  have g: "slice_get (Successors (node chord)) 0 = Inr ?s" using wf_chordD(1) [OF wf] r by (simp add: in_range_def)
  consider "?s = ''X''" | "?s = NodeAddress (node chord)" "?s \<noteq> ''X''" | "?s \<noteq> ''X''" "?s \<noteq> NodeAddress (node chord)"
    by blast
  then show ?thesis
  proof cases
    case 1
    obtain c1 where c1: "findNewSucc chord = Inr c1" "wf_chord r c1" "Successors (node c1) ! 0 = ''X''"
      using findNewSucc_wf [OF wf r 1] by blast
    then have "''X'' \<noteq> NodeAddress (node c1)" using wf_chordD(9) [of r c1] by metis
    with clearDeadSucc_wf [OF c1(2) r] c1 1 x g show ?thesis by (fastforce simp: CallStabilize_def Let_def)
  next
    case 2
    then show ?thesis using g wf by (simp add: CallStabilize_def Let_def)
  next
    case 3
    show ?thesis
    proof (cases "net ?s ?req")
      case None
      then show ?thesis using 3 g clearDeadSucc_wf [OF wf r 3(2)] by (auto simp: CallStabilize_def Let_def)
    next
      case (Some resp)
      then show ?thesis
        using 3 g wf verifySuccs_wf [OF wf len [OF Some] r 3(1)]
        by (cases "YouGood resp") (auto simp: CallStabilize_def Let_def)
    qed
  qed
qed

lemma CallNotify_wf:
  assumes "wf_chord r chord" "0 < r" "a = ''X'' \<Longrightarrow> answer = None"
  shows "\<exists>chord' nxt. CallNotify chord a answer = Inr (chord', nxt) \<and> wf_chord r chord'"
proof (cases "\<exists>resp. answer = Some resp \<and> Success resp")
  case True
  then have "a \<noteq> ''X''" using assms(3) by auto
  with True set_succ_wf [OF wf_join_pending [OF assms(1)], of 0 a False] assms(2) show ?thesis
    by (auto simp: CallNotify_def)
next
  case False
  then show ?thesis using assms(1) by (auto simp: CallNotify_def split: option.splits)
qed

section \<open>Files\<close>

text \<open>File operations change no table; they need a first successor.\<close>

definition same_node :: "Chord \<Rightarrow> Chord \<Rightarrow> bool" where
  "same_node chord chord' \<longleftrightarrow> node chord' = node chord"

lemma same_node_wf: "wf_chord r chord \<Longrightarrow> same_node chord chord' \<Longrightarrow> wf_chord r chord'"
  by (simp add: same_node_def wf_chord_def)

lemma same_node_trans: "same_node a b \<Longrightarrow> same_node b c \<Longrightarrow> same_node a c"
  by (simp add: same_node_def)

lemma same_node_upd [simp]:
  "same_node c (c\<lparr>local_fs := f\<rparr>)" "same_node c (c\<lparr>stored := ss\<rparr>)" "same_node c (c\<lparr>replicatedFiles := ss\<rparr>)"
  "same_node c (c\<lparr>encKey := k\<rparr>)" "same_node c c"
  by (simp_all add: same_node_def)

lemma CallDuplication_ok:
  assumes "wf_chord r chord" "0 < r"
  shows "go_ok (\<lambda>m. True) (CallDuplication chord req)"
  using wf_chordD(1) [OF assms(1)] assms(2) by (simp add: CallDuplication_def in_range_def)

lemma StoreFile_ok:
  assumes wf: "wf_chord r chord" and r: "0 < r"
  shows "go_ok (\<lambda>(chord', res). same_node chord chord') (StoreFile createOk writeOk chord req)"
proof -
  have d: "go_ok (\<lambda>m. True) (CallDuplication (chord\<lparr>local_fs := f, stored := ss\<rparr>) q)" for f ss q
    by (rule CallDuplication_ok [OF _ r]) (rule same_node_wf [OF wf], simp add: same_node_def)
  show ?thesis unfolding StoreFile_def Let_def
    by (auto simp: same_node_def intro!: go_ok_bind [OF d])
qed

lemma find_node_ok:
  assumes "wf_chord r chord" "0 < r"
  shows "go_ok (\<lambda>(resp, code). code \<in> {0, 1, 2, 3}) (find_node sha chord x resp0)"
  using find_wf [OF assms, of sha x "Successors (node chord)" resp0] by (auto simp: find_node_def)

lemma resolveIdentifier_ok:
  assumes "wf_chord r chord" "0 < r"
  shows "go_ok (\<lambda>a. True) (resolveIdentifier sha net chord x)"
  unfolding resolveIdentifier_def by (rule go_ok_bind [OF find_node_ok [OF assms]]) auto

lemma CallStoreFile_ok:
  assumes "wf_chord r chord" "0 < r"
  shows "go_ok (\<lambda>m. True) (CallStoreFile sha net chord req)"
  unfolding CallStoreFile_def by (rule go_ok_bind [OF resolveIdentifier_ok [OF assms]]) simp

lemma deliver_self_ok:
  assumes "wf_chord r chord" "0 < r"
  shows "go_ok (same_node chord) (deliver_self createOk writeOk chord m)"
  unfolding deliver_self_def by (auto intro!: go_ok_bind [OF StoreFile_ok [OF assms]])

lemma reassign_loop_ok:
  "wf_chord r chord \<Longrightarrow> 0 < r \<Longrightarrow>
   go_ok (\<lambda>(chord', res). same_node chord chord') (reassign_loop sha net createOk writeOk es keep msgs chord)"
proof (induction es arbitrary: keep msgs chord)
  case (Cons e es)
  let ?c = "\<lambda>f. chord\<lparr>local_fs := f\<rparr>"
  have c: "wf_chord r (?c f)" for f by (rule same_node_wf [OF Cons.prems(1)]) simp
  have rest: "go_ok (\<lambda>(chord', res). same_node chord chord')
      (reassign_loop sha net createOk writeOk es keep msgs' c2)" if "same_node chord c2" for msgs' c2
    by (rule go_ok_mono [OF Cons.IH [OF same_node_wf [OF Cons.prems(1) that] Cons.prems(2)]])
      (use that in \<open>auto simp: same_node_def\<close>)
  show ?case
    by (auto simp: Let_def intro: Cons.IH [OF Cons.prems] split: option.splits
        intro!: go_ok_bind [OF CallStoreFile_ok [OF c Cons.prems(2)]]
          go_ok_bind [OF deliver_self_ok [OF c Cons.prems(2)]] rest elim: same_node_trans [rotated])
qed simp

lemma reassignToPred_ok:
  assumes "wf_chord r chord" "0 < r"
  shows "go_ok (\<lambda>(chord', res). same_node chord chord') (reassignToPred sha net createOk writeOk chord)"
  unfolding reassignToPred_def
  by (auto simp: same_node_def intro!: go_ok_bind [OF reassign_loop_ok [OF assms]])

lemma duplicate_loop_ok:
  "wf_chord r chord \<Longrightarrow> 0 < r \<Longrightarrow>
   go_ok (\<lambda>(chord', res). same_node chord chord') (duplicate_loop sha es msgs chord)"
proof (induction es arbitrary: msgs chord)
  case (Cons e es)
  let ?c = "\<lambda>f. chord\<lparr>local_fs := f\<rparr>"
  have c: "wf_chord r (?c f)" for f by (rule same_node_wf [OF Cons.prems(1)]) simp
  have rest: "go_ok (\<lambda>(chord', res). same_node chord chord') (duplicate_loop sha es msgs' (?c f))" for f msgs'
    by (rule go_ok_mono [OF Cons.IH [OF c Cons.prems(2)]]) (auto simp: same_node_def)
  show ?case
    by (auto simp: Let_def intro: Cons.IH [OF Cons.prems] split: option.splits
        intro!: go_ok_bind [OF CallDuplication_ok [OF c Cons.prems(2)]] rest)
qed simp

lemma checkPred_tick_ok:
  assumes "wf_chord r chord" "0 < r"
  shows "go_ok (\<lambda>(chord', res). wf_chord r chord') (checkPred_tick sha net createOk writeOk alive chord)"
proof -
  have "go_ok (\<lambda>(chord', res). same_node chord chord') (reassignDuplicatedToMe sha chord)"
    unfolding reassignDuplicatedToMe_def
    by (auto simp: same_node_def intro!: go_ok_bind [OF duplicate_loop_ok [OF assms]])
  then have "go_ok (\<lambda>(chord', res). wf_chord r chord')
      (go_bind (reassignDuplicatedToMe sha chord) (\<lambda>(chord', msgs). Inr (set_pred ''X'' chord', msgs)))"
    by (rule go_ok_bind) (auto intro!: wf_set_pred [OF same_node_wf [OF assms(1)]])
  then show ?thesis
    unfolding checkPred_tick_def
    by (auto intro!: go_ok_if same_node_wf [OF assms(1)] go_ok_mono [OF reassignToPred_ok [OF assms]])
qed

end
