(* ===== verification/Chord_System.thy ===== *)
theory Chord_System
  imports Chord_Inv
begin

text \<open>
  A whole Chord node as a transition system: it is started by \<^verbatim>\<open>main\<close> and then executes, in any
  order, the handlers that other nodes call, the tickers of \<^verbatim>\<open>initIntervals\<close>, the answers to its own
  calls and the commands typed by the user.  Every answer of the network is part of the event.
\<close>

section \<open>Start\<close>

text \<open>\<^verbatim>\<open>main\<close> up to the first call: the node creates a ring or asks a known node to join one.\<close>

definition chord_main ::
  "(string \<Rightarrow> int) \<Rightarrow> bool \<Rightarrow> string \<Rightarrow> string \<Rightarrow> string \<Rightarrow> string \<Rightarrow> int \<Rightarrow> int \<Rightarrow> int \<Rightarrow> string \<Rightarrow> string \<Rightarrow> int \<Rightarrow> bool \<Rightarrow>
   (string \<times> string) list \<Rightarrow> (Chord \<times> NodeAddress option) go" where
  "chord_main sha certOk address portvar joinAddress joinPort stabilize fixFingers checkPred encode identifier nSucc verb fs =
     go_bind (getArgs sha certOk address portvar joinAddress joinPort stabilize fixFingers checkPred encode identifier nSucc verb fs)
       (\<lambda>chord.
     go_bind (initClient chord) (\<lambda>chord1.
       let chord2 = initDuplication chord1 in
       if joinNodeIp chord2 = ''XXX'' then
         go_bind (Create (chord2\<lparr>node := (node chord2)\<lparr>JoinPending := False\<rparr>\<rparr>)) (\<lambda>chord3. Inr (chord3, None))
       else Inr (chord2, Some (joinNodeIp chord2 @ '':'' @ joinNodePort chord2))))"

definition chord_init :: "(string \<Rightarrow> int) \<Rightarrow> nat \<Rightarrow> Chord \<Rightarrow> bool" where
  "chord_init sha r chord \<longleftrightarrow>
     (\<exists>certOk address portvar joinAddress joinPort stabilize fixFingers checkPred encode identifier verb fs nxt.
        chord_main sha certOk address portvar joinAddress joinPort stabilize fixFingers checkPred encode identifier
          (int r) verb fs = Inr (chord, nxt))"

section \<open>Events\<close>

datatype chord_event =
    RecvJoin JoinRequest
  | RecvNotify NotifyRequest
  | RecvStabilize StabilizeRequest
  | RecvFind FindRequest
  | RecvStore "string \<Rightarrow> bool" "string \<Rightarrow> bool" StoreFileRequest
  | DoneNotify NodeAddress "NotifyResponse option"
  | TickStabilize "NodeAddress \<Rightarrow> StabilizeRequest \<Rightarrow> StabilizeResponse option"
  | TickFingers "NodeAddress \<Rightarrow> FindRequest \<Rightarrow> Response option"
  | TickCheckPred "NodeAddress \<Rightarrow> FindRequest \<Rightarrow> Response option" "string \<Rightarrow> bool" "string \<Rightarrow> bool" "NodeAddress \<Rightarrow> bool"

fun chord_exec :: "(string \<Rightarrow> int) \<Rightarrow> Chord \<Rightarrow> chord_event \<Rightarrow> Chord go" where
  "chord_exec sha chord (RecvJoin req) = go_bind (Join_node sha chord req zero_Response) (\<lambda>(chord', resp). Inr chord')"
| "chord_exec sha chord (RecvNotify req) = Inr (fst (Notify sha chord req zero_NotifyResponse))"
| "chord_exec sha chord (RecvStabilize req) = Inr (fst (Stabilize chord req zero_StabilizeResponse))"
| "chord_exec sha chord (RecvFind req) = go_bind (FindSuccessor sha chord req zero_Response) (\<lambda>resp. Inr chord)"
| "chord_exec sha chord (RecvStore createOk writeOk req) =
     go_bind (StoreFile createOk writeOk chord req) (\<lambda>(chord', resp). Inr chord')"
| "chord_exec sha chord (DoneNotify a answer) = go_bind (CallNotify chord a answer) (\<lambda>(chord', nxt). Inr chord')"
| "chord_exec sha chord (TickStabilize net) = go_bind (CallStabilize net chord) (\<lambda>(chord', nxt). Inr chord')"
| "chord_exec sha chord (TickFingers net) = FixFingers sha net chord"
| "chord_exec sha chord (TickCheckPred net createOk writeOk alive) =
     go_bind (checkPred_tick sha net createOk writeOk alive chord) (\<lambda>(chord', msgs). Inr chord')"

text \<open>
  What the node relies on: no other node has the address ''X'', and the successor lists it is sent
  are at most one entry shorter than its own.
\<close>

fun chord_event_ok :: "nat \<Rightarrow> chord_event \<Rightarrow> bool" where
  "chord_event_ok r (RecvJoin req) \<longleftrightarrow> jr_NodeAddress req \<noteq> ''X''"
| "chord_event_ok r (DoneNotify a answer) \<longleftrightarrow> (a = ''X'' \<longrightarrow> answer = None)"
| "chord_event_ok r (TickStabilize net) \<longleftrightarrow>
     (\<forall>req. net ''X'' req = None) \<and>
     (\<forall>a req resp. net a req = Some resp \<longrightarrow> YouGood resp \<longrightarrow> r \<le> length (NodeSuccessors resp) + 1)"
| "chord_event_ok r _ \<longleftrightarrow> True"

definition chord_step :: "(string \<Rightarrow> int) \<Rightarrow> nat \<Rightarrow> Chord \<Rightarrow> chord_event \<Rightarrow> Chord \<Rightarrow> bool" where
  "chord_step sha r chord e chord' \<longleftrightarrow> chord_event_ok r e \<and> chord_exec sha chord e = Inr chord'"

section \<open>Invariant\<close>

lemma getIdentifier_ring: "getIdentifier sha a spec = Inr i \<Longrightarrow> on_ring i"
  by (auto simp: getIdentifier_def split: if_splits option.splits)

lemma chord_main_wf:
  assumes "chord_init sha r chord" "0 < r"
  shows "wf_chord r chord"
proof -
  obtain certOk address portvar joinAddress joinPort ts tff tcp encode ident verb fs nxt where
    m: "chord_main sha certOk address portvar joinAddress joinPort ts tff tcp encode ident (int r) verb fs = Inr (chord, nxt)"
    using assms(1) by (auto simp: chord_init_def)
  then obtain c0 c1 where c0: "getArgs sha certOk address portvar joinAddress joinPort ts tff tcp encode ident (int r) verb fs = Inr c0"
    and c1: "initClient c0 = Inr c1"
    and fin: "chord = initDuplication c1 \<or>
      Create ((initDuplication c1)\<lparr>node := (node (initDuplication c1))\<lparr>JoinPending := False\<rparr>\<rparr>) = Inr chord"
    by (auto simp: chord_main_def Let_def split: if_splits)
  have "length (FingerTable (node c0)) = keySize + 1" "length (Successors (node c0)) = r"
    "on_ring (Identifier (node c0))" "NextFinger (node c0) = 0" "NodeAddress (node c0) \<noteq> ''X''"
    using c0 by (auto simp: getArgs_def Let_def getIdentifier_ring append_eq_Cons_conv split: if_splits)
  from initClient_wf [OF this] c1 have "wf_chord r c1" by auto
  then have d: "wf_chord r (initDuplication c1)" by (rule wf_files) (simp add: initDuplication_def)
  then show ?thesis using fin Create_wf [OF wf_join_pending [OF d] assms(2), of False] by auto
qed

lemma FindSuccessor_ok:
  assumes "wf_chord r chord" "0 < r"
  shows "go_ok (\<lambda>resp. True) (FindSuccessor sha chord req resp0)"
proof -
  have "in_range (Successors (node chord)) 0" using wf_chordD(1) [OF assms(1)] assms(2) by (simp add: in_range_def)
  then show ?thesis
    unfolding FindSuccessor_def by (intro go_ok_bind [OF find_node_ok [OF assms]]) (auto simp: Let_def)
qed

lemma chord_exec_ok:
  assumes wf: "wf_chord r chord" and r: "0 < r" and ok: "chord_event_ok r e"
  shows "go_ok (wf_chord r) (chord_exec sha chord e)"
proof (cases e)
  case (RecvJoin req)
  then show ?thesis using Join_wf [OF wf r, of req sha zero_Response] ok by auto
next
  case (RecvFind req)
  then show ?thesis using wf by (auto intro!: go_ok_bind [OF FindSuccessor_ok [OF wf r]])
next
  case (RecvStore c w req)
  then show ?thesis by (auto intro!: go_ok_bind [OF StoreFile_ok [OF wf r]] same_node_wf [OF wf])
next
  case (DoneNotify a answer)
  then show ?thesis using CallNotify_wf [OF wf r, of a answer] ok by auto
next
  case (TickStabilize net)
  then show ?thesis using CallStabilize_wf [OF wf r, of net] ok by auto
next
  case (TickFingers net)
  then show ?thesis using FixFingers_wf [OF wf r] by simp
next
  case (TickCheckPred net c w alive)
  then show ?thesis by (auto intro!: go_ok_bind [OF checkPred_tick_ok [OF wf r]])
qed (use Notify_wf [OF wf] Stabilize_wf [OF wf] in auto)

lemma chord_step_wf: "wf_chord r chord \<Longrightarrow> 0 < r \<Longrightarrow> chord_step sha r chord e chord' \<Longrightarrow> wf_chord r chord'"
  using chord_exec_ok [of r chord e sha] by (simp add: chord_step_def)

interpretation chord_sys: invariant_system "chord_init sha r" "chord_step sha r" "\<lambda>chord. 0 < r \<longrightarrow> wf_chord r chord" for sha r
proof
  show "chord_init sha r s \<Longrightarrow> 0 < r \<longrightarrow> wf_chord r s" for s by (blast intro: chord_main_wf)
  show "0 < r \<longrightarrow> wf_chord r s \<Longrightarrow> chord_step sha r s e t \<Longrightarrow> 0 < r \<longrightarrow> wf_chord r t" for s e t
    by (blast intro: chord_step_wf)
qed

text \<open>A node before it creates or joins a ring, and the two ways to go on.\<close>

lemma node_started:
  assumes "verifyRange ts tff tcp"
  shows "\<exists>chord chord1. getArgs sha True address portvar joinIp joinPort ts tff tcp encode ''XXX'' (int r) verb fs = Inr chord \<and>
    initClient chord = Inr chord1 \<and> wf_chord r (initDuplication chord1) \<and>
    NodeAddress (node (initDuplication chord1)) = address @ '':'' @ portvar \<and>
    Identifier (node (initDuplication chord1)) = hashString sha (address @ '':'' @ portvar) \<and>
    Successors (node (initDuplication chord1)) = replicate r (address @ '':'' @ portvar) \<and>
    Predecessor (node (initDuplication chord1)) = ''X'' \<and>
    joinNodeIp (initDuplication chord1) = joinIp \<and> joinNodePort (initDuplication chord1) = joinPort"
proof -
  let ?a = "address @ '':'' @ portvar"
  obtain c0 where c0: "getArgs sha True address portvar joinIp joinPort ts tff tcp encode ''XXX'' (int r) verb fs = Inr c0"
      "node c0 = \<lparr>Identifier = hashString sha ?a, NodeAddress = ?a, Predecessor = '''', NextFinger = 0,
         FingerTable = replicate (keySize + 1) zero_FingerEntry, Successors = replicate r '''', JoinPending = True\<rparr>"
      "joinNodeIp c0 = joinIp" "joinNodePort c0 = joinPort"
    using assms by (simp add: getArgs_def getIdentifier_def Let_def)
  obtain c1 where c1: "initClient c0 = Inr c1" "wf_chord r c1" "NodeAddress (node c1) = ?a"
      "Identifier (node c1) = hashString sha ?a" "Successors (node c1) = replicate r ?a" "Predecessor (node c1) = ''X''"
    using initClient_wf [of c0 r] by (auto simp: c0(2) append_eq_Cons_conv)
  have j: "joinNodeIp c1 = joinIp" "joinNodePort c1 = joinPort"
    using c1(1) c0(3,4) by (auto simp: initClient_def Let_def)
  have "wf_chord r (initDuplication c1)" by (rule wf_files [OF c1(2)]) (simp add: initDuplication_def)
  then show ?thesis using c0(1) c1 j by (simp add: initDuplication_def)
qed

lemma chord_main_create:
  assumes "verifyRange ts tff tcp" "0 < r"
  shows "\<exists>chord. chord_main sha True address portvar ''XXX'' joinPort ts tff tcp encode ''XXX'' (int r) verb fs = Inr (chord, None) \<and>
    wf_chord r chord \<and> NodeAddress (node chord) = address @ '':'' @ portvar \<and>
    Identifier (node chord) = hashString sha (address @ '':'' @ portvar) \<and>
    Successors (node chord) = replicate r (address @ '':'' @ portvar) \<and>
    Predecessor (node chord) = address @ '':'' @ portvar"
proof -
  let ?a = "address @ '':'' @ portvar"
  obtain c0 c1 where c: "getArgs sha True address portvar ''XXX'' joinPort ts tff tcp encode ''XXX'' (int r) verb fs = Inr c0"
      "initClient c0 = Inr c1" "wf_chord r (initDuplication c1)" "NodeAddress (node (initDuplication c1)) = ?a"
      "Identifier (node (initDuplication c1)) = hashString sha ?a" "Successors (node (initDuplication c1)) = replicate r ?a"
      "joinNodeIp (initDuplication c1) = ''XXX''"
    using node_started [OF assms(1)] by blast
  let ?c2 = "(initDuplication c1)\<lparr>node := (node (initDuplication c1))\<lparr>JoinPending := False\<rparr>\<rparr>"
  from Create_wf [OF wf_join_pending [OF c(3)] assms(2)]
  obtain c3 where c3: "Create ?c2 = Inr c3" "wf_chord r c3" by blast
  moreover have "Successors (node c3) = replicate r ?a" "NodeAddress (node c3) = ?a" "Predecessor (node c3) = ?a"
    "Identifier (node c3) = hashString sha ?a"
    using c3(1) c(4-6) assms(2) by (cases r; auto simp: Create_def set_succ_def in_range_def)+
  ultimately show ?thesis using c(1,2,7) by (simp add: chord_main_def Let_def)
qed

lemma chord_main_join:
  assumes "verifyRange ts tff tcp" "joinIp \<noteq> ''XXX''"
  shows "\<exists>chord. chord_main sha True address portvar joinIp joinPort ts tff tcp encode ''XXX'' (int r) verb fs =
      Inr (chord, Some (joinIp @ '':'' @ joinPort)) \<and>
    wf_chord r chord \<and> NodeAddress (node chord) = address @ '':'' @ portvar \<and>
    Identifier (node chord) = hashString sha (address @ '':'' @ portvar) \<and>
    Successors (node chord) = replicate r (address @ '':'' @ portvar) \<and> Predecessor (node chord) = ''X''"
  using node_started [OF assms(1), of sha address portvar joinIp joinPort encode r verb fs] assms(2)
  by (auto simp: chord_main_def Let_def)

section \<open>Properties\<close>


text \<open>C22: in every reachable state the finger table has 161 entries whose identifiers are the node's
  identifier plus the powers of two around the ring, the successor list has the configured length with
  all unknown successors at its end, the next finger is a valid index, and finger 160 still points to
  the node itself.\<close>

theorem chord_tables_invariant:
  assumes "reach (chord_init sha r) (chord_step sha r) chord" "0 < r"
  shows "length (FingerTable (node chord)) = 161 \<and> length (Successors (node chord)) = r \<and>
    0 \<le> NextFinger (node chord) \<and> NextFinger (node chord) < 160 \<and>
    (\<forall>k. 1 \<le> k \<longrightarrow> k \<le> 160 \<longrightarrow>
       f_Identifier (FingerTable (node chord) ! k) = (Identifier (node chord) + 2 ^ (k - 1)) mod 2 ^ 160) \<and>
    (\<forall>i j. i < j \<longrightarrow> j < r \<longrightarrow> Successors (node chord) ! i = ''X'' \<longrightarrow> Successors (node chord) ! j = ''X'') \<and>
    f_NodeAddress (FingerTable (node chord) ! 160) = NodeAddress (node chord)"
proof -
  have wf: "wf_chord r chord" using chord_sys.reach_inv [OF assms(1)] assms(2) by simp
  have exp: "big_exp2 (int k - 1) = 2 ^ (k - 1)" if "1 \<le> k" for k
  proof (cases "k = 1")
    case False
    then have "nat (int k - 1) = k - 1" "\<not> int k - 1 \<le> 0" using that by auto
    then show ?thesis by (simp only: big_exp2_def if_False)
  qed (simp add: big_exp2_def)
  have "f_Identifier (FingerTable (node chord) ! k) = (Identifier (node chord) + 2 ^ (k - 1)) mod 2 ^ 160"
    if "1 \<le> k" "k \<le> 160" for k
    using wf_chordD(6) [OF wf that] exp [OF that(1)] by (simp only: jumpIdentifier_def hashMod_def keySize_def)
  moreover have "Successors (node chord) ! j = ''X''" if "i < j" "j < r" "Successors (node chord) ! i = ''X''" for i j
    using wf_chordD(1,8) [OF wf] that by (simp add: no_gap_def sorted_wrt_iff_nth_less)
  ultimately show ?thesis using wf_chordD(1,2,4,5,7) [OF wf] by blast
qed

section \<open>Nodes with different numbers of successors\<close>

lemma verifySuccs_loop_short:
  "''X'' \<notin> set (NodeSuccessors resp) \<Longrightarrow> length (NodeSuccessors resp) + 1 < m + k \<Longrightarrow> 1 \<le> m \<Longrightarrow>
   length (Successors (node chord)) = m + k \<Longrightarrow> m \<le> length (NodeSuccessors resp) + 1 \<Longrightarrow>
   verifySuccs_loop resp (map int [m..<m + k]) chord = Inl IndexOutOfRange"
proof (induction k arbitrary: m chord)
  case (Suc k)
  have ivl: "map int [m..<m + Suc k] = int m # map int [Suc m..<Suc m + k]" by (simp add: upt_conv_Cons)
  show ?case
  proof (cases "m - 1 < length (NodeSuccessors resp)")
    case True
    have "NodeSuccessors resp ! (m - 1) \<noteq> ''X''" using True Suc.prems(1) nth_mem by metis
    moreover have "m < length (Successors (node chord))" using Suc.prems by simp
    ultimately show ?thesis
      unfolding ivl using verifySuccs_loop_step [OF _ Suc.prems(3) True] Suc.IH [of "Suc m"] Suc.prems True by simp
  next
    case False
    then have "slice_get (NodeSuccessors resp) (int m - 1) = Inl IndexOutOfRange"
      using Suc.prems by (auto simp: slice_get_def in_range_def)
    then show ?thesis unfolding ivl by (simp only: verifySuccs_loop.simps go_bind.simps)
  qed
qed simp

text \<open>C40: a node whose successor answers with a list at least two entries shorter than its own stops with
  an index error when it stabilizes, so nodes started with different successor counts crash.\<close>

theorem short_successor_list_panics:
  assumes "Successors (node chord) = s # ss" "s \<noteq> ''X''" "s \<noteq> NodeAddress (node chord)"
    and "net s \<lparr>sr_NodeAddress = NodeAddress (node chord), sr_Identifier = Identifier (node chord)\<rparr> = Some resp"
    and "YouGood resp" "''X'' \<notin> set (NodeSuccessors resp)" "length (NodeSuccessors resp) < length ss"
  shows "CallStabilize net chord = Inl IndexOutOfRange"
proof -
  have "verifySuccs chord resp = Inl IndexOutOfRange"
    unfolding verifySuccs_def
    using verifySuccs_loop_short [OF assms(6), of 1 "length ss" chord] assms(1,7) by simp
  then show ?thesis using assms(1-5) by (simp add: CallStabilize_def Let_def)
qed

section \<open>Witnesses\<close>

definition demo_sha :: "string \<Rightarrow> int" where
  "demo_sha s = int (length s) * 1000"

text \<open>A node that creates a ring with three successor entries.\<close>

definition demo_node :: Chord where
  "demo_node = (case chord_main demo_sha True ''localhost'' ''8080'' ''XXX'' '''' 1000 1000 1000 ''key'' ''XXX'' 3 False [] of
     Inr (chord, nxt) \<Rightarrow> chord)"

lemma demo_node_start:
  "chord_main demo_sha True ''localhost'' ''8080'' ''XXX'' '''' 1000 1000 1000 ''key'' ''XXX'' (int 3) False [] =
     Inr (demo_node, None) \<and>
   NodeAddress (node demo_node) = ''localhost:8080'' \<and> Identifier (node demo_node) = 14000 \<and>
   Successors (node demo_node) = [''localhost:8080'', ''localhost:8080'', ''localhost:8080'']"
proof -
  obtain c where c: "chord_main demo_sha True ''localhost'' ''8080'' ''XXX'' '''' 1000 1000 1000 ''key'' ''XXX'' (int 3) False [] =
      Inr (c, None)" "NodeAddress (node c) = ''localhost'' @ '':'' @ ''8080''"
    "Identifier (node c) = hashString demo_sha (''localhost'' @ '':'' @ ''8080'')"
    "Successors (node c) = replicate 3 (''localhost'' @ '':'' @ ''8080'')"
    using chord_main_create [of 1000 1000 1000 3 demo_sha "''localhost''" "''8080''" "''''" "''key''" False "[]"]
    by (auto simp: verifyRange_def)
  moreover from c(1) have "demo_node = c" by (simp add: demo_node_def)
  ultimately show ?thesis
    by (simp add: hashString_def mod_id_def demo_sha_def hashMod_def keySize_def numeral_3_eq_3)
qed

lemma demo_node_init: "chord_init demo_sha 3 demo_node"
  unfolding chord_init_def using demo_node_start by blast

lemma demo_node_reach: "reach (chord_init demo_sha 3) (chord_step demo_sha 3) demo_node"
  using demo_node_init by (rule reach.intros)

definition demo_join :: chord_event where
  "demo_join = RecvJoin \<lparr>jr_NodeAddress = ''host:1'', jr_Identifier = 6000\<rparr>"


theorem chord_tables_invariant_witness:
  "f_NodeAddress (FingerTable (node demo_node) ! 160) = NodeAddress (node demo_node) \<and>
   length (FingerTable (node demo_node)) = 161"
  using chord_tables_invariant [OF demo_node_reach] by simp

definition demo_joined :: Chord where
  "demo_joined = (case chord_exec demo_sha demo_node demo_join of Inr c \<Rightarrow> c)"

lemma demo_joined_node:
  "Successors (node demo_joined) = [''host:1'', ''localhost:8080'', ''localhost:8080''] \<and>
   NodeAddress (node demo_joined) = ''localhost:8080''"
  using demo_node_start
  by (simp add: demo_joined_def demo_join_def Join_node_def find_node_def between_def hashString_def
      mod_id_def demo_sha_def hashMod_def keySize_def set_succ_def in_range_def)

theorem short_successor_list_panics_witness:
  "CallStabilize (\<lambda>a req. Some \<lparr>YouGood = True, sp_NewPredAddress = '''', NodeSuccessors = [''localhost:8080'']\<rparr>)
     demo_joined = Inl IndexOutOfRange"
  by (rule short_successor_list_panics [of _ "''host:1''" "[''localhost:8080'', ''localhost:8080'']"])
    (simp_all add: demo_joined_node)+

end
