(* ===== verification/Chord_Ring.thy ===== *)
theory Chord_Ring
  imports Chord_System
begin

text \<open>
  Lookup on a ring of nodes.  The owner of an identifier is the node that comes first clockwise;
  when a node knows its true neighbours, the search of \<^verbatim>\<open>find\<close> names the owner, and on a ring no
  larger than the successor list every lookup does.  On a larger ring the search can fall through to
  the finger table, whose last entry is never maintained.
\<close>

section \<open>The specification\<close>

definition owner :: "(string \<Rightarrow> int) \<Rightarrow> NodeAddress set \<Rightarrow> int \<Rightarrow> NodeAddress \<Rightarrow> bool" where
  "owner sha N x a \<longleftrightarrow> a \<in> N \<and>
     (\<forall>b\<in>N. (hashString sha a - x) mod hashMod \<le> (hashString sha b - x) mod hashMod)"

text \<open>\<open>b\<close> follows \<open>a\<close>: no node lies strictly between them.\<close>

definition ring_next :: "(string \<Rightarrow> int) \<Rightarrow> NodeAddress set \<Rightarrow> NodeAddress \<Rightarrow> NodeAddress \<Rightarrow> bool" where
  "ring_next sha N a b \<longleftrightarrow> a \<in> N \<and> b \<in> N \<and>
     (\<forall>c\<in>N. cw (hashString sha a) (hashString sha b) \<le> cw (hashString sha a) (hashString sha c))"

text \<open>A list of successors of \<open>m\<close> that continues after \<open>a\<close>, correct until it comes back to \<open>m\<close>.\<close>

fun succ_chain ::
  "(string \<Rightarrow> int) \<Rightarrow> NodeAddress set \<Rightarrow> NodeAddress \<Rightarrow> NodeAddress \<Rightarrow> NodeAddress list \<Rightarrow> bool" where
  "succ_chain sha N m a [] \<longleftrightarrow> True"
| "succ_chain sha N m a (s # ss) \<longleftrightarrow> ring_next sha N a s \<and> (s = m \<or> succ_chain sha N m s ss)"

text \<open>A node of a stable ring.\<close>

definition ring_node :: "(string \<Rightarrow> int) \<Rightarrow> NodeAddress set \<Rightarrow> Chord \<Rightarrow> bool" where
  "ring_node sha N chord \<longleftrightarrow>
     finite N \<and> ''X'' \<notin> N \<and> inj_on (hashString sha) N \<and>
     Identifier (node chord) = hashString sha (NodeAddress (node chord)) \<and>
     succ_chain sha N (NodeAddress (node chord)) (NodeAddress (node chord)) (Successors (node chord)) \<and>
     ring_next sha N (Predecessor (node chord)) (NodeAddress (node chord))"

section \<open>Distances\<close>

lemma mod_dist:
  assumes "on_ring p" "on_ring x" "on_ring c"
  shows "(c - x) mod hashMod = (if cw p x \<le> cw p c then cw p c - cw p x else cw p c - cw p x + hashMod)"
proof -
  have "(c - x) mod hashMod = (if x \<le> c then c - x else c - x + hashMod)"
  proof (cases "x \<le> c")
    case True
    then show ?thesis using assms by (simp add: on_ring_def)
  next
    case False
    then have "(c - x + hashMod) mod hashMod = c - x + hashMod"
      using assms by (intro mod_pos_pos_trivial) (simp_all add: on_ring_def)
    then show ?thesis using False by simp
  qed
  then show ?thesis using assms by (auto simp: cw_cases on_ring_def)
qed

lemma ring_next_owner:
  assumes "ring_next sha N p s" "on_ring x" "cw (hashString sha p) x \<le> cw (hashString sha p) (hashString sha s)"
  shows "owner sha N x s"
  unfolding owner_def
proof (intro conjI ballI)
  show "s \<in> N" using assms(1) by (simp add: ring_next_def)
  fix b assume "b \<in> N"
  then have "cw (hashString sha p) (hashString sha s) \<le> cw (hashString sha p) (hashString sha b)"
    using assms(1) by (simp add: ring_next_def)
  then show "(hashString sha s - x) mod hashMod \<le> (hashString sha b - x) mod hashMod"
    using assms(2,3) by (simp add: mod_dist [of "hashString sha p" x])
qed

lemma owner_unique:
  assumes "owner sha N x a" "owner sha N x b" "inj_on (hashString sha) N" "on_ring x"
  shows "a = b"
proof -
  have "(hashString sha a - x) mod hashMod = (hashString sha b - x) mod hashMod"
    using assms(1,2) by (auto simp: owner_def intro: antisym)
  then have "hashString sha a = hashString sha b"
    using cw_bounds [of x "hashString sha a"] cw_bounds [of x "hashString sha b"] assms(4)
    by (auto simp: mod_dist [of x x] cw_inj split: if_splits)
  then show ?thesis using assms(1-3) by (auto simp: owner_def inj_on_def)
qed

section \<open>The search\<close>

text \<open>
  Below, \<open>q\<close> is the part of the list already passed: the identifier is not between the node and \<open>q\<close>.
\<close>

lemma find_loop_owner:
  assumes me: "Identifier (node chord) = hashString sha (NodeAddress (node chord))"
    and pred: "ring_next sha N (Predecessor (node chord)) (NodeAddress (node chord))"
    and "''X'' \<notin> N" "on_ring x"
  shows "succ_chain sha N (NodeAddress (node chord)) q ss \<Longrightarrow>
    q = NodeAddress (node chord) \<or> cw (Identifier (node chord)) (hashString sha q) < cw (Identifier (node chord)) x \<Longrightarrow>
    find_loop sha chord x ss resp0 = Inr (resp, code) \<Longrightarrow> code \<noteq> PASSALONG \<Longrightarrow>
    IsSuccessor resp \<and> r_Identifier resp = hashString sha (r_NodeAddress resp) \<and> owner sha N x (r_NodeAddress resp)"
proof (induction ss arbitrary: q)
  case Nil
  have "closestPreceedingNode_loop chord x n r0 = Inr (resp, code) \<Longrightarrow> code = PASSALONG" for n r0
    by (induction n) (auto split: if_splits)
  then show ?case using Nil by (auto simp: closestPreceedingNode_def)
next
  case (Cons s ss)
  let ?m = "Identifier (node chord)"
  have nx: "ring_next sha N q s" and "s \<in> N" using Cons.prems(1) by (auto simp: ring_next_def)
  then have "s \<noteq> ''X''" using assms(3) by auto
  have on: "on_ring ?m" using me by simp
  consider "cw ?m x \<le> cw ?m (hashString sha s)"
    | "\<not> cw ?m x \<le> cw ?m (hashString sha s)" "between (hashString sha (Predecessor (node chord))) x ?m True"
    | "\<not> cw ?m x \<le> cw ?m (hashString sha s)" "\<not> between (hashString sha (Predecessor (node chord))) x ?m True"
    by blast
  then show ?case
  proof cases
    case 1
    have "cw (hashString sha q) x \<le> cw (hashString sha q) (hashString sha s)"
    proof (cases "q = NodeAddress (node chord)")
      case False
      then show ?thesis using Cons.prems(2) 1 on assms(4) by (auto simp: cw_shift [of ?m "hashString sha q"])
    qed (use 1 me in simp)
    then have "owner sha N x s" using ring_next_owner [OF nx assms(4)] by simp
    then show ?thesis using Cons.prems(3) 1 \<open>s \<noteq> ''X''\<close> on assms(4) by (simp add: between_incl_cw Let_def) auto
  next
    case 2
    then have "owner sha N x (NodeAddress (node chord))"
      using ring_next_owner [OF pred assms(4)] me assms(4) by (simp add: between_incl_cw)
    then show ?thesis
      using Cons.prems(3) 2 \<open>s \<noteq> ''X''\<close> on assms(4) me by (simp add: between_incl_cw Let_def) auto
  next
    case 3
    have n: "\<not> between ?m x (hashString sha s) True" using 3(1) on assms(4) by (simp add: between_incl_cw)
    have "find_loop sha chord x ss resp0 = Inr (resp, code)"
      using Cons.prems(3) 3 \<open>s \<noteq> ''X''\<close> n by (simp add: Let_def)
    moreover have "s \<noteq> NodeAddress (node chord)"
      using 3(1) me on assms(4) cw_bounds [of ?m x] by (auto simp: cw_def)
    ultimately show ?thesis using Cons.IH [of s] Cons.prems 3(1) by auto
  qed
qed

text \<open>A successor list with the node itself or its predecessor answers every search.\<close>

lemma find_loop_complete:
  assumes me: "Identifier (node chord) = hashString sha (NodeAddress (node chord))" and x: "on_ring x"
  shows "NodeAddress (node chord) \<in> set ss \<or> Predecessor (node chord) \<in> set ss \<Longrightarrow>
    \<exists>resp code. find_loop sha chord x ss resp0 = Inr (resp, code) \<and> code \<noteq> PASSALONG"
proof (induction ss)
  case (Cons s ss)
  let ?m = "Identifier (node chord)" and ?p = "hashString sha (Predecessor (node chord))"
  have own: "between ?m x (hashString sha s) True" if "s = NodeAddress (node chord)"
    using me that by (auto simp: between_def)
  have "between ?m x ?p True \<or> between ?p x ?m True"
    using me x by (auto simp: between_def)
  then show ?case using Cons own by (auto simp: Let_def)
qed simp

lemma ring_next_increasing:
  assumes "ring_next sha N q s" "m \<in> N" "hashString sha q \<noteq> hashString sha m"
    and "hashString sha s \<noteq> hashString sha m"
  shows "cw (hashString sha m) (hashString sha q) < cw (hashString sha m) (hashString sha s)"
proof (rule ccontr)
  let ?m = "hashString sha m" and ?q = "hashString sha q" and ?s = "hashString sha s"
  assume "\<not> cw ?m ?q < cw ?m ?s"
  then have "cw ?q ?s = cw ?m ?s - cw ?m ?q + hashMod" by (simp add: cw_shift [of ?m ?q])
  moreover have "cw ?m ?q < cw ?m ?m"
    using cw_bounds [of ?m ?q] cw_inj [of ?m ?q ?m] assms(3) by (force simp: cw_def [of ?m ?m])
  then have "cw ?q ?m = hashMod - cw ?m ?q" by (simp add: cw_shift [of ?m ?q ?m] cw_def [of ?m ?m])
  moreover have "cw ?q ?s \<le> cw ?q ?m" using assms(1,2) by (simp add: ring_next_def)
  ultimately show False using cw_bounds [of ?m ?s] by simp
qed

lemma chain_increasing:
  assumes "m \<in> N" "inj_on (hashString sha) N"
  shows "succ_chain sha N m q ss \<Longrightarrow> m \<notin> set ss \<Longrightarrow> q \<noteq> m \<Longrightarrow>
    sorted_wrt (\<lambda>a b. cw (hashString sha m) (hashString sha a) < cw (hashString sha m) (hashString sha b)) (q # ss)"
proof (induction ss arbitrary: q)
  case (Cons s ss)
  have nx: "ring_next sha N q s" using Cons.prems(1) by simp
  then have "hashString sha q \<noteq> hashString sha m" "hashString sha s \<noteq> hashString sha m"
    using Cons.prems assms by (auto simp: ring_next_def dest: inj_onD)
  then have "cw (hashString sha m) (hashString sha q) < cw (hashString sha m) (hashString sha s)"
    using ring_next_increasing [OF nx assms(1)] by simp
  with Cons.IH [of s] Cons.prems show ?case by fastforce
qed simp

lemma sorted_wrt_key_distinct: "sorted_wrt (\<lambda>a b. f a < (f b :: int)) xs \<Longrightarrow> distinct xs"
  by (induction xs) auto

lemma chain_members: "succ_chain sha N m q ss \<Longrightarrow> m \<notin> set ss \<Longrightarrow> set ss \<subseteq> N"
  by (induction ss arbitrary: q) (auto simp: ring_next_def)

lemma chain_covers:
  assumes "succ_chain sha N m m ss" "m \<in> N" "finite N" "inj_on (hashString sha) N" "card N \<le> length ss + 1"
    and "m \<notin> set ss"
  shows "set ss = N - {m}"
proof (rule card_seteq)
  show sub: "set ss \<subseteq> N - {m}" using chain_members [OF assms(1,6)] assms(6) by blast
  have "distinct ss"
  proof (cases ss)
    case (Cons s rest)
    then have "s \<noteq> m" "m \<notin> set rest" "succ_chain sha N m s rest" using assms(1,6) by auto
    from chain_increasing [OF assms(2,4) this(3,2,1)] show ?thesis
      unfolding Cons by (rule sorted_wrt_key_distinct)
  qed simp
  then show "card (N - {m}) \<le> card (set ss)" using assms(2,3,5) by (simp add: distinct_card)
qed (use assms in simp)

lemma ring_node_me:
  assumes "ring_node sha N chord"
  shows "Identifier (node chord) = hashString sha (NodeAddress (node chord))" "NodeAddress (node chord) \<in> N"
    "ring_next sha N (Predecessor (node chord)) (NodeAddress (node chord))"
    "succ_chain sha N (NodeAddress (node chord)) (NodeAddress (node chord)) (Successors (node chord))"
    "''X'' \<notin> N" "finite N" "inj_on (hashString sha) N"
  using assms by (simp_all add: ring_node_def ring_next_def)

lemma small_ring_resolves:
  assumes "ring_node sha N chord" "on_ring x" "card N \<le> length (Successors (node chord)) + 1"
    and "Successors (node chord) \<noteq> []"
  shows "\<exists>a. resolveIdentifier sha net chord x = Inr a \<and> owner sha N x a"
proof -
  note rn = ring_node_me [OF assms(1)]
  let ?m = "NodeAddress (node chord)" and ?p = "Predecessor (node chord)"
  have "?m \<in> set (Successors (node chord)) \<or> ?p \<in> set (Successors (node chord))"
  proof (cases "?m \<in> set (Successors (node chord))")
    case False
    then have all: "set (Successors (node chord)) = N - {?m}" using chain_covers [OF rn(4,2,6,7) assms(3)] by simp
    then obtain s where "s \<in> N" "s \<noteq> ?m" using assms(4) by (cases "Successors (node chord)") auto
    then have "?p \<noteq> ?m" using rn(2,3,7) cw_bounds [of "hashString sha ?m" "hashString sha s"]
        cw_inj [of "hashString sha ?m" "hashString sha s" "hashString sha ?m"]
      by (force simp: ring_next_def cw_def [of "hashString sha ?m" "hashString sha ?m"] dest: inj_onD)
    then show ?thesis using all rn(3) by (auto simp: ring_next_def)
  qed simp
  from find_loop_complete [OF rn(1) assms(2) this] obtain resp code
    where f: "find_node sha chord x zero_Response = Inr (resp, code)" "code \<noteq> PASSALONG" unfolding find_node_def by blast
  then have "owner sha N x (r_NodeAddress resp)"
    using find_loop_owner [OF rn(1,3,5) assms(2) rn(4)] unfolding find_node_def by blast
  then show ?thesis using f by (simp add: resolveIdentifier_def)
qed

section \<open>Properties\<close>

text \<open>C32: the interval test of the code is membership in a clockwise interval of the ring, the arc that
  starts after the first point and ends before the last one or at it when the end is included; an arc
  from a point to itself is the whole ring without that point or with it.\<close>

theorem between_is_arc:
  assumes "on_ring s" "on_ring x" "on_ring e"
  shows "between s x e inclusive \<longleftrightarrow>
    (\<exists>d. 0 < d \<and> x = (s + d) mod 2 ^ 160 \<and>
       (if inclusive then d \<le> (if s = e then 2 ^ 160 else (e - s) mod 2 ^ 160)
        else d < (if s = e then 2 ^ 160 else (e - s) mod 2 ^ 160)))"
proof -
  have M: "(2::int) ^ 160 = hashMod" by (simp add: hashMod_def keySize_def)
  have E: "(if s = e then hashMod else (e - s) mod hashMod) = cw s e" unfolding cw_def by auto
  have small: "d = cw s x" if "0 < d" "d \<le> hashMod" "x = (s + d) mod hashMod" for d
  proof (cases "d = hashMod")
    case True
    then show ?thesis using that assms(1) by (simp add: cw_def on_ring_def)
  next
    case False
    then have "(x - s) mod hashMod = d" using that by (simp add: mod_diff_left_eq)
    then show ?thesis using that False by (auto simp: cw_def)
  qed
  have ex: "x = (s + cw s x) mod hashMod" using assms(1,2) by (auto simp: cw_def mod_add_right_eq on_ring_def)
  have bd: "0 < cw s x" "cw s x \<le> hashMod" "cw s e \<le> hashMod" using assms cw_bounds by auto
  have btw: "between s x e inclusive \<longleftrightarrow> (if inclusive then cw s x \<le> cw s e else cw s x < cw s e)"
    using between_incl_cw [OF assms] between_cw [OF assms, of inclusive] by (cases inclusive) auto
  show ?thesis
    unfolding btw M E
  proof
    show "\<exists>d. 0 < d \<and> x = (s + d) mod hashMod \<and> (if inclusive then d \<le> cw s e else d < cw s e)"
      if "if inclusive then cw s x \<le> cw s e else cw s x < cw s e"
      using that ex bd(1) by blast
    assume "\<exists>d. 0 < d \<and> x = (s + d) mod hashMod \<and> (if inclusive then d \<le> cw s e else d < cw s e)"
    then obtain d where d: "0 < d" "x = (s + d) mod hashMod" "if inclusive then d \<le> cw s e else d < cw s e" by blast
    then have "d \<le> hashMod" using bd(3) by (simp split: if_splits)
    then show "if inclusive then cw s x \<le> cw s e else cw s x < cw s e" using small [OF d(1) _ d(2)] d(3) by (cases inclusive) simp_all
  qed
qed


text \<open>C24: on a ring with at most one node more than the successor list has entries, resolving an
  identifier at any stable node gives its owner, without asking any other node.\<close>

theorem small_ring_lookup:
  assumes "ring_node sha N chord" "on_ring x" "card N \<le> length (Successors (node chord)) + 1"
    and "Successors (node chord) \<noteq> []"
  shows "\<exists>a. resolveIdentifier sha net chord x = Inr a \<and> owner sha N x a"
  using small_ring_resolves [OF assms] .

section \<open>The last finger\<close>

lemma find_loop_step_passed:
  "find_loop sha chord x (s # ss) resp0 = Inr (resp, PASSALONG) \<Longrightarrow>
   find_loop sha chord x ss resp0 = Inr (resp, PASSALONG) \<and>
   \<not> between (hashString sha (Predecessor (node chord))) x (Identifier (node chord)) True"
  by (simp add: Let_def split: if_splits)

lemma find_loop_passed:
  "find_loop sha chord x ss resp0 = Inr (resp, PASSALONG) \<Longrightarrow> closestPreceedingNode chord x resp0 = Inr (resp, PASSALONG)"
proof (induction ss)
  case (Cons s ss)
  from find_loop_step_passed [OF Cons.prems] Cons.IH show ?case by blast
qed simp

text \<open>The half of the ring that follows the node belongs to the last finger.\<close>

lemma cw_half:
  assumes "on_ring m"
  shows "cw m (jumpIdentifier m 160) = 2 ^ 159"
proof -
  have j: "jumpIdentifier m 160 = (m + 2 ^ 159) mod hashMod" by (simp add: jumpIdentifier_def big_exp2_def)
  have h: "hashMod = 2 ^ 159 + 2 ^ 159" by (simp add: hashMod_def keySize_def)
  have "(jumpIdentifier m 160 - m) mod hashMod = 2 ^ 159 mod hashMod" unfolding j by (simp add: mod_diff_left_eq)
  also have "\<dots> = 2 ^ 159" unfolding h by simp
  finally have d: "(jumpIdentifier m 160 - m) mod hashMod = 2 ^ 159" .
  then have "jumpIdentifier m 160 \<noteq> m" by auto
  with d show ?thesis by (simp only: cw_def if_False)
qed

text \<open>C39: an identifier in the half ring after a node that its successors do not cover is resolved to the
  node itself, although it does not lie between the predecessor and the node: finger 160 is set at
  start and never maintained, so the search stops at the node.\<close>

theorem far_lookup_returns_self:
  assumes "reach (chord_init sha r) (chord_step sha r) chord" "0 < r" "on_ring x"
    and "find_node sha chord x zero_Response = Inr (resp, PASSALONG)" "cw (Identifier (node chord)) x \<le> 2 ^ 159"
  shows "resolveIdentifier sha net chord x = Inr (NodeAddress (node chord)) \<and>
    \<not> between (hashString sha (Predecessor (node chord))) x (Identifier (node chord)) True"
proof -
  have wf: "wf_chord r chord" using chord_sys.reach_inv [OF assms(1)] assms(2) by simp
  have c: "closestPreceedingNode chord x zero_Response = Inr (resp, PASSALONG)"
    using find_loop_passed [OF assms(4) [unfolded find_node_def]] .
  obtain s ss where "Successors (node chord) = s # ss"
    using wf_chordD(1) [OF wf] assms(2) by (cases "Successors (node chord)") auto
  with assms(4) have n: "\<not> between (hashString sha (Predecessor (node chord))) x (Identifier (node chord)) True"
    using find_loop_step_passed [of sha chord x s ss zero_Response resp] unfolding find_node_def by metis
  have "f_Identifier (FingerTable (node chord) ! 160) = jumpIdentifier (Identifier (node chord)) 160"
    using wf_chordD(6) [OF wf, of 160] by simp
  then have "between (Identifier (node chord)) x (f_Identifier (FingerTable (node chord) ! 160)) True"
    using assms(3,5) cw_half wf_chordD(3) [OF wf] by (simp add: between_incl_cw)
  moreover have "slice_get (FingerTable (node chord)) 160 = Inr (FingerTable (node chord) ! 160)"
    using wf_chordD(2) [OF wf] by (simp add: in_range_def)
  ultimately have "r_NodeAddress resp = NodeAddress (node chord)"
    using c wf_chordD(7) [OF wf] closestPreceedingNode_loop.simps(2) [of chord x 159 zero_Response]
    by (auto simp: closestPreceedingNode_def keySize_def)
  then show ?thesis using assms(4) n by (simp add: resolveIdentifier_def)
qed

end
