(* ===== verification/Chord_Formation.thy ===== *)
theory Chord_Formation
  imports Chord_Ring
begin

text \<open>
  Two nodes form a ring: the exchange of calls after which a node that joins a one-node ring and the
  node it joined know each other, and the lookups that the new ring answers.  It also holds the
  round trip of a file through a node and the cases in which a file is lost.
\<close>

section \<open>Calls between two nodes\<close>

text \<open>The caller stabilizes; when the callee is its successor, the callee runs its handler.\<close>

definition stabilize_with :: "Chord \<Rightarrow> Chord \<Rightarrow> (Chord \<times> Chord) go" where
  "stabilize_with caller callee =
     (let req = \<lparr>sr_NodeAddress = NodeAddress (node caller), sr_Identifier = Identifier (node caller)\<rparr>;
          (callee', resp) = Stabilize callee req zero_StabilizeResponse
      in go_bind (slice_get (Successors (node caller)) 0) (\<lambda>s.
         go_bind (CallStabilize (\<lambda>a r. if a = NodeAddress (node callee) then Some resp else None) caller)
           (\<lambda>(caller', nxt). Inr (caller', if s = NodeAddress (node callee) then callee' else callee))))"

text \<open>The joining node calls \<^verbatim>\<open>Join\<close> and then \<^verbatim>\<open>Notify\<close> at the node it was told.\<close>

definition join_at :: "(string \<Rightarrow> int) \<Rightarrow> Chord \<Rightarrow> Chord \<Rightarrow> (Chord \<times> Chord) go" where
  "join_at sha a b =
     go_bind (Join_node sha a \<lparr>jr_NodeAddress = NodeAddress (node b), jr_Identifier = Identifier (node b)\<rparr> zero_Response)
       (\<lambda>(a1, resp).
     go_bind (CallJoin b (Some resp)) (\<lambda>nxt.
       case nxt of
         NotifyNode n \<Rightarrow>
           if n = NodeAddress (node a1) then
             let (a2, answer) = Notify sha a1 \<lparr>nr_NodeAddress = NodeAddress (node b), nr_Identifier = Identifier (node b)\<rparr>
                                 zero_NotifyResponse
             in go_bind (CallNotify b n (Some answer)) (\<lambda>(b1, n'). Inr (a2, b1))
           else Inr (a1, b)
       | JoinNode n \<Rightarrow> Inr (a1, b)))"

definition form_ring :: "(string \<Rightarrow> int) \<Rightarrow> Chord \<Rightarrow> Chord \<Rightarrow> (Chord \<times> Chord) go" where
  "form_ring sha a b =
     go_bind (join_at sha a b) (\<lambda>(a1, b1).
     go_bind (stabilize_with a1 b1) (\<lambda>(a2, b2).
     go_bind (stabilize_with b2 a2) (\<lambda>(b3, a3). Inr (a3, b3))))"

lemma verifySuccs_loop_copies:
  "''X'' \<notin> set (NodeSuccessors resp) \<Longrightarrow> m + k \<le> length (NodeSuccessors resp) + 1 \<Longrightarrow> 1 \<le> m \<Longrightarrow>
   length (Successors (node chord)) = m + k \<Longrightarrow>
   verifySuccs_loop resp (map int [m..<m + k]) chord =
     Inr (set_succs (take m (Successors (node chord)) @ take k (drop (m - 1) (NodeSuccessors resp))) chord)"
proof (induction k arbitrary: m chord)
  case 0
  then show ?case by (simp add: set_succs_def)
next
  case (Suc k)
  let ?s = "NodeSuccessors resp ! (m - 1)"
  let ?c = "set_succs ((Successors (node chord))[m := ?s]) chord"
  have m: "m < length (Successors (node chord))" "m - 1 < length (NodeSuccessors resp)" using Suc.prems by auto
  have ivl: "map int [m..<m + Suc k] = int m # map int [Suc m..<Suc m + k]" by (simp add: upt_conv_Cons)
  have "?s \<noteq> ''X''" using m(2) Suc.prems(1) nth_mem by metis
  moreover have "drop (m - 1) (NodeSuccessors resp) = ?s # drop m (NodeSuccessors resp)"
    using m(2) Suc.prems(3) by (metis Cons_nth_drop_Suc One_nat_def Suc_pred less_eq_Suc_le)
  ultimately show ?case
    unfolding ivl using verifySuccs_loop_step [OF m(1) Suc.prems(3) m(2)] Suc.IH [of "Suc m" ?c] Suc.prems m(1)
    by (simp add: set_succs_def take_Suc_conv_app_nth)
qed

lemma verifySuccs_copies:
  assumes "''X'' \<notin> set (NodeSuccessors resp)" "Successors (node chord) = s # ss" "length ss \<le> length (NodeSuccessors resp)"
  shows "verifySuccs chord resp = Inr (set_succs (s # take (length ss) (NodeSuccessors resp)) chord)"
  using verifySuccs_loop_copies [OF assms(1), of 1 "length ss" chord] assms(2,3) by (simp add: verifySuccs_def)

text \<open>A node that is on good terms with its successor takes over its list.\<close>

lemma stabilize_good:
  assumes "Successors (node a) = NodeAddress (node b) # ss" "NodeAddress (node b) \<noteq> ''X''"
    "NodeAddress (node b) \<noteq> NodeAddress (node a)" "''X'' \<notin> set (Successors (node b))"
    "length ss \<le> length (Successors (node b))"
    "Predecessor (node b) = ''X'' \<or> Predecessor (node b) = NodeAddress (node a)"
  shows "stabilize_with a b =
    Inr (set_succs (NodeAddress (node b) # take (length ss) (Successors (node b))) a, set_pred (NodeAddress (node a)) b)"
proof -
  let ?req = "\<lparr>sr_NodeAddress = NodeAddress (node a), sr_Identifier = Identifier (node a)\<rparr>"
  let ?resp = "zero_StabilizeResponse\<lparr>YouGood := True, NodeSuccessors := Successors (node b)\<rparr>"
  have "set_pred (NodeAddress (node a)) b = b" if "Predecessor (node b) = NodeAddress (node a)"
    using that by (simp add: set_pred_def)
  then have "Stabilize b ?req zero_StabilizeResponse = (set_pred (NodeAddress (node a)) b, ?resp)"
    using assms(6) by (auto simp: Stabilize_def)
  moreover have "verifySuccs a ?resp = Inr (set_succs (NodeAddress (node b) # take (length ss) (Successors (node b))) a)"
    using verifySuccs_copies [of ?resp a] assms(1,4,5) by simp
  ultimately show ?thesis
    using assms(1-3) by (simp add: stabilize_with_def CallStabilize_def Let_def)
qed

section \<open>Forming a ring\<close>

lemma join_at_fresh:
  assumes a: "Successors (node a) = NodeAddress (node a) # as" "Predecessor (node a) = NodeAddress (node a)"
      "NodeAddress (node a) \<noteq> ''X''" "Identifier (node a) = hashString sha (NodeAddress (node a))"
    and b: "Successors (node b) = s # bs" "Identifier (node b) \<noteq> Identifier (node a)"
  shows "join_at sha a b =
    Inr (set_pred (NodeAddress (node b)) (set_succs (NodeAddress (node b) # as) a),
         set_succs (NodeAddress (node a) # bs) (b\<lparr>node := (node b)\<lparr>JoinPending := False\<rparr>\<rparr>))"
proof -
  have arc: "between (Identifier (node a)) (Identifier (node b)) (Identifier (node a)) True"
    using b(2) by (auto simp: between_def)
  then have "Join_node sha a \<lparr>jr_NodeAddress = NodeAddress (node b), jr_Identifier = Identifier (node b)\<rparr> zero_Response =
      Inr (set_succs (NodeAddress (node b) # as) a,
           \<lparr>IsSuccessor = True, r_NodeAddress = NodeAddress (node a), r_Identifier = Identifier (node a)\<rparr>)"
    using a by (simp add: Join_node_def find_node_def set_succ_def)
  then show ?thesis
    using a b(1) arc
    by (simp add: join_at_def CallJoin_def Notify_def CallNotify_def set_succ_def zero_NotifyResponse_def Let_def)
qed

lemma two_ring_next:
  assumes "hashString sha a \<noteq> hashString sha b"
  shows "ring_next sha {a, b} a b"
  using assms cw_bounds [of "hashString sha a" "hashString sha b"]
  by (auto simp: ring_next_def cw_def [of "hashString sha a" "hashString sha a"])

lemma two_ring_node:
  assumes "NodeAddress (node c) = a" "Identifier (node c) = hashString sha a" "Predecessor (node c) = b"
    "Successors (node c) = b # ss" "ss = [] \<or> hd ss = a" "hashString sha a \<noteq> hashString sha b" "a \<noteq> ''X''" "b \<noteq> ''X''"
  shows "ring_node sha {a, b} c"
proof -
  have n: "ring_next sha {a, b} a b" using two_ring_next [OF assms(6)] .
  have n': "ring_next sha {a, b} b a" using two_ring_next [of sha b a] assms(6) by (simp add: insert_commute)
  have "succ_chain sha {a, b} a b ss" using n' assms(5) by (cases ss) auto
  then show ?thesis using assms n n' by (auto simp: ring_node_def)
qed

lemma form_ring_fresh:
  assumes r: "0 < r" and d: "hashString sha a \<noteq> hashString sha b" and X: "a \<noteq> ''X''" "b \<noteq> ''X''"
    and A: "Successors (node A) = replicate r a" "NodeAddress (node A) = a" "Predecessor (node A) = a"
      "Identifier (node A) = hashString sha a"
    and B: "Successors (node B) = replicate r b" "NodeAddress (node B) = b" "Predecessor (node B) = ''X''"
      "Identifier (node B) = hashString sha b"
  shows "\<exists>A' B'. form_ring sha A B = Inr (A', B') \<and> ring_node sha {a, b} A' \<and> ring_node sha {a, b} B' \<and>
    length (Successors (node A')) = r \<and> length (Successors (node B')) = r"
proof -
  obtain k where k: "r = Suc k" using r by (cases r) auto
  let ?A1 = "set_pred b (set_succs (b # replicate k a) A)"
  let ?B1 = "set_succs (a # replicate k b) (B\<lparr>node := (node B)\<lparr>JoinPending := False\<rparr>\<rparr>)"
  let ?as = "take k (a # replicate k b)"
  let ?A2 = "set_succs (b # ?as) ?A1"
  let ?B2 = "set_pred a ?B1"
  let ?bs = "take k (b # ?as)"
  let ?B3 = "set_succs (a # ?bs) ?B2"
  have "a \<noteq> b" using d by auto
  have nx: "''X'' \<notin> set ?as" using X by (auto dest: in_set_takeD)
  have j: "join_at sha A B = Inr (?A1, ?B1)"
    using join_at_fresh [of A "replicate k a" sha B b "replicate k b"] A B d X by (simp add: k)
  have s1: "stabilize_with ?A1 ?B1 = Inr (?A2, ?B2)"
    using stabilize_good [of ?A1 ?B1 "replicate k a"] A B X \<open>a \<noteq> b\<close> by simp
  have s2: "stabilize_with ?B2 ?A2 = Inr (?B3, set_pred b ?A2)"
    using stabilize_good [of ?B2 ?A2 "replicate k b"] A B X nx \<open>a \<noteq> b\<close> by simp
  have "ring_node sha {a, b} (set_pred b ?A2)"
    by (rule two_ring_node [of _ a _ b ?as]) (use A d X in \<open>auto simp: take_Cons'\<close>)
  moreover have "ring_node sha {b, a} ?B3"
    by (rule two_ring_node [of _ b _ a ?bs]) (use B d X in \<open>auto simp: take_Cons'\<close>)
  ultimately show ?thesis
    using j s1 s2 k by (simp add: form_ring_def insert_commute)
qed

text \<open>C5: a node that joins a one-node ring and the node it joined form a two-node ring: after the join, the
  notification and one stabilization of each, both know their true neighbours, and both resolve every
  identifier of the ring to its owner, for any length of the successor lists and any two addresses
  with different hashes.\<close>

theorem two_nodes_form_ring:
  assumes "verifyRange ts tff tcp" "0 < r" "ip \<noteq> ''XXX''"
    and "a = ip @ '':'' @ port" "b = ip' @ '':'' @ port'" "hashString sha a \<noteq> hashString sha b"
  shows "\<exists>A B A' B'.
    chord_main sha True ip port ''XXX'' '''' ts tff tcp key ''XXX'' (int r) verb fs = Inr (A, None) \<and>
    chord_main sha True ip' port' ip port ts tff tcp key ''XXX'' (int r) verb fs = Inr (B, Some a) \<and>
    form_ring sha A B = Inr (A', B') \<and> ring_node sha {a, b} A' \<and> ring_node sha {a, b} B' \<and>
    (\<forall>x. on_ring x \<longrightarrow> (\<exists>c. owner sha {a, b} x c \<and>
       resolveIdentifier sha net A' x = Inr c \<and> resolveIdentifier sha net B' x = Inr c))"
proof -
  obtain A where A: "chord_main sha True ip port ''XXX'' '''' ts tff tcp key ''XXX'' (int r) verb fs = Inr (A, None)"
      "NodeAddress (node A) = a" "Identifier (node A) = hashString sha a" "Successors (node A) = replicate r a"
      "Predecessor (node A) = a"
    using chord_main_create [OF assms(1,2)] unfolding assms(4) by blast
  obtain B where B: "chord_main sha True ip' port' ip port ts tff tcp key ''XXX'' (int r) verb fs = Inr (B, Some a)"
      "NodeAddress (node B) = b" "Identifier (node B) = hashString sha b" "Successors (node B) = replicate r b"
      "Predecessor (node B) = ''X''"
    using chord_main_join [OF assms(1,3)] unfolding assms(4,5) by blast
  have X: "a \<noteq> ''X''" "b \<noteq> ''X''" using assms(4,5) by (auto simp: append_eq_Cons_conv)
  obtain A' B' where f: "form_ring sha A B = Inr (A', B')" "ring_node sha {a, b} A'" "ring_node sha {a, b} B'"
      "length (Successors (node A')) = r" "length (Successors (node B')) = r"
    using form_ring_fresh [OF assms(2,6) X A(4,2,5,3) B(4,2,5,3)] by blast
  have c: "card {a, b} \<le> r + 1" "Successors (node A') \<noteq> []" "Successors (node B') \<noteq> []"
    using assms(2) f(4,5) by (auto simp: card_insert_if)
  have "\<exists>c. owner sha {a, b} x c \<and> resolveIdentifier sha net A' x = Inr c \<and> resolveIdentifier sha net B' x = Inr c"
    if x: "on_ring x" for x
    using small_ring_resolves [OF f(2) x _ c(2), of net] small_ring_resolves [OF f(3) x _ c(3), of net]
      owner_unique [OF _ _ ring_node_me(7) [OF f(2)] x] c(1) f(4,5) by metis
  then show ?thesis using A(1) B(1) f(1-3) by blast
qed

theorem two_nodes_form_ring_witness:
  "\<exists>A B A' B'.
    chord_main demo_sha True ''host'' ''1'' ''XXX'' '''' 1000 1000 1000 ''key'' ''XXX'' (int 3) False [] = Inr (A, None) \<and>
    chord_main demo_sha True ''host'' ''22'' ''host'' ''1'' 1000 1000 1000 ''key'' ''XXX'' (int 3) False [] = Inr (B, Some ''host:1'') \<and>
    form_ring demo_sha A B = Inr (A', B') \<and>
    (\<exists>c. owner demo_sha {''host:1'', ''host:22''} 6500 c \<and>
       resolveIdentifier demo_sha (\<lambda>_ _. None) A' 6500 = Inr c \<and> resolveIdentifier demo_sha (\<lambda>_ _. None) B' 6500 = Inr c)"
proof -
  have h: "hashString demo_sha ''host:1'' \<noteq> hashString demo_sha ''host:22''"
    by (simp add: hashString_def mod_id_def demo_sha_def hashMod_def keySize_def)
  have "on_ring 6500" by (simp add: on_ring_def hashMod_def keySize_def)
  with two_nodes_form_ring [of 1000 1000 1000 3 "''host''" "''host:1''" "''1''" "''host:22''" "''host''" "''22''" demo_sha
      "''key''" False "[]" "\<lambda>_ _. None"] h
  show ?thesis by (simp add: verifyRange_def) blast
qed

section \<open>Files\<close>

text \<open>A node that stores a sequence of files without file-system errors.\<close>

fun store_all :: "StoreFileRequest list \<Rightarrow> Chord \<Rightarrow> Chord go" where
  "store_all [] chord = Inr chord"
| "store_all (q # qs) chord =
     go_bind (StoreFile (\<lambda>_. True) (\<lambda>_. True) chord q) (\<lambda>(chord', resp). store_all qs chord')"

lemma StoreFile_stored:
  assumes "StoreFile (\<lambda>_. True) (\<lambda>_. True) chord q = Inr (chord', resp)"
  shows "node chord' = node chord" "DuplicationReq q \<or> FileName q \<noteq> name \<Longrightarrow>
      map_of (local_fs chord') (fileDir chord @ ''/'' @ name) = map_of (local_fs chord) (fileDir chord @ ''/'' @ name)"
    "\<not> DuplicationReq q \<Longrightarrow> map_of (local_fs chord') (fileDir chord @ ''/'' @ FileName q) = Some (sf_FileContent q)"
  using assms by (auto simp: StoreFile_def Let_def fileDir_def duplDir_def split: if_splits)

lemma store_all_keeps:
  "store_all qs chord = Inr chord' \<Longrightarrow> \<forall>q\<in>set qs. DuplicationReq q \<or> FileName q \<noteq> name \<Longrightarrow>
   node chord' = node chord \<and>
   map_of (local_fs chord') (fileDir chord @ ''/'' @ name) = map_of (local_fs chord) (fileDir chord @ ''/'' @ name)"
proof (induction qs arbitrary: chord)
  case (Cons q qs)
  obtain c1 resp where c1: "StoreFile (\<lambda>_. True) (\<lambda>_. True) chord q = Inr (c1, resp)" "store_all qs c1 = Inr chord'"
    using Cons.prems(1) by auto
  then show ?case using Cons.IH [OF c1(2)] Cons.prems(2) StoreFile_stored(1,2) [OF c1(1)] by (simp add: fileDir_def)
qed simp

lemma encrypt_decrypt:
  assumes "\<And>k n p. open' k n (seal k n p) = Some p" "aes_key_ok key" "length n = NonceSize"
  shows "encrypt seal (Some n) plain key = Some (n @ seal key n plain) \<and>
    decrypt open' (n @ seal key n plain) key = Inr (Some plain)"
  using assms by (simp add: encrypt_def decrypt_def)

lemma Split_one: "sep \<notin> set s \<Longrightarrow> Split s sep = [s]"
  by (induction s) auto

lemma Split_two: "sep \<notin> set a \<Longrightarrow> sep \<notin> set b \<Longrightarrow> Split (a @ sep # b) sep = [a, b]"
  by (induction a) (auto simp: Split_one)

lemma parse_StoreFile:
  assumes "CHR '' '' \<notin> set name" "getFileContent seal nonce readLocal name (encKey chord) = Some content"
    "resolveIdentifier sha net chord (hashString sha name) = Inr dest"
  shows "parseInput sha net look seal open' nonce readLocal chord (''StoreFile '' @ name @ [CHR 0x0A]) =
    Inr (chord, StoreSent (dest, \<lparr>FileIdentifier = hashString sha name, FileName = name, sf_FileContent = content,
      DuplicationReq = False\<rparr>))"
proof -
  have "Split (''StoreFile '' @ name @ [CHR 0x0A]) (CHR '' '') = [''StoreFile'', name @ [CHR 0x0A]]"
    using Split_two [of "CHR '' ''" "''StoreFile''" "name @ [CHR 0x0A]"] assms(1) by simp
  then show ?thesis using assms(2,3) by (simp add: parseInput_def Let_def drop_last_def CallStoreFile_def in_range_def)
qed

lemma parse_Lookup:
  assumes "CHR '' '' \<notin> set name"
  shows "parseInput sha net look seal open' nonce readLocal chord (''Lookup '' @ name @ [CHR 0x0A]) =
    go_bind (CallLookup sha net look open' chord \<lparr>rf_FileIdentifier = hashString sha name, rf_FileName = name\<rparr>)
      (\<lambda>r. Inr (chord, LookupShown r))"
proof -
  have "Split (''Lookup '' @ name @ [CHR 0x0A]) (CHR '' '') = [''Lookup'', name @ [CHR 0x0A]]"
    using Split_two [of "CHR '' ''" "''Lookup''" "name @ [CHR 0x0A]"] assms by simp
  then show ?thesis by (simp add: parseInput_def Let_def drop_last_def in_range_def)
qed


text \<open>C31: a notification changes a known predecessor only to a node that is closer to this one, counted
  backwards on the ring, and a refused notification leaves the node unchanged and is answered with the
  current predecessor.\<close>

theorem notify_moves_closer:
  assumes "on_ring (Identifier (node chord))" "on_ring (nr_Identifier req)" "nr_Identifier req \<noteq> Identifier (node chord)"
    and "Predecessor (node chord) \<noteq> ''X''" "nr_NodeAddress req \<noteq> Predecessor (node chord)"
    and "hashString sha (Predecessor (node chord)) \<noteq> Identifier (node chord)"
    and "Notify sha chord req zero_NotifyResponse = (chord', resp)"
  shows "if Success resp
    then Predecessor (node chord') = nr_NodeAddress req \<and>
      (Identifier (node chord) - nr_Identifier req) mod 2 ^ 160 \<le>
      (Identifier (node chord) - hashString sha (Predecessor (node chord))) mod 2 ^ 160
    else chord' = chord \<and> np_NewPredAddress resp = Predecessor (node chord)"
proof -
  let ?m = "Identifier (node chord)" and ?p = "hashString sha (Predecessor (node chord))" and ?x = "nr_Identifier req"
  have M: "(2::int) ^ 160 = hashMod" by (simp add: hashMod_def keySize_def)
  have "(?m - ?x) mod hashMod \<le> (?m - ?p) mod hashMod" if "between ?p ?x ?m True"
  proof -
    have "cw ?p ?x \<le> cw ?p ?m" using that assms(1,2) by (simp add: between_incl_cw)
    then have "cw ?x ?m \<le> cw ?p ?m"
      using assms(1-3) cw_bounds [of ?p ?x] cw_inj [of ?p ?x ?m] by (simp add: cw_shift [of ?p ?x])
    then show ?thesis using assms(3,6) by (simp add: cw_def split: if_splits)
  qed
  then show ?thesis
    unfolding M using assms(4,5,7) by (auto simp: Notify_def Let_def zero_NotifyResponse_def split: if_splits)
qed

section \<open>Witnesses\<close>

text \<open>The node of a two-node ring.\<close>

definition demo_two :: Chord where
  "demo_two = set_pred ''host:1'' demo_joined"

lemma demo_two_ring: "ring_node demo_sha {''localhost:8080'', ''host:1''} demo_two"
proof -
  have "Identifier (node demo_joined) = Identifier (node demo_node)"
    using demo_node_start
    by (simp add: demo_joined_def demo_join_def Join_node_def find_node_def between_def hashString_def
        mod_id_def demo_sha_def hashMod_def keySize_def set_succ_def in_range_def)
  then show ?thesis using demo_joined_node demo_node_start
    by (intro two_ring_node [where ss = "[''localhost:8080'', ''localhost:8080'']"])
      (simp_all add: demo_two_def hashString_def mod_id_def demo_sha_def hashMod_def keySize_def)
qed

lemma demo_ids [simp]: "hashString demo_sha s = int (length s) * 1000" if "length s \<le> 1000"
proof -
  have "int (length s) * 1000 < 2 ^ 160" using that by simp
  then show ?thesis by (simp add: hashString_def mod_id_def demo_sha_def hashMod_def keySize_def)
qed

lemma demo_two_id: "Identifier (node demo_two) = 14000" "Successors (node demo_two) = [''host:1'', ''localhost:8080'', ''localhost:8080'']"
  using ring_node_me(1) [OF demo_two_ring] demo_joined_node by (simp_all add: demo_two_def)


theorem small_ring_lookup_witness:
  "\<exists>a. resolveIdentifier demo_sha (\<lambda>_ _. None) demo_two 9000 = Inr a \<and> owner demo_sha {''localhost:8080'', ''host:1''} 9000 a"
  by (rule small_ring_lookup [OF demo_two_ring])
    (simp_all add: demo_two_id on_ring_def hashMod_def keySize_def card_insert_if)

theorem between_is_arc_witness:
  "between 10 3 5 True \<and> (\<exists>d. 0 < d \<and> (3::int) = (10 + d) mod 2 ^ 160 \<and> d \<le> (5 - 10) mod 2 ^ 160)"
proof -
  have "on_ring 10" "on_ring 3" "on_ring 5" by (simp_all add: on_ring_def hashMod_def keySize_def)
  moreover have "between 10 3 5 True" by (simp add: between_def)
  ultimately show ?thesis using between_is_arc [of 10 3 5 True] by (simp only: if_True) simp
qed

theorem notify_moves_closer_witness:
  "Predecessor (node (fst (Notify demo_sha demo_two \<lparr>nr_NodeAddress = ''host:1234'', nr_Identifier = 9000\<rparr> zero_NotifyResponse))) =
     ''host:1234'' \<and> (14000 - 9000) mod 2 ^ 160 \<le> (14000 - 6000) mod (2 ^ 160 :: int)"
proof -
  let ?n = "Notify demo_sha demo_two \<lparr>nr_NodeAddress = ''host:1234'', nr_Identifier = 9000\<rparr> zero_NotifyResponse"
  have p: "Predecessor (node demo_two) = ''host:1''" by (simp add: demo_two_def)
  have "Success (snd ?n)" by (simp add: Notify_def p demo_two_id between_def)
  then show ?thesis
    using notify_moves_closer [of demo_two "\<lparr>nr_NodeAddress = ''host:1234'', nr_Identifier = 9000\<rparr>" demo_sha "fst ?n" "snd ?n"]
    by (simp add: p demo_two_id on_ring_def hashMod_def keySize_def)
qed

theorem far_lookup_returns_self_witness:
  "\<exists>chord. NodeAddress (node chord) = ''localhost:8080'' \<and> Successors (node chord) = [''localhost:80801''] \<and>
     Predecessor (node chord) = ''localhost:808'' \<and>
     resolveIdentifier demo_sha (\<lambda>_ _. None) chord 16000 = Inr ''localhost:8080''"
proof -
  obtain c where m: "chord_main demo_sha True ''localhost'' ''8080'' ''XXX'' '''' 1000 1000 1000 ''key'' ''XXX'' (int 1) False [] =
      Inr (c, None)" "NodeAddress (node c) = ''localhost'' @ '':'' @ ''8080''"
      "Identifier (node c) = hashString demo_sha (''localhost'' @ '':'' @ ''8080'')"
      "Successors (node c) = replicate 1 (''localhost'' @ '':'' @ ''8080'')" "Predecessor (node c) = ''localhost'' @ '':'' @ ''8080''"
    using chord_main_create [of 1000 1000 1000 1 demo_sha "''localhost''" "''8080''" "''''" "''key''" False "[]"]
    by (auto simp: verifyRange_def)
  then have i: "chord_init demo_sha 1 c" unfolding chord_init_def by blast
  let ?j = "RecvJoin \<lparr>jr_NodeAddress = ''localhost:80801'', jr_Identifier = 15000\<rparr>"
  let ?n = "RecvNotify \<lparr>nr_NodeAddress = ''localhost:808'', nr_Identifier = 13000\<rparr>"
  let ?c1 = "set_succs [''localhost:80801''] c" and ?c2 = "set_pred ''localhost:808'' (set_succs [''localhost:80801''] c)"
  have "chord_step demo_sha 1 c ?j ?c1" using m
    by (simp add: chord_step_def Join_node_def find_node_def between_def set_succ_def in_range_def)
  moreover have "chord_step demo_sha 1 ?c1 ?n ?c2" using m by (simp add: chord_step_def Notify_def between_def)
  ultimately have r: "reach (chord_init demo_sha 1) (chord_step demo_sha 1) ?c2"
    using i by (meson reach.intros)
  have f: "find_node demo_sha ?c2 16000 zero_Response = closestPreceedingNode ?c2 16000 zero_Response"
    using m by (simp add: find_node_def between_def)
  have "wf_chord 1 ?c2" using chord_sys.reach_inv [OF r] by simp
  from closest_wf [OF this, of 160 16000 zero_Response] f obtain resp
    where p: "find_node demo_sha ?c2 16000 zero_Response = Inr (resp, PASSALONG)"
    by (auto simp: closestPreceedingNode_def keySize_def)
  have "cw (Identifier (node ?c2)) 16000 \<le> 2 ^ 159"
    using m(3) by (simp add: cw_def hashMod_def keySize_def)
  moreover have "on_ring 16000" by (simp add: on_ring_def hashMod_def keySize_def)
  ultimately have "resolveIdentifier demo_sha (\<lambda>_ _. None) ?c2 16000 = Inr (NodeAddress (node ?c2))"
    using far_lookup_returns_self [OF r _ _ p] by simp
  then show ?thesis using m(2) by (intro exI [of _ ?c2]) simp
qed

definition demo_keyed :: Chord where
  "demo_keyed = demo_node\<lparr>encKey := replicate 16 (CHR ''k'')\<rparr>"


end
