(* ===== verification/Http_Server.thy ===== *)
theory Http_Server
  imports Prelude
begin

text \<open>
  The HTTP server (\<^verbatim>\<open>Lab1_HTTP_server/httpserver.go\<close>): the handler of one connection and the
  accept loop that admits at most ten connections at a time.  The file system is an association list
  from resolved paths (lists of components) to contents; errors of the operating system are
  parameters.  A response is the value that \<^verbatim>\<open>net/http\<close> serialises on the connection.
\<close>

section \<open>Requests and responses\<close>

definition MAX_CONNECTIONS :: int where "MAX_CONNECTIONS = 10"

record http_request =
  Method :: string
  RequestURI :: string
  q_Proto :: string
  q_ProtoMajor :: int
  q_ProtoMinor :: int
  Host :: string
  q_Body :: string

record http_response =
  Proto :: string
  ProtoMajor :: int
  ProtoMinor :: int
  Status :: string
  StatusCode :: int
  Close :: bool
  Header :: "(string \<times> string) list"
  Body :: "string option"

record HTTPserver =
  port :: string
  serverType :: string
  numConnections :: int
  numTotal :: int
  tracer_verbose :: bool

definition getArgs_http :: "string \<Rightarrow> bool \<Rightarrow> HTTPserver" where
  "getArgs_http portvar verbose =
     \<lparr>port = portvar, serverType = ''tcp'', numConnections = 0, numTotal = 0, tracer_verbose = verbose\<rparr>"

definition defaultResponse :: "http_request \<Rightarrow> http_response" where
  "defaultResponse request =
     \<lparr>Proto = q_Proto request, ProtoMajor = q_ProtoMajor request, ProtoMinor = q_ProtoMinor request,
      Status = ''200 OK'', StatusCode = 200, Close = True, Header = [], Body = None\<rparr>"

definition internalErrorResponse :: http_response where
  "internalErrorResponse =
     \<lparr>Proto = ''HTTP/1.1'', ProtoMajor = 1, ProtoMinor = 1,
      Status = ''500 Internal Server Error'', StatusCode = 500, Close = True, Header = [], Body = None\<rparr>"

text \<open>\<^verbatim>\<open>http.Header.Add\<close>.\<close>

definition header_add :: "string \<Rightarrow> string \<Rightarrow> http_response \<Rightarrow> http_response" where
  "header_add k v resp = resp\<lparr>Header := Header resp @ [(k, v)]\<rparr>"

section \<open>Paths\<close>

text \<open>\<^verbatim>\<open>path.Ext\<close>: the loop from the end of the path to the last dot of the last element.\<close>

fun ext_loop :: "string \<Rightarrow> string \<Rightarrow> string" where
  "ext_loop [] acc = []"
| "ext_loop (c # s) acc =
     (if c = CHR ''/'' then [] else if c = CHR ''.'' then c # acc else ext_loop s (c # acc))"

definition path_Ext :: "string \<Rightarrow> string" where
  "path_Ext p = ext_loop (rev p) []"

text \<open>How the operating system resolves an absolute path without symbolic links.\<close>

fun resolve_parts :: "string list \<Rightarrow> string list \<Rightarrow> string list" where
  "resolve_parts acc [] = rev acc"
| "resolve_parts acc (p # ps) =
     (if p = [] \<or> p = ''.'' then resolve_parts acc ps
      else if p = ''..'' then resolve_parts (tl acc) ps
      else resolve_parts (p # acc) ps)"

definition os_path :: "string \<Rightarrow> string list" where
  "os_path p = resolve_parts [] (Split p (CHR ''/''))"

type_synonym http_fs = "(string list \<times> string) list"

section \<open>Handlers\<close>

text \<open>What the operating system answers while a request is handled.\<close>

record http_env =
  Getwd :: "string option"
  OpenOk :: "string list \<Rightarrow> bool"
  StatOk :: "string list \<Rightarrow> bool"
  CreateOk :: "string list \<Rightarrow> bool"
  CopyOk :: "string list \<Rightarrow> nat option"

definition content_type :: "string \<Rightarrow> string option" where
  "content_type ext =
     (if ext = ''.html'' then Some ''text/html''
      else if ext = ''.txt'' then Some ''text/plain''
      else if ext = ''.gif'' then Some ''image/gif''
      else if ext = ''.jpeg'' then Some ''image/jpeg''
      else if ext = ''.jpg'' then Some ''image/jpeg''
      else if ext = ''.css'' then Some ''text/css''
      else None)"

definition performGet :: "http_env \<Rightarrow> http_fs \<Rightarrow> http_request \<Rightarrow> http_response \<Rightarrow> http_response" where
  "performGet env fs httpReq resp =
     (case content_type (path_Ext (RequestURI httpReq)) of
        None \<Rightarrow> resp\<lparr>Status := ''400 Bad Request'', StatusCode := 400\<rparr>
      | Some ct \<Rightarrow>
          let resp1 = header_add ''Content-Type'' ct resp in
          (case Getwd env of
             None \<Rightarrow> internalErrorResponse
           | Some workingDir \<Rightarrow>
               let file = os_path (workingDir @ RequestURI httpReq) in
               (case (if OpenOk env file then map_of fs file else None) of
                  None \<Rightarrow>
                    header_add ''Content-Length'' ''0'' (resp1\<lparr>Status := ''404 Not Found'', StatusCode := 404\<rparr>)
                | Some content \<Rightarrow>
                    if \<not> StatOk env file then internalErrorResponse
                    else
                      (header_add ''Content-Disposition'' (''attachment; filename=\"'' @ last file @ ''\"'')
                        (header_add ''Content-Length'' (show_nat (length content)) resp1))
                        \<lparr>Body := Some content\<rparr>)))"

definition performPost :: "http_env \<Rightarrow> http_fs \<Rightarrow> http_request \<Rightarrow> http_response \<Rightarrow> http_fs \<times> http_response" where
  "performPost env fs httpReq resp =
     (case Getwd env of
        None \<Rightarrow> (fs, internalErrorResponse)
      | Some workingDir \<Rightarrow>
          let outFile = os_path (workingDir @ RequestURI httpReq) in
          if \<not> CreateOk env outFile then (fs, internalErrorResponse)
          else
            (case CopyOk env outFile of
               Some n \<Rightarrow> (al_put outFile (take n (q_Body httpReq)) fs, internalErrorResponse)
             | None \<Rightarrow> (al_put outFile (q_Body httpReq) fs, resp)))"

definition handleHTTPRequest :: "http_env \<Rightarrow> http_fs \<Rightarrow> http_request \<Rightarrow> http_response \<Rightarrow> http_fs \<times> http_response" where
  "handleHTTPRequest env fs httpReq resp =
     (if Method httpReq = ''GET'' then (fs, performGet env fs httpReq resp)
      else if Method httpReq = ''POST'' then performPost env fs httpReq resp
      else (fs, resp\<lparr>Status := ''501 Not Implemented'', StatusCode := 501\<rparr>))"

text \<open>The decrement that ends every connection; the flag tells whether the accept loop is signalled.\<close>

definition decrement :: "HTTPserver \<Rightarrow> HTTPserver \<times> bool" where
  "decrement server =
     (let server' = server\<lparr>numConnections := numConnections server - 1\<rparr>
      in (server', numConnections server' = MAX_CONNECTIONS - 1))"

text \<open>\<open>None\<close> for a request that could not be read; the last component is what is written back.\<close>

definition connectionHandler ::
  "http_env \<Rightarrow> HTTPserver \<Rightarrow> http_fs \<Rightarrow> http_request option \<Rightarrow> HTTPserver \<times> bool \<times> http_fs \<times> http_response option" where
  "connectionHandler env server fs request =
     (case request of
        None \<Rightarrow> let (server', sig) = decrement server in (server', sig, fs, None)
      | Some req \<Rightarrow>
          let (fs', response) = handleHTTPRequest env fs req (defaultResponse req);
              (server', sig) = decrement server
          in (server', sig, fs', Some response))"

section \<open>The accept loop\<close>

text \<open>
  The main goroutine accepts connections; it waits with an accepted connection while the server is
  full.  \<open>MainWaiting True\<close> is a waiting goroutine that was signalled and has not yet run.
\<close>

datatype http_phase = MainAccepting | MainWaiting bool | MainFatal

record http_sys =
  h_server :: HTTPserver
  h_phase :: http_phase
  h_active :: nat
  h_fs :: http_fs

definition admit :: "http_sys \<Rightarrow> http_sys" where
  "admit s =
     (let server' = (h_server s)\<lparr>numConnections := numConnections (h_server s) + 1\<rparr> in
      if numConnections server' > MAX_CONNECTIONS then s\<lparr>h_server := server', h_phase := MainFatal\<rparr>
      else s\<lparr>h_server := server', h_phase := MainAccepting, h_active := h_active s + 1\<rparr>)"

text \<open>The loop \<^verbatim>\<open>for numConnections == MAX_CONNECTIONS { Wait }\<close> from its test on.\<close>

definition wait_loop :: "http_sys \<Rightarrow> http_sys" where
  "wait_loop s =
     (if numConnections (h_server s) = MAX_CONNECTIONS then s\<lparr>h_phase := MainWaiting False\<rparr> else admit s)"

datatype http_event = AcceptFails | AcceptConn | WakeMain | FinishConn http_env "http_request option"

inductive http_step :: "http_sys \<Rightarrow> http_event \<Rightarrow> http_sys \<Rightarrow> bool" where
  accept_fails: "h_phase s = MainAccepting \<Longrightarrow> http_step s AcceptFails s"
| accept_conn: "h_phase s = MainAccepting \<Longrightarrow>
    http_step s AcceptConn (wait_loop (s\<lparr>h_server := (h_server s)\<lparr>numTotal := numTotal (h_server s) + 1\<rparr>\<rparr>))"
| wake_main: "h_phase s = MainWaiting True \<Longrightarrow> http_step s WakeMain (wait_loop s)"
| finish_conn: "0 < h_active s \<Longrightarrow> connectionHandler env (h_server s) (h_fs s) request = (server', sig, fs', resp) \<Longrightarrow>
    http_step s (FinishConn env request) (s\<lparr>h_server := server', h_fs := fs', h_active := h_active s - 1,
      h_phase := if sig \<and> h_phase s = MainWaiting False then MainWaiting True else h_phase s\<rparr>)"

inductive_cases http_step_E [elim!]: "http_step s e t"

definition http_init :: "http_sys \<Rightarrow> bool" where
  "http_init s \<longleftrightarrow> (\<exists>p v fs. s = \<lparr>h_server = getArgs_http p v, h_phase = MainAccepting, h_active = 0, h_fs = fs\<rparr>)"

text \<open>
  The counter is the number of running handlers, never above the limit; the accept loop sleeps only
  while the server is full, and a signalled loop finds a free place.
\<close>

definition http_inv :: "http_sys \<Rightarrow> bool" where
  "http_inv s \<longleftrightarrow> numConnections (h_server s) = int (h_active s) \<and> numConnections (h_server s) \<le> MAX_CONNECTIONS \<and>
     (case h_phase s of MainAccepting \<Rightarrow> True
      | MainWaiting sig \<Rightarrow> (if sig then numConnections (h_server s) < MAX_CONNECTIONS
                             else numConnections (h_server s) = MAX_CONNECTIONS)
      | MainFatal \<Rightarrow> False)"

lemma wait_loop_inv:
  assumes "numConnections (h_server s) = int (h_active s)" "numConnections (h_server s) \<le> MAX_CONNECTIONS"
  shows "http_inv (wait_loop s)"
  using assms by (auto simp: wait_loop_def admit_def http_inv_def Let_def)

lemma connectionHandler_counts:
  "connectionHandler env server fs request = (server', sig, fs', resp) \<Longrightarrow> decrement server = (server', sig)"
  by (auto simp: connectionHandler_def split: option.splits prod.splits)

interpretation http: invariant_system http_init http_step http_inv
proof
  show "http_init s \<Longrightarrow> http_inv s" for s
    by (auto simp: http_init_def http_inv_def getArgs_http_def MAX_CONNECTIONS_def)
next
  fix s e t
  assume inv: "http_inv s" and st: "http_step s e t"
  then have c: "numConnections (h_server s) = int (h_active s)" "numConnections (h_server s) \<le> MAX_CONNECTIONS"
    by (simp_all add: http_inv_def)
  from st show "http_inv t"
  proof cases
    case accept_conn
    then show ?thesis using c wait_loop_inv by simp
  next
    case wake_main
    then show ?thesis using c wait_loop_inv by simp
  next
    case (finish_conn env request server' sig fs' resp)
    then show ?thesis
      using inv connectionHandler_counts [OF finish_conn(4)]
      by (auto simp: http_inv_def decrement_def Let_def split: http_phase.splits if_splits)
  qed (use inv in simp)
qed

section \<open>Properties\<close>

text \<open>C9: in every reachable state the number of admitted connections is the number of running handlers and at
  most ten, the capacity check of the accept loop never fires, and the accept loop sleeps only while
  ten handlers are running, so that the next handler to finish wakes it: no signal is lost.\<close>

theorem http_capacity:
  assumes "reach http_init http_step s"
  shows "numConnections (h_server s) = int (h_active s) \<and> h_active s \<le> 10 \<and> h_phase s \<noteq> MainFatal \<and>
    (h_phase s = MainWaiting False \<longrightarrow> h_active s = 10 \<and>
       (\<forall>env request t. http_step s (FinishConn env request) t \<longrightarrow> h_phase t = MainWaiting True))"
  using http.reach_inv [OF assms]
  by (auto simp: http_inv_def decrement_def Let_def MAX_CONNECTIONS_def
      dest!: connectionHandler_counts split: http_phase.splits if_splits)

text \<open>A sequence of requests handled one after the other.\<close>

primrec serve_all :: "http_env \<Rightarrow> http_request list \<Rightarrow> http_fs \<Rightarrow> http_fs" where
  "serve_all env [] fs = fs"
| "serve_all env (q # qs) fs = serve_all env qs (fst (handleHTTPRequest env fs q (defaultResponse q)))"

lemma serve_all_keeps:
  assumes "Getwd env = Some wd" "\<forall>q\<in>set qs. Method q = ''POST'' \<longrightarrow> os_path (wd @ RequestURI q) \<noteq> file"
  shows "map_of (serve_all env qs fs) file = map_of fs file"
  using assms(2)
proof (induction qs arbitrary: fs)
  case (Cons q qs)
  then show ?case
    using assms(1) by (auto simp: handleHTTPRequest_def performPost_def Let_def split: option.splits)
qed simp

text \<open>C26: a file uploaded by POST is served by a later GET of the same address with status 200, its
  content, the content type of its extension and its length, whatever other requests, which do
  not upload to the same file, are handled in between.\<close>

theorem post_get_roundtrip:
  assumes "Getwd env = Some wd" "file = os_path (wd @ RequestURI post)"
    and "CreateOk env file" "CopyOk env file = None" "OpenOk env file" "StatOk env file"
    and "Method post = ''POST''" "Method get = ''GET''" "RequestURI get = RequestURI post"
    and "content_type (path_Ext (RequestURI post)) = Some ct"
    and "\<forall>q\<in>set qs. Method q = ''POST'' \<longrightarrow> os_path (wd @ RequestURI q) \<noteq> file"
    and "handleHTTPRequest env fs post (defaultResponse post) = (fs1, resp1)"
    and "handleHTTPRequest env (serve_all env qs fs1) get (defaultResponse get) = (fs2, resp2)"
  shows "StatusCode resp1 = 200 \<and> StatusCode resp2 = 200 \<and> Body resp2 = Some (q_Body post) \<and>
    (''Content-Type'', ct) \<in> set (Header resp2) \<and>
    (''Content-Length'', show_nat (length (q_Body post))) \<in> set (Header resp2)"
proof -
  have p: "map_of fs1 file = Some (q_Body post)" "StatusCode resp1 = 200"
    using assms(1-4,7,12)
    by (auto simp: handleHTTPRequest_def performPost_def Let_def defaultResponse_def)
  have "map_of (serve_all env qs fs1) file = Some (q_Body post)"
    using serve_all_keeps [OF assms(1,11)] p(1) by simp
  then show ?thesis
    using assms(1,2,5,6,8-10,13) p(2)
    by (auto simp: handleHTTPRequest_def performGet_def Let_def defaultResponse_def header_add_def)
qed

section \<open>Addresses that leave the directory\<close>

lemma Split_append: "Split (a @ sep # b) sep = Split a sep @ Split b sep"
  by (induction a) (auto split: list.splits)

lemma resolve_parts_append: "resolve_parts acc (ps @ qs) = resolve_parts (rev (resolve_parts acc ps)) qs"
  by (induction acc ps rule: resolve_parts.induct) auto

text \<open>A request for \<^verbatim>\<open>/../name\<close> is answered with a file of the parent directory.\<close>

lemma get_parent_directory:
  assumes "CHR ''/'' \<notin> set name" "name \<notin> {[], ''.'', ''..''}" "os_path wd \<noteq> []"
  shows "os_path (wd @ ''/../'' @ name) = butlast (os_path wd) @ [name]"
proof -
  have "Split name (CHR ''/'') = [name]"
    using assms(1) by (induction name) auto
  then have "Split (wd @ ''/../'' @ name) (CHR ''/'') = Split wd (CHR ''/'') @ [''..'', name]"
    using Split_append [of wd "CHR ''/''" "''../'' @ name"] Split_append [of "''..''" "CHR ''/''" name] by simp
  then show ?thesis using assms(2) by (simp add: os_path_def resolve_parts_append butlast_rev [symmetric])
qed

section \<open>Witnesses\<close>

definition demo_env :: http_env where
  "demo_env = \<lparr>Getwd = Some ''/srv/www'', OpenOk = (\<lambda>_. True), StatOk = (\<lambda>_. True), CreateOk = (\<lambda>_. True), CopyOk = (\<lambda>_. None)\<rparr>"

definition demo_http :: "string \<Rightarrow> string \<Rightarrow> string \<Rightarrow> http_request" where
  "demo_http m u b = \<lparr>Method = m, RequestURI = u, q_Proto = ''HTTP/1.1'', q_ProtoMajor = 1, q_ProtoMinor = 1, Host = ''h'', q_Body = b\<rparr>"

theorem post_get_roundtrip_witness:
  "let fs1 = fst (handleHTTPRequest demo_env [] (demo_http ''POST'' ''/a.txt'' ''hello'') (defaultResponse (demo_http ''POST'' ''/a.txt'' ''hello'')));
       fs2 = serve_all demo_env [demo_http ''POST'' ''/b.txt'' ''other'', demo_http ''PUT'' ''/a.txt'' ''x''] fs1;
       resp = snd (handleHTTPRequest demo_env fs2 (demo_http ''GET'' ''/a.txt'' '''') (defaultResponse (demo_http ''GET'' ''/a.txt'' '''')))
   in StatusCode resp = 200 \<and> Body resp = Some ''hello''"
  unfolding Let_def
  using post_get_roundtrip [of demo_env "''/srv/www''" "[''srv'', ''www'', ''a.txt'']" "demo_http ''POST'' ''/a.txt'' ''hello''"
      "demo_http ''GET'' ''/a.txt'' ''''" "''text/plain''" "[demo_http ''POST'' ''/b.txt'' ''other'', demo_http ''PUT'' ''/a.txt'' ''x'']"
      "[]", OF _ _ _ _ _ _ _ _ _ _ _ prod.collapse [symmetric] prod.collapse [symmetric]]
  by (simp add: demo_env_def demo_http_def os_path_def path_Ext_def content_type_def)

definition demo_http_init :: http_sys where
  "demo_http_init = \<lparr>h_server = getArgs_http ''1234'' False, h_phase = MainAccepting, h_active = 0, h_fs = []\<rparr>"

theorem http_capacity_witness:
  "numConnections (h_server (wait_loop demo_http_init)) = 1 \<and> h_active (wait_loop demo_http_init) \<le> 10"
proof -
  let ?t = "wait_loop (demo_http_init\<lparr>h_server := (h_server demo_http_init)\<lparr>numTotal := numTotal (h_server demo_http_init) + 1\<rparr>\<rparr>)"
  have "http_init demo_http_init" by (auto simp: http_init_def demo_http_init_def)
  moreover have "http_step demo_http_init AcceptConn ?t" by (rule accept_conn) (simp add: demo_http_init_def)
  ultimately have "reach http_init http_step ?t" by (meson reach.intros)
  from http_capacity [OF this] show ?thesis
    by (simp add: demo_http_init_def wait_loop_def admit_def getArgs_http_def MAX_CONNECTIONS_def)
qed

end
