(* ===== verification/Http_Proxy.thy ===== *)
theory Http_Proxy
  imports Http_Server
begin

text \<open>
  The HTTP proxy (\<^verbatim>\<open>Lab1_HTTP_server/Proxy/proxy.go\<close>): forwarding of one request and the accept loop.
  The handler returns early on requests that it does not forward, without giving its connection back;
  the counting theorem shows what follows.
\<close>

section \<open>Handlers\<close>

record HTTPProxy =
  p_port :: string
  p_serverType :: string
  p_numConnections :: int
  p_numTotal :: int
  p_verbose :: bool

definition getArgs_proxy :: "string \<Rightarrow> bool \<Rightarrow> HTTPProxy" where
  "getArgs_proxy portvar verbose =
     \<lparr>p_port = portvar, p_serverType = ''tcp'', p_numConnections = 0, p_numTotal = 0, p_verbose = verbose\<rparr>"

text \<open>A response literal without header and close flag, and the four responses of the proxy.\<close>

definition plain_response :: "http_request \<Rightarrow> string \<Rightarrow> int \<Rightarrow> http_response" where
  "plain_response request status code =
     \<lparr>Proto = q_Proto request, ProtoMajor = q_ProtoMajor request, ProtoMinor = q_ProtoMinor request,
      Status = status, StatusCode = code, Close = False, Header = [], Body = None\<rparr>"

definition badRequest :: "http_request \<Rightarrow> http_response" where
  "badRequest request = plain_response request ''400 Bad Request'' 400"

definition notFound :: "http_request \<Rightarrow> http_response" where
  "notFound request = plain_response request ''404 Not Found'' 404"

definition notImplemented :: "http_request \<Rightarrow> http_response" where
  "notImplemented request = plain_response request ''501 Not Implemented'' 501"

definition proxy_internalErrorResponse :: http_response where
  "proxy_internalErrorResponse =
     \<lparr>Proto = ''HTTP/1.1'', ProtoMajor = 1, ProtoMinor = 1,
      Status = ''500 Internal Server Error'', StatusCode = 500, Close = True, Header = [], Body = None\<rparr>"

definition validGETRequest :: "http_request \<Rightarrow> bool" where
  "validGETRequest request \<longleftrightarrow> Method request = ''GET''"

text \<open>The network: the local address of the connection, dialling, sending and the answer of a server.\<close>

record proxy_env =
  LocalAddr :: string
  DialOk :: "string \<Rightarrow> bool"
  SendOk :: "string \<Rightarrow> bool"
  Answer :: "string \<Rightarrow> http_request \<Rightarrow> http_response option"
  ReplyOk :: bool

definition writeResponse :: "proxy_env \<Rightarrow> http_response \<Rightarrow> http_response option" where
  "writeResponse env response = (if ReplyOk env then Some response else None)"

definition requestAndForward :: "proxy_env \<Rightarrow> HTTPProxy \<Rightarrow> http_request \<Rightarrow> http_response option" where
  "requestAndForward env proxy request =
     (if Host request = [] then writeResponse env (badRequest request)
      else if Host request = LocalAddr env \<or> Host request = ''localhost:'' @ p_port proxy
      then writeResponse env (badRequest request)
      else if \<not> DialOk env (Host request) then writeResponse env (notFound request)
      else if \<not> SendOk env (Host request) then None
      else
        (case Answer env (Host request) request of
           None \<Rightarrow> writeResponse env (badRequest request)
         | Some response \<Rightarrow> writeResponse env response))"

text \<open>The flag tells whether the accept loop is signalled; the last component is the reply.\<close>

definition proxyHandler ::
  "proxy_env \<Rightarrow> HTTPProxy \<Rightarrow> http_request option \<Rightarrow> (HTTPProxy \<times> bool \<times> http_response option) go" where
  "proxyHandler env proxy request =
     (if p_numConnections proxy > MAX_CONNECTIONS then Inl (Fatal ''Over max capacity: Exiting'')
      else
        (case request of
           None \<Rightarrow> Inr (proxy, False, writeResponse env proxy_internalErrorResponse)
         | Some req \<Rightarrow>
             if \<not> validGETRequest req then Inr (proxy, False, writeResponse env (notImplemented req))
             else
               let reply = requestAndForward env proxy req;
                   proxy' = proxy\<lparr>p_numConnections := p_numConnections proxy - 1\<rparr>
               in Inr (proxy', p_numConnections proxy' = MAX_CONNECTIONS - 1, reply)))"

section \<open>The accept loop\<close>

record proxy_sys =
  x_proxy :: HTTPProxy
  x_phase :: http_phase
  x_active :: nat

definition proxy_admit :: "proxy_sys \<Rightarrow> proxy_sys" where
  "proxy_admit s =
     (let proxy' = (x_proxy s)\<lparr>p_numConnections := p_numConnections (x_proxy s) + 1\<rparr> in
      if p_numConnections proxy' > MAX_CONNECTIONS then s\<lparr>x_proxy := proxy', x_phase := MainFatal\<rparr>
      else s\<lparr>x_proxy := proxy', x_phase := MainAccepting, x_active := x_active s + 1\<rparr>)"

definition proxy_wait :: "proxy_sys \<Rightarrow> proxy_sys" where
  "proxy_wait s =
     (if p_numConnections (x_proxy s) = MAX_CONNECTIONS then s\<lparr>x_phase := MainWaiting False\<rparr> else proxy_admit s)"

datatype proxy_event = ProxyAcceptFails | ProxyAccept | ProxyWake | ProxyFinish proxy_env "http_request option"

inductive proxy_step :: "proxy_sys \<Rightarrow> proxy_event \<Rightarrow> proxy_sys \<Rightarrow> bool" where
  px_fails: "x_phase s = MainAccepting \<Longrightarrow> proxy_step s ProxyAcceptFails s"
| px_accept: "x_phase s = MainAccepting \<Longrightarrow>
    proxy_step s ProxyAccept (proxy_wait (s\<lparr>x_proxy := (x_proxy s)\<lparr>p_numTotal := p_numTotal (x_proxy s) + 1\<rparr>\<rparr>))"
| px_wake: "x_phase s = MainWaiting True \<Longrightarrow> proxy_step s ProxyWake (proxy_wait s)"
| px_finish: "0 < x_active s \<Longrightarrow> proxyHandler env (x_proxy s) request = Inr (proxy', sig, reply) \<Longrightarrow>
    proxy_step s (ProxyFinish env request) (s\<lparr>x_proxy := proxy', x_active := x_active s - 1,
      x_phase := if sig \<and> x_phase s = MainWaiting False then MainWaiting True else x_phase s\<rparr>)"
| px_fatal: "0 < x_active s \<Longrightarrow> proxyHandler env (x_proxy s) request = Inl e \<Longrightarrow>
    proxy_step s (ProxyFinish env request) (s\<lparr>x_phase := MainFatal, x_active := 0\<rparr>)"

definition proxy_init :: "proxy_sys \<Rightarrow> bool" where
  "proxy_init s \<longleftrightarrow> (\<exists>p v. s = \<lparr>x_proxy = getArgs_proxy p v, x_phase = MainAccepting, x_active = 0\<rparr>)"

text \<open>The requests that are not forwarded.\<close>

fun leaks :: "proxy_event \<Rightarrow> bool" where
  "leaks (ProxyFinish env request) \<longleftrightarrow> (case request of None \<Rightarrow> True | Some q \<Rightarrow> \<not> validGETRequest q)"
| "leaks _ \<longleftrightarrow> False"

section \<open>Counting\<close>

text \<open>\<open>k\<close> is the number of requests that were not forwarded so far.\<close>

definition leak_inv :: "nat \<Rightarrow> proxy_sys \<Rightarrow> bool" where
  "leak_inv k s \<longleftrightarrow> p_numConnections (x_proxy s) = int (x_active s) + int k \<and>
     p_numConnections (x_proxy s) \<le> MAX_CONNECTIONS \<and>
     (case x_phase s of MainAccepting \<Rightarrow> True
      | MainWaiting sig \<Rightarrow> (if sig then p_numConnections (x_proxy s) < MAX_CONNECTIONS
                             else p_numConnections (x_proxy s) = MAX_CONNECTIONS)
      | MainFatal \<Rightarrow> False)"

lemma proxy_wait_leak:
  assumes "p_numConnections (x_proxy s) = int (x_active s) + int k" "p_numConnections (x_proxy s) \<le> MAX_CONNECTIONS"
  shows "leak_inv k (proxy_wait s)"
  using assms by (auto simp: proxy_wait_def proxy_admit_def leak_inv_def Let_def)

lemma leak_step:
  assumes inv: "leak_inv k s" and st: "proxy_step s e t"
  shows "leak_inv (k + (if leaks e then 1 else 0)) t"
proof -
  have c: "p_numConnections (x_proxy s) = int (x_active s) + int k" "p_numConnections (x_proxy s) \<le> MAX_CONNECTIONS"
    using inv by (simp_all add: leak_inv_def)
  from st show ?thesis
  proof cases
    case px_accept
    then show ?thesis using c proxy_wait_leak by simp
  next
    case px_wake
    then show ?thesis using c proxy_wait_leak by simp
  next
    case (px_finish env request proxy' sig reply)
    then show ?thesis using inv
      by (auto simp: leak_inv_def proxyHandler_def Let_def split: http_phase.splits if_splits option.splits)
  next
    case (px_fatal env request err)
    then show ?thesis using c(2)
      by (auto simp: proxyHandler_def Let_def split: if_splits option.splits)
  qed (use inv in simp)
qed

lemma leak_run_inv:
  "run_of proxy_step s es t \<Longrightarrow> leak_inv k s \<Longrightarrow> leak_inv (k + length (filter leaks es)) t"
proof (induction arbitrary: k rule: run_of.induct)
  case (run_cons s e t es u)
  then show ?case using leak_step [OF run_cons.prems run_cons.hyps(1)] by fastforce
qed simp

lemma proxy_init_leak: "proxy_init s \<Longrightarrow> leak_inv 0 s"
  by (auto simp: proxy_init_def leak_inv_def getArgs_proxy_def MAX_CONNECTIONS_def)

interpretation proxy: invariant_system proxy_init proxy_step "\<lambda>s. \<exists>k. leak_inv k s"
  by unfold_locales (blast intro: proxy_init_leak leak_step)+

section \<open>Properties\<close>

text \<open>C35: along every run of the proxy the connection counter is the number of running handlers plus the
  number of requests that were not forwarded, the unreadable ones and those other than GET; it never
  exceeds ten and the capacity check never fires.  Once ten such requests were seen, no handler is
  running, and no later step of the proxy starts one: it accepts no further connection.\<close>

theorem proxy_leaks_connections:
  assumes "proxy_init s" "run_of proxy_step s es t"
  shows "p_numConnections (x_proxy t) = int (x_active t) + int (length (filter leaks es)) \<and>
    p_numConnections (x_proxy t) \<le> 10 \<and> x_phase t \<noteq> MainFatal \<and>
    (length (filter leaks es) = 10 \<longrightarrow>
       (\<forall>fs u. run_of proxy_step t fs u \<longrightarrow> x_active u = 0 \<and> p_numConnections (x_proxy u) = 10))"
proof -
  have inv: "leak_inv (length (filter leaks es)) t"
    using leak_run_inv [OF assms(2) proxy_init_leak [OF assms(1)]] by simp
  have "x_active u = 0 \<and> p_numConnections (x_proxy u) = 10"
    if "length (filter leaks es) = 10" "run_of proxy_step t fs u" for fs u
    using leak_run_inv [OF that(2) inv] that(1) by (auto simp: leak_inv_def MAX_CONNECTIONS_def)
  then show ?thesis
    using inv by (auto simp: leak_inv_def MAX_CONNECTIONS_def split: http_phase.splits)
qed

section \<open>A blocked proxy\<close>

definition demo_penv :: proxy_env where
  "demo_penv = \<lparr>LocalAddr = ''127.0.0.1:1234'', DialOk = (\<lambda>_. True), SendOk = (\<lambda>_. True), Answer = (\<lambda>_ _. None), ReplyOk = True\<rparr>"

definition demo_proxy :: "int \<Rightarrow> proxy_sys" where
  "demo_proxy n = \<lparr>x_proxy = (getArgs_proxy ''1234'' False)\<lparr>p_numConnections := n, p_numTotal := n\<rparr>,
     x_phase = MainAccepting, x_active = 0\<rparr>"

text \<open>Connections that send nothing, one after the other.\<close>

lemma silent_connection:
  assumes "0 \<le> n" "n < 10"
  shows "run_of proxy_step (demo_proxy n) [ProxyAccept, ProxyFinish demo_penv None] (demo_proxy (n + 1))"
proof -
  let ?p = "(x_proxy (demo_proxy n))\<lparr>p_numTotal := n + 1, p_numConnections := n + 1\<rparr>"
  let ?t = "\<lparr>x_proxy = ?p, x_phase = MainAccepting, x_active = 1\<rparr>"
  have "proxy_step (demo_proxy n) ProxyAccept ?t"
    using px_accept [of "demo_proxy n"] assms
    by (simp add: demo_proxy_def proxy_wait_def proxy_admit_def MAX_CONNECTIONS_def getArgs_proxy_def)
  moreover have "proxy_step ?t (ProxyFinish demo_penv None) (demo_proxy (n + 1))"
    using px_finish [of ?t demo_penv None ?p False "Some proxy_internalErrorResponse"] assms
    by (simp add: demo_proxy_def proxyHandler_def MAX_CONNECTIONS_def getArgs_proxy_def writeResponse_def demo_penv_def)
  ultimately show ?thesis by (meson run_of.intros)
qed

lemma silent_connections:
  "k \<le> 10 \<Longrightarrow> run_of proxy_step (demo_proxy 0) (concat (replicate k [ProxyAccept, ProxyFinish demo_penv None])) (demo_proxy (int k))"
proof (induction k)
  case (Suc k)
  have c: "concat (replicate (Suc k) [ProxyAccept, ProxyFinish demo_penv None]) =
      concat (replicate k [ProxyAccept, ProxyFinish demo_penv None]) @ [ProxyAccept, ProxyFinish demo_penv None]"
    by (simp only: replicate_Suc replicate_append_same [symmetric] concat_append concat.simps append_Nil2)
  have "run_of proxy_step (demo_proxy (int k)) [ProxyAccept, ProxyFinish demo_penv None] (demo_proxy (int k + 1))"
    using Suc.prems by (intro silent_connection) auto
  then show ?case unfolding c using run_of_append [OF Suc.IH] Suc.prems by (simp add: add.commute)
qed simp

theorem proxy_leaks_connections_witness:
  "run_of proxy_step (demo_proxy 0) (concat (replicate 10 [ProxyAccept, ProxyFinish demo_penv None])) (demo_proxy 10) \<and>
   {u. \<exists>fs. run_of proxy_step (demo_proxy 10) fs u \<and> x_active u \<noteq> 0} = {}"
proof -
  have i: "proxy_init (demo_proxy 0)" by (auto simp: proxy_init_def demo_proxy_def getArgs_proxy_def)
  have r: "run_of proxy_step (demo_proxy 0) (concat (replicate 10 [ProxyAccept, ProxyFinish demo_penv None])) (demo_proxy 10)"
    using silent_connections [of 10] by simp
  have "length (filter leaks (concat (replicate 10 [ProxyAccept, ProxyFinish demo_penv None]))) = 10" by code_simp
  with proxy_leaks_connections [OF i r] have "x_active u = 0" if "run_of proxy_step (demo_proxy 10) fs u" for fs u
    using that by blast
  then show ?thesis using r by auto
qed

end
