(* ===== verification/Raft.thy ===== *)
theory Raft
  imports Prelude
begin

text \<open>
  A Raft peer (\<^verbatim>\<open>Lab2_MapReduce/src/raft/raft.go\<close>, leader election) and the persister
  (\<^verbatim>\<open>persister.go\<close>).  Every function that runs under the mutex is one definition; the two
  background loops are split at the points where they release it, and the functions that call another
  peer are split into the arguments they send and what they do with the reply.
\<close>

section \<open>Types\<close>

type_synonym ServerState = int
type_synonym Term = int
type_synonym ServerId = int

definition FOLLOWER :: ServerState where "FOLLOWER = 1"
definition CANDIDATE :: ServerState where "CANDIDATE = 2"
definition LEADER :: ServerState where "LEADER = 3"

lemmas server_state_defs [simp] = FOLLOWER_def CANDIDATE_def LEADER_def

record LogEntry =
  Command :: int
  LogTerm :: Term
  LogIndex :: int

record Raft =
  me :: int
  dead :: int
  hasReceivedHeartbeat :: bool
  serverState :: ServerState
  currentTerm :: Term
  numPeers :: int
  receivedVotes :: int
  votedFor :: ServerId
  log :: "LogEntry list"
  commitIndex :: int
  lastApplied :: int
  nextIndex :: "int list"
  matchIndex :: "int list"

record RequestVoteArgs =
  CandidateTerm :: Term
  CandidateId :: ServerId
  LastLogIndex :: int
  LastLogTerm :: int

record RequestVoteReply =
  ResponseTerm :: Term
  VoteGrandted :: bool

record AppendEntriesArgs =
  LeaderTerm :: Term
  LeaderId :: ServerId
  PrevLogIndex :: int
  PrevLogTerm :: Term
  Entries :: "LogEntry list"
  LeaderCommitIndex :: int

record AppendEntriesReply =
  FollowersTerm :: Term
  ae_Success :: bool

definition zero_LogEntry :: LogEntry where
  "zero_LogEntry = \<lparr>Command = 0, LogTerm = 0, LogIndex = 0\<rparr>"

definition zero_VoteReply :: RequestVoteReply where
  "zero_VoteReply = \<lparr>ResponseTerm = 0, VoteGrandted = False\<rparr>"

definition zero_AppendReply :: AppendEntriesReply where
  "zero_AppendReply = \<lparr>FollowersTerm = 0, ae_Success = False\<rparr>"

section \<open>Handlers\<close>

definition GetState :: "Raft \<Rightarrow> int \<times> bool" where
  "GetState rf = (currentTerm rf, serverState rf = LEADER)"

definition stepDown :: "Raft \<Rightarrow> Raft" where
  "stepDown rf = rf\<lparr>serverState := FOLLOWER\<rparr>"

definition RequestVote :: "Raft \<Rightarrow> RequestVoteArgs \<Rightarrow> RequestVoteReply \<Rightarrow> (Raft \<times> RequestVoteReply) go" where
  "RequestVote rf args reply =
     (if CandidateTerm args < currentTerm rf
      then Inr (rf, reply\<lparr>ResponseTerm := currentTerm rf, VoteGrandted := False\<rparr>)
      else
        let rf1 = (if CandidateTerm args > currentTerm rf
                   then (let rf' = rf\<lparr>votedFor := - 1, receivedVotes := 0, currentTerm := CandidateTerm args\<rparr>
                         in if serverState rf' = LEADER then stepDown rf' else rf')
                   else rf)
        in go_bind (slice_get (nextIndex rf1) (CandidateId args)) (\<lambda>nxt.
             let logUpToDate = (LastLogIndex args \<ge> nxt - 1) in
             if (votedFor rf1 = - 1 \<or> votedFor rf1 = CandidateId args) \<and> logUpToDate
             then Inr (rf1\<lparr>votedFor := CandidateId args, currentTerm := CandidateTerm args, serverState := FOLLOWER\<rparr>,
                       reply\<lparr>VoteGrandted := True\<rparr>)
             else Inr (rf1, reply\<lparr>ResponseTerm := currentTerm rf1, VoteGrandted := False\<rparr>)))"

definition AppendEntries :: "Raft \<Rightarrow> AppendEntriesArgs \<Rightarrow> AppendEntriesReply \<Rightarrow> Raft \<times> AppendEntriesReply" where
  "AppendEntries rf args reply =
     (if LeaderTerm args < currentTerm rf
      then (rf, reply\<lparr>FollowersTerm := currentTerm rf, ae_Success := False\<rparr>)
      else
        let rf1 = (if LeaderTerm args > currentTerm rf
                   then (let rf' = rf\<lparr>currentTerm := LeaderTerm args\<rparr>
                         in if serverState rf' = LEADER then stepDown rf' else rf')
                   else rf)
        in (rf1\<lparr>hasReceivedHeartbeat := True\<rparr>, reply\<lparr>ae_Success := True\<rparr>))"

definition Start :: "Raft \<Rightarrow> int \<times> int \<times> bool" where
  "Start rf = (if serverState rf \<noteq> LEADER then (- 1, - 1, False) else (commitIndex rf + 1, currentTerm rf, True))"

definition Kill :: "Raft \<Rightarrow> Raft" where
  "Kill rf = rf\<lparr>dead := 1\<rparr>"

definition killed :: "Raft \<Rightarrow> bool" where
  "killed rf \<longleftrightarrow> dead rf = 1"

section \<open>Background loops\<close>

definition other_peers :: "Raft \<Rightarrow> int list" where
  "other_peers rf = filter (\<lambda>peer. peer \<noteq> me rf) (map int [0..<nat (numPeers rf)])"

definition askAllPeersForVote :: "Raft \<Rightarrow> int list" where
  "askAllPeersForVote rf = other_peers rf"

definition sendHeartBeatToAllPeers :: "Raft \<Rightarrow> int list" where
  "sendHeartBeatToAllPeers rf = other_peers rf"

text \<open>One iteration of the heartbeat loop: the peers a goroutine is started for.\<close>

definition leaderSendHeartBeats :: "Raft \<Rightarrow> int list" where
  "leaderSendHeartBeats rf =
     (if killed rf then [] else if serverState rf = LEADER then sendHeartBeatToAllPeers rf else [])"

text \<open>One iteration of the election loop, before and after its sleep.\<close>

definition checkElectionTimeout_begin :: "Raft \<Rightarrow> Raft \<times> Term" where
  "checkElectionTimeout_begin rf = (rf\<lparr>hasReceivedHeartbeat := False\<rparr>, currentTerm rf)"

definition checkElectionTimeout_end :: "Raft \<Rightarrow> Term \<Rightarrow> Raft \<times> int list" where
  "checkElectionTimeout_end rf currTerm =
     (if serverState rf = LEADER then (rf, [])
      else
        let sameTerm = (currTerm = currentTerm rf) in
        if \<not> hasReceivedHeartbeat rf \<and> sameTerm then
          let rf' = rf\<lparr>receivedVotes := 1, currentTerm := currentTerm rf + 1, votedFor := me rf, serverState := CANDIDATE\<rparr>
          in (rf', askAllPeersForVote rf')
        else (rf, []))"

definition askForVote_args :: "Raft \<Rightarrow> RequestVoteArgs" where
  "askForVote_args rf =
     \<lparr>CandidateTerm = currentTerm rf, CandidateId = me rf, LastLogIndex = commitIndex rf, LastLogTerm = lastApplied rf\<rparr>"

definition askForVote_reply :: "Raft \<Rightarrow> RequestVoteReply \<Rightarrow> Raft" where
  "askForVote_reply rf replyVote =
     (if VoteGrandted replyVote then
        let rf1 = rf\<lparr>receivedVotes := receivedVotes rf + 1\<rparr> in
        if receivedVotes rf1 > numPeers rf1 div 2 \<and> serverState rf1 \<noteq> LEADER
        then rf1\<lparr>serverState := LEADER\<rparr> else rf1
      else rf)"

definition sendHeartBeatToPeer_args :: "Raft \<Rightarrow> AppendEntriesArgs go" where
  "sendHeartBeatToPeer_args rf =
     go_bind (slice_get (log rf) (commitIndex rf)) (\<lambda>e.
       Inr \<lparr>LeaderTerm = currentTerm rf, LeaderId = me rf, PrevLogIndex = commitIndex rf, PrevLogTerm = LogTerm e,
            Entries = [], LeaderCommitIndex = commitIndex rf\<rparr>)"

definition sendHeartBeatToPeer_reply :: "Raft \<Rightarrow> AppendEntriesReply \<Rightarrow> Raft" where
  "sendHeartBeatToPeer_reply rf replyAppend =
     (if \<not> ae_Success replyAppend then
        let rf1 = rf\<lparr>currentTerm := FollowersTerm replyAppend\<rparr> in
        if serverState rf1 = LEADER then stepDown rf1 else rf1
      else rf)"

section \<open>Start and persistence\<close>

record Persister =
  raftstate :: string
  snapshot :: string

definition MakePersister :: Persister where
  "MakePersister = \<lparr>raftstate = [], snapshot = []\<rparr>"

definition Copy :: "Persister \<Rightarrow> Persister" where
  "Copy ps = MakePersister\<lparr>raftstate := raftstate ps, snapshot := snapshot ps\<rparr>"

definition ReadRaftState :: "Persister \<Rightarrow> string" where
  "ReadRaftState ps = raftstate ps"

definition RaftStateSize :: "Persister \<Rightarrow> nat" where
  "RaftStateSize ps = length (raftstate ps)"

definition Save :: "Persister \<Rightarrow> string \<Rightarrow> string \<Rightarrow> Persister" where
  "Save ps rs sn = ps\<lparr>raftstate := rs, snapshot := sn\<rparr>"

definition ReadSnapshot :: "Persister \<Rightarrow> string" where
  "ReadSnapshot ps = snapshot ps"

definition SnapshotSize :: "Persister \<Rightarrow> nat" where
  "SnapshotSize ps = length (snapshot ps)"

text \<open>Nothing is persisted yet: both functions leave the peer as it is.\<close>

definition persist :: "Raft \<Rightarrow> Raft" where
  "persist rf = rf"

definition readPersist :: "Raft \<Rightarrow> string \<Rightarrow> Raft" where
  "readPersist rf data = rf"

definition Make :: "nat \<Rightarrow> int \<Rightarrow> Persister \<Rightarrow> Raft" where
  "Make nPeers i persister =
     readPersist
       \<lparr>me = i, dead = 0, hasReceivedHeartbeat = False, serverState = FOLLOWER, currentTerm = 0, numPeers = int nPeers,
        receivedVotes = 0, votedFor = - 1, log = [zero_LogEntry], commitIndex = 0, lastApplied = 0,
        nextIndex = replicate nPeers 0, matchIndex = replicate nPeers 0\<rparr>
       (ReadRaftState persister)"

section \<open>Well-formed peers\<close>

definition raft_ok :: "nat \<Rightarrow> Raft \<Rightarrow> bool" where
  "raft_ok n rf \<longleftrightarrow>
     numPeers rf = int n \<and> length (nextIndex rf) = n \<and> 0 \<le> me rf \<and> me rf < int n \<and>
     serverState rf \<in> {FOLLOWER, CANDIDATE, LEADER} \<and> - 1 \<le> votedFor rf \<and> votedFor rf < int n \<and>
     0 \<le> commitIndex rf \<and> commitIndex rf < int (length (log rf)) \<and>
     0 \<le> currentTerm rf \<and> 0 \<le> receivedVotes rf \<and> (\<forall>x\<in>set (nextIndex rf). x = 0)"

lemma Make_ok: "0 \<le> i \<Longrightarrow> i < int n \<Longrightarrow> raft_ok n (Make n i ps)"
  by (simp add: raft_ok_def Make_def readPersist_def)

lemma RequestVote_ok:
  assumes "raft_ok n rf" "0 \<le> CandidateId args" "CandidateId args < int n"
  shows "go_ok (\<lambda>(rf', reply'). raft_ok n rf') (RequestVote rf args reply)"
proof -
  have "length (nextIndex rf) = n" "0 \<le> currentTerm rf" using assms(1) by (simp_all add: raft_ok_def)
  then show ?thesis using assms
    by (auto simp: RequestVote_def Let_def stepDown_def in_range_def raft_ok_def)
qed

lemma AppendEntries_ok: "raft_ok n rf \<Longrightarrow> raft_ok n (fst (AppendEntries rf args reply))"
  by (auto simp: AppendEntries_def Let_def stepDown_def raft_ok_def)

lemma checkElectionTimeout_ok:
  "raft_ok n rf \<Longrightarrow> raft_ok n (fst (checkElectionTimeout_begin rf)) \<and> raft_ok n (fst (checkElectionTimeout_end rf t))"
  by (auto simp: checkElectionTimeout_begin_def checkElectionTimeout_end_def Let_def raft_ok_def)

lemma askForVote_reply_ok: "raft_ok n rf \<Longrightarrow> raft_ok n (askForVote_reply rf reply)"
  by (auto simp: askForVote_reply_def Let_def raft_ok_def)

lemma sendHeartBeatToPeer_ok:
  "raft_ok n rf \<Longrightarrow> 0 \<le> FollowersTerm reply \<Longrightarrow> raft_ok n (sendHeartBeatToPeer_reply rf reply)"
  by (auto simp: sendHeartBeatToPeer_reply_def Let_def stepDown_def raft_ok_def)

lemma sendHeartBeatToPeer_args_ok: "raft_ok n rf \<Longrightarrow> go_ok (\<lambda>args. LeaderTerm args = currentTerm rf) (sendHeartBeatToPeer_args rf)"
  by (auto simp: sendHeartBeatToPeer_args_def raft_ok_def in_range_def)

lemma Kill_ok: "raft_ok n rf \<Longrightarrow> raft_ok n (Kill rf)"
  by (simp add: Kill_def raft_ok_def)

end
