(* ===== verification/Raft_Cluster.thy ===== *)
theory Raft_Cluster
  imports Raft
begin

text \<open>
  A cluster of Raft peers: the peers with their goroutines and the calls between them.  A task is a
  goroutine that was started, a request on its way or a reply on its way; tasks run in any order and
  calls can be lost.  A call that fails once is never repeated, because the loop around it tests the
  result of the first call again.  The history of votes is a ghost field.
\<close>

section \<open>The cluster\<close>

datatype raft_task =
    AskVote int int
  | VoteRequest int int RequestVoteArgs
  | VoteReply int int RequestVoteReply
  | Beat int int
  | BeatRequest int int AppendEntriesArgs
  | BeatReply int int AppendEntriesReply

record raft_net =
  rpeers :: "Raft list"
  timers :: "Term option list"
  tasks :: "raft_task list"
  votes :: "(int \<times> Term \<times> ServerId) list"

definition raft_start :: "nat \<Rightarrow> raft_net" where
  "raft_start n =
     \<lparr>rpeers = map (\<lambda>i. Make n (int i) MakePersister) [0..<n], timers = replicate n None, tasks = [], votes = []\<rparr>"

definition put_peer :: "int \<Rightarrow> Raft \<Rightarrow> raft_net \<Rightarrow> raft_net" where
  "put_peer i rf net = net\<lparr>rpeers := (rpeers net)[nat i := rf]\<rparr>"

definition add_tasks :: "raft_task list \<Rightarrow> raft_net \<Rightarrow> raft_net" where
  "add_tasks ts net = net\<lparr>tasks := tasks net @ ts\<rparr>"

definition add_vote :: "int \<Rightarrow> Term \<Rightarrow> ServerId \<Rightarrow> raft_net \<Rightarrow> raft_net" where
  "add_vote voter term candidate net = net\<lparr>votes := (voter, term, candidate) # votes net\<rparr>"

fun run_task :: "raft_net \<Rightarrow> raft_task \<Rightarrow> raft_net go" where
  "run_task net (AskVote i peer) =
     go_bind (slice_get (rpeers net) i) (\<lambda>rf. Inr (add_tasks [VoteRequest i peer (askForVote_args rf)] net))"
| "run_task net (VoteRequest i peer args) =
     go_bind (slice_get (rpeers net) peer) (\<lambda>rf.
     go_bind (RequestVote rf args zero_VoteReply) (\<lambda>(rf', reply).
       Inr (add_tasks [VoteReply i peer reply]
             (if VoteGrandted reply then add_vote peer (CandidateTerm args) (CandidateId args) (put_peer peer rf' net)
              else put_peer peer rf' net))))"
| "run_task net (VoteReply i peer reply) =
     go_bind (slice_get (rpeers net) i) (\<lambda>rf. Inr (put_peer i (askForVote_reply rf reply) net))"
| "run_task net (Beat i peer) =
     go_bind (slice_get (rpeers net) i) (\<lambda>rf.
     go_bind (sendHeartBeatToPeer_args rf) (\<lambda>args. Inr (add_tasks [BeatRequest i peer args] net)))"
| "run_task net (BeatRequest i peer args) =
     go_bind (slice_get (rpeers net) peer) (\<lambda>rf.
       case AppendEntries rf args zero_AppendReply of
         (rf', reply) \<Rightarrow> Inr (add_tasks [BeatReply i peer reply] (put_peer peer rf' net)))"
| "run_task net (BeatReply i peer reply) =
     go_bind (slice_get (rpeers net) i) (\<lambda>rf. Inr (put_peer i (sendHeartBeatToPeer_reply rf reply) net))"

datatype raft_event = TimerBegin nat | TimerEnd nat | BeatTick nat | RunTask nat | LoseTask nat | KillPeer nat

definition drop_nth :: "nat \<Rightarrow> 'a list \<Rightarrow> 'a list" where
  "drop_nth k xs = take k xs @ drop (Suc k) xs"

fun raft_exec :: "raft_net \<Rightarrow> raft_event \<Rightarrow> raft_net go" where
  "raft_exec net (TimerBegin i) =
     go_bind (slice_get (rpeers net) (int i)) (\<lambda>rf.
       if killed rf then Inr net
       else (case checkElectionTimeout_begin rf of
               (rf', t) \<Rightarrow> Inr ((put_peer (int i) rf' net)\<lparr>timers := (timers net)[i := Some t]\<rparr>)))"
| "raft_exec net (TimerEnd i) =
     go_bind (slice_get (rpeers net) (int i)) (\<lambda>rf.
     go_bind (slice_get (timers net) (int i)) (\<lambda>tm.
       case tm of
         None \<Rightarrow> Inr net
       | Some t \<Rightarrow>
           (case checkElectionTimeout_end rf t of
              (rf', ps) \<Rightarrow>
                let net' = add_tasks (map (AskVote (int i)) ps) ((put_peer (int i) rf' net)\<lparr>timers := (timers net)[i := None]\<rparr>)
                in Inr (if currentTerm rf' = currentTerm rf then net'
                        else add_vote (int i) (currentTerm rf') (me rf) net'))))"
| "raft_exec net (BeatTick i) =
     go_bind (slice_get (rpeers net) (int i)) (\<lambda>rf. Inr (add_tasks (map (Beat (int i)) (leaderSendHeartBeats rf)) net))"
| "raft_exec net (RunTask k) =
     go_bind (slice_get (tasks net) (int k)) (\<lambda>t. run_task (net\<lparr>tasks := drop_nth k (tasks net)\<rparr>) t)"
| "raft_exec net (LoseTask k) = Inr (net\<lparr>tasks := drop_nth k (tasks net)\<rparr>)"
| "raft_exec net (KillPeer i) =
     go_bind (slice_get (rpeers net) (int i)) (\<lambda>rf. Inr (put_peer (int i) (Kill rf) net))"

definition raft_enabled :: "raft_net \<Rightarrow> raft_event \<Rightarrow> bool" where
  "raft_enabled net e =
     (case e of TimerBegin i \<Rightarrow> i < length (rpeers net) | TimerEnd i \<Rightarrow> i < length (rpeers net)
      | BeatTick i \<Rightarrow> i < length (rpeers net) | KillPeer i \<Rightarrow> i < length (rpeers net)
      | RunTask k \<Rightarrow> k < length (tasks net) | LoseTask k \<Rightarrow> k < length (tasks net))"

definition raft_step :: "raft_net \<Rightarrow> raft_event \<Rightarrow> raft_net \<Rightarrow> bool" where
  "raft_step net e net' \<longleftrightarrow> raft_enabled net e \<and> raft_exec net e = Inr net'"

section \<open>Well-formed clusters\<close>

definition peer_id :: "nat \<Rightarrow> int \<Rightarrow> bool" where
  "peer_id n i \<longleftrightarrow> 0 \<le> i \<and> i < int n"

fun task_ok :: "nat \<Rightarrow> raft_task \<Rightarrow> bool" where
  "task_ok n (AskVote i p) \<longleftrightarrow> peer_id n i \<and> peer_id n p"
| "task_ok n (VoteRequest i p args) \<longleftrightarrow> peer_id n i \<and> peer_id n p \<and> peer_id n (CandidateId args)"
| "task_ok n (VoteReply i p r) \<longleftrightarrow> peer_id n i \<and> peer_id n p"
| "task_ok n (Beat i p) \<longleftrightarrow> peer_id n i \<and> peer_id n p"
| "task_ok n (BeatRequest i p args) \<longleftrightarrow> peer_id n i \<and> peer_id n p"
| "task_ok n (BeatReply i p r) \<longleftrightarrow> peer_id n i \<and> peer_id n p \<and> 0 \<le> FollowersTerm r"

definition net_ok :: "nat \<Rightarrow> raft_net \<Rightarrow> bool" where
  "net_ok n net \<longleftrightarrow> length (rpeers net) = n \<and> length (timers net) = n \<and>
     (\<forall>i<n. raft_ok n (rpeers net ! i) \<and> me (rpeers net ! i) = int i) \<and> (\<forall>t\<in>set (tasks net). task_ok n t)"

lemma raft_start_ok: "net_ok n (raft_start n)"
  by (simp add: net_ok_def raft_start_def Make_ok) (simp add: Make_def readPersist_def)

lemma net_okD:
  assumes "net_ok n net" "peer_id n i"
  shows "slice_get (rpeers net) i = Inr (rpeers net ! nat i)" "raft_ok n (rpeers net ! nat i)" "me (rpeers net ! nat i) = i"
  using assms by (auto simp: net_ok_def peer_id_def in_range_def)

lemma net_ok_put [inv_intros]:
  assumes "net_ok n net" "raft_ok n rf" "me rf = i" "peer_id n i"
  shows "net_ok n (put_peer i rf net)"
  using assms by (auto simp: net_ok_def put_peer_def peer_id_def nth_list_update)

lemma net_ok_tasks [inv_intros]:
  "net_ok n net \<Longrightarrow> \<forall>t\<in>set ts. task_ok n t \<Longrightarrow> net_ok n (add_tasks ts net)"
  by (auto simp: net_ok_def add_tasks_def)

lemma net_ok_vote [inv_intros]: "net_ok n net \<Longrightarrow> net_ok n (add_vote v t c net)"
  by (simp add: net_ok_def add_vote_def)

lemma net_ok_timers [inv_intros]: "net_ok n net \<Longrightarrow> net_ok n (net\<lparr>timers := (timers net')[i := t]\<rparr>)"
  if "length (timers net') = n"
  using that by (simp add: net_ok_def)

lemma set_drop_nth: "set (drop_nth k xs) \<subseteq> set xs"
  by (auto simp: drop_nth_def dest: in_set_takeD in_set_dropD)

lemma net_ok_drop [inv_intros]: "net_ok n net \<Longrightarrow> net_ok n (net\<lparr>tasks := drop_nth k (tasks net)\<rparr>)"
  using set_drop_nth by (fastforce simp: net_ok_def)

text \<open>No operation of a peer changes its identity.\<close>

lemma me_kept:
  "RequestVote rf args r = Inr (rf', r') \<Longrightarrow> me rf' = me rf"
  "me (fst (AppendEntries rf a ar)) = me rf" "me (askForVote_reply rf r) = me rf"
  "me (sendHeartBeatToPeer_reply rf ar) = me rf" "me (fst (checkElectionTimeout_begin rf)) = me rf"
  "me (fst (checkElectionTimeout_end rf t)) = me rf" "me (Kill rf) = me rf"
  by (auto simp: RequestVote_def AppendEntries_def askForVote_reply_def sendHeartBeatToPeer_reply_def
      checkElectionTimeout_begin_def checkElectionTimeout_end_def Kill_def stepDown_def Let_def split: if_splits)

lemma AppendEntries_term: "raft_ok n rf \<Longrightarrow> 0 \<le> FollowersTerm (snd (AppendEntries rf args zero_AppendReply))"
  by (simp add: AppendEntries_def Let_def zero_AppendReply_def raft_ok_def)

lemma run_task_ok:
  assumes net: "net_ok n net" and t: "task_ok n t"
  shows "go_ok (net_ok n) (run_task net t)"
proof (cases t)
  case (AskVote i p)
  then show ?thesis using assms net_okD [OF net, of i] by (auto simp: askForVote_args_def intro: net_ok_tasks)
next
  case (VoteRequest i p args)
  then have id: "peer_id n i" "peer_id n p" "0 \<le> CandidateId args" "CandidateId args < int n"
    using t by (auto simp: peer_id_def)
  note p = net_okD [OF net id(2)]
  obtain rf' r where v: "RequestVote (rpeers net ! nat p) args zero_VoteReply = Inr (rf', r)" "raft_ok n rf'"
    using RequestVote_ok [OF p(2) id(3,4), of zero_VoteReply] by (auto simp: go_ok_def)
  have "net_ok n (put_peer p rf' net)"
    using net v(2) me_kept(1) [OF v(1)] p(3) id(2) by (simp add: net_ok_put)
  then show ?thesis using VoteRequest v(1) p(1) id by (auto intro!: net_ok_tasks net_ok_vote)
next
  case (VoteReply i p r)
  then show ?thesis using assms net_okD [OF net, of i] by (auto simp: me_kept intro!: net_ok_put askForVote_reply_ok)
next
  case (Beat i p)
  then have i: "peer_id n i" using t by simp
  from sendHeartBeatToPeer_args_ok [OF net_okD(2) [OF net i]] obtain args
    where "sendHeartBeatToPeer_args (rpeers net ! nat i) = Inr args" by (auto simp: go_ok_def)
  then show ?thesis using assms Beat net_okD [OF net i] by (auto intro: net_ok_tasks)
next
  case (BeatRequest i p args)
  then have id: "peer_id n i" "peer_id n p" using t by simp_all
  note p = net_okD [OF net id(2)]
  obtain rf' r where a: "AppendEntries (rpeers net ! nat p) args zero_AppendReply = (rf', r)" by fastforce
  have "0 \<le> FollowersTerm r"
    using AppendEntries_term [OF p(2), of args] a by simp
  moreover have "raft_ok n rf'" "me rf' = p"
    using a AppendEntries_ok [OF p(2), of args zero_AppendReply] me_kept(2) [of "rpeers net ! nat p" args zero_AppendReply] p(3)
    by simp_all
  then have "net_ok n (put_peer p rf' net)" using net_ok_put [OF net _ _ id(2)] by simp
  ultimately show ?thesis using BeatRequest a p(1) id by (auto intro!: net_ok_tasks)
next
  case (BeatReply i p r)
  then show ?thesis
    using assms net_okD [OF net, of i] by (auto simp: me_kept intro!: net_ok_put sendHeartBeatToPeer_ok)
qed

lemma raft_exec_ok:
  assumes net: "net_ok n net" and en: "raft_enabled net e"
  shows "go_ok (net_ok n) (raft_exec net e)"
proof -
  have len: "length (rpeers net) = n" "length (timers net) = n" using net by (simp_all add: net_ok_def)
  have id: "peer_id n (int i)" if "i < n" for i using that by (simp add: peer_id_def)
  note p = net_okD [OF net id]
  have put: "net_ok n (put_peer (int i) rf net)" if "i < n" "raft_ok n rf" "me rf = int i" for i rf
    using net_ok_put [OF net that(2,3) id [OF that(1)]] .
  show ?thesis
  proof (cases e)
    case (TimerBegin i)
    then have i: "i < n" using en len by (simp add: raft_enabled_def)
    obtain rf' t where b: "checkElectionTimeout_begin (rpeers net ! i) = (rf', t)" by fastforce
    then have "raft_ok n rf'" "me rf' = int i"
      using checkElectionTimeout_ok p [OF i] me_kept(5) by (metis fst_conv nat_int)+
    then show ?thesis using TimerBegin b i p [OF i] len net put by (auto intro!: net_ok_timers)
  next
    case (TimerEnd i)
    then have i: "i < n" using en len by (simp add: raft_enabled_def)
    let ?rf = "rpeers net ! i"
    show ?thesis
    proof (cases "timers net ! i")
      case (Some t)
      obtain rf' ps where b: "checkElectionTimeout_end ?rf t = (rf', ps)" by fastforce
      then have "raft_ok n rf'" "me rf' = int i"
        using checkElectionTimeout_ok p [OF i] me_kept(6) by (metis fst_conv nat_int)+
      moreover have "\<forall>x\<in>set ps. peer_id n x"
        using b p(2) [OF i] by (auto simp: checkElectionTimeout_end_def askAllPeersForVote_def other_peers_def Let_def
            peer_id_def raft_ok_def split: if_splits)
      ultimately show ?thesis
        using TimerEnd Some b i p [OF i] len put id [OF i] by (auto simp: Let_def intro!: net_ok_tasks net_ok_timers net_ok_vote)
    qed (use TimerEnd i p [OF i] len net in simp)
  next
    case (BeatTick i)
    then have i: "i < n" using en len by (simp add: raft_enabled_def)
    have "\<forall>x\<in>set (leaderSendHeartBeats (rpeers net ! i)). peer_id n x"
      using p(2) [OF i] by (auto simp: leaderSendHeartBeats_def sendHeartBeatToAllPeers_def other_peers_def
          peer_id_def raft_ok_def)
    then show ?thesis using BeatTick i p [OF i] net id [OF i] by (auto intro!: net_ok_tasks)
  next
    case (RunTask k)
    then have k: "k < length (tasks net)" using en by (simp add: raft_enabled_def)
    then have "task_ok n (tasks net ! k)" using net by (simp add: net_ok_def)
    then show ?thesis using RunTask k run_task_ok [OF net_ok_drop [OF net]] by simp
  next
    case (LoseTask k)
    then show ?thesis using net by (simp add: net_ok_drop)
  next
    case (KillPeer i)
    then have i: "i < n" using en len by (simp add: raft_enabled_def)
    then show ?thesis using KillPeer p [OF i] put by (simp add: Kill_ok me_kept)
  qed
qed

interpretation cluster: invariant_system "\<lambda>net. net = raft_start n" raft_step "net_ok n" for n
proof
  show "net = raft_start n \<Longrightarrow> net_ok n net" for net by (simp add: raft_start_ok)
  show "net_ok n s \<Longrightarrow> raft_step s e t \<Longrightarrow> net_ok n t" for s e t
    using raft_exec_ok [of n s e] by (simp add: raft_step_def)
qed

section \<open>Votes\<close>

text \<open>\<open>V\<close> is the set of votes of a peer, as pairs of a term and a candidate.\<close>

definition voted_ok :: "Raft \<Rightarrow> (Term \<times> ServerId) set \<Rightarrow> bool" where
  "voted_ok rf V \<longleftrightarrow>
     (\<forall>(t, c)\<in>V. 0 \<le> c \<and> t \<le> currentTerm rf \<and> (t = currentTerm rf \<longrightarrow> votedFor rf = c)) \<and> single_valued V"

lemma voted_ok_newer:
  "voted_ok rf V \<Longrightarrow> currentTerm rf < currentTerm rf' \<or> currentTerm rf' = currentTerm rf \<and> votedFor rf' = votedFor rf \<Longrightarrow>
   voted_ok rf' V"
  by (fastforce simp: voted_ok_def)

lemma voted_ok_insert:
  "voted_ok rf V \<Longrightarrow> currentTerm rf < t \<or> t = currentTerm rf \<and> votedFor rf \<in> {- 1, c} \<Longrightarrow> 0 \<le> c \<Longrightarrow>
   currentTerm rf' = t \<Longrightarrow> votedFor rf' = c \<Longrightarrow> voted_ok rf' (insert (t, c) V)"
  by (fastforce simp: voted_ok_def single_valued_def)

lemma RequestVote_voted:
  assumes "voted_ok rf V" "0 \<le> CandidateId args" "RequestVote rf args zero_VoteReply = Inr (rf', r)"
  shows "voted_ok rf' (if VoteGrandted r then insert (CandidateTerm args, CandidateId args) V else V)"
proof (cases "VoteGrandted r")
  case True
  then have "currentTerm rf < CandidateTerm args \<or> CandidateTerm args = currentTerm rf \<and> votedFor rf \<in> {- 1, CandidateId args}"
    "currentTerm rf' = CandidateTerm args" "votedFor rf' = CandidateId args"
    using assms(3) by (auto simp: RequestVote_def zero_VoteReply_def stepDown_def Let_def split: if_splits)
  with voted_ok_insert [OF assms(1) _ assms(2)] True show ?thesis by simp
next
  case False
  then have "currentTerm rf < currentTerm rf' \<or> currentTerm rf' = currentTerm rf \<and> votedFor rf' = votedFor rf"
    using assms(3) by (auto simp: RequestVote_def zero_VoteReply_def stepDown_def Let_def split: if_splits)
  with voted_ok_newer [OF assms(1)] False show ?thesis by simp
qed

definition votes_of :: "raft_net \<Rightarrow> int \<Rightarrow> (Term \<times> ServerId) set" where
  "votes_of net v = {(t, c). (v, t, c) \<in> set (votes net)}"

definition votes_inv :: "nat \<Rightarrow> raft_net \<Rightarrow> bool" where
  "votes_inv n net \<longleftrightarrow> (\<forall>i<n. voted_ok (rpeers net ! i) (votes_of net (int i))) \<and>
     (\<forall>(v, t, c)\<in>set (votes net). peer_id n v)"

text \<open>Steps in which no reply to a heartbeat lowers the term of the peer that gets it.\<close>

definition fresh_step :: "raft_net \<Rightarrow> raft_event \<Rightarrow> raft_net \<Rightarrow> bool" where
  "fresh_step net e net' \<longleftrightarrow> raft_step net e net' \<and>
     (\<forall>k i p r. e = RunTask k \<longrightarrow> tasks net ! k = BeatReply i p r \<longrightarrow>
        ae_Success r \<or> currentTerm (rpeers net ! nat i) \<le> FollowersTerm r)"

lemma votes_of_simps [simp]:
  "votes_of (put_peer i rf net) v = votes_of net v" "votes_of (add_tasks ts net) v = votes_of net v"
  "votes_of (net\<lparr>tasks := x\<rparr>) v = votes_of net v" "votes_of (net\<lparr>timers := y\<rparr>) v = votes_of net v"
  "votes_of (add_vote w t c net) v = (if v = w then insert (t, c) (votes_of net v) else votes_of net v)"
  by (auto simp: votes_of_def put_peer_def add_tasks_def add_vote_def)

lemma votes_inv_simps [simp]:
  "votes_inv n (add_tasks ts net) \<longleftrightarrow> votes_inv n net"
  "votes_inv n (net\<lparr>tasks := x\<rparr>) \<longleftrightarrow> votes_inv n net" "votes_inv n (net\<lparr>timers := y\<rparr>) \<longleftrightarrow> votes_inv n net"
  by (simp_all add: votes_inv_def) (simp_all add: add_tasks_def)

lemma votes_inv_peer: "votes_inv n net \<Longrightarrow> peer_id n i \<Longrightarrow> voted_ok (rpeers net ! nat i) (votes_of net i)"
  unfolding votes_inv_def peer_id_def by (metis nat_0_le nat_less_iff)

lemma votes_inv_put:
  assumes "net_ok n net" "votes_inv n net" "peer_id n i" "voted_ok rf (votes_of net i)"
  shows "votes_inv n (put_peer i rf net)"
proof -
  have "voted_ok ((rpeers net)[nat i := rf] ! j) (votes_of net (int j))" if "j < n" for j
    using assms that by (cases "j = nat i") (auto simp: votes_inv_def peer_id_def net_ok_def)
  then show ?thesis using assms(2) by (simp add: votes_inv_def) (simp add: put_peer_def)
qed

lemma votes_inv_vote:
  assumes "net_ok n net" "votes_inv n net" "peer_id n i" "voted_ok rf (insert (t, c) (votes_of net i))"
  shows "votes_inv n (add_vote i t c (put_peer i rf net))"
proof -
  have e: "rpeers (add_vote i t c (put_peer i rf net)) = (rpeers net)[nat i := rf]"
    by (simp add: add_vote_def put_peer_def)
  have "voted_ok (rpeers (add_vote i t c (put_peer i rf net)) ! j) (votes_of (add_vote i t c (put_peer i rf net)) (int j))"
    if "j < n" for j
    unfolding e using assms that by (cases "j = nat i") (auto simp: votes_inv_def peer_id_def net_ok_def)
  moreover have "\<forall>(v, t, c)\<in>set (votes (add_vote i t c (put_peer i rf net))). peer_id n v"
    using assms(2,3) by (auto simp: votes_inv_def add_vote_def put_peer_def)
  ultimately show ?thesis by (simp add: votes_inv_def)
qed

lemma voted_ok_keep:
  "voted_ok rf V \<Longrightarrow> voted_ok (askForVote_reply rf r) V" "voted_ok rf V \<Longrightarrow> voted_ok (Kill rf) V"
  "voted_ok rf V \<Longrightarrow> voted_ok (fst (checkElectionTimeout_begin rf)) V"
  "voted_ok rf V \<Longrightarrow> voted_ok (fst (AppendEntries rf args ar)) V"
  "voted_ok rf V \<Longrightarrow> ae_Success ar \<or> currentTerm rf \<le> FollowersTerm ar \<Longrightarrow> voted_ok (sendHeartBeatToPeer_reply rf ar) V"
  by (erule voted_ok_newer; auto simp: askForVote_reply_def Kill_def checkElectionTimeout_begin_def AppendEntries_def
      sendHeartBeatToPeer_reply_def stepDown_def Let_def)+

lemma run_task_votes:
  assumes net: "net_ok n net" and vs: "votes_inv n net" and t: "task_ok n t" and run: "run_task net t = Inr net'"
    and fresh: "\<And>i p r. t = BeatReply i p r \<Longrightarrow> ae_Success r \<or> currentTerm (rpeers net ! nat i) \<le> FollowersTerm r"
  shows "votes_inv n net'"
proof (cases t)
  case (VoteRequest i p args)
  then have id: "peer_id n p" "0 \<le> CandidateId args" using t by (simp_all add: peer_id_def)
  obtain rf' r where v: "RequestVote (rpeers net ! nat p) args zero_VoteReply = Inr (rf', r)"
    "net' = add_tasks [VoteReply i p r] (if VoteGrandted r then add_vote p (CandidateTerm args) (CandidateId args) (put_peer p rf' net)
       else put_peer p rf' net)"
    using run VoteRequest net_okD(1) [OF net id(1)] by auto
  from RequestVote_voted [OF votes_inv_peer [OF vs id(1)] id(2) v(1)] show ?thesis
    unfolding v(2) using votes_inv_put [OF net vs id(1)] votes_inv_vote [OF net vs id(1)] by (simp split: if_splits)
next
  case (VoteReply i p r)
  then have id: "peer_id n i" using t by simp
  then show ?thesis
    using run VoteReply net_okD(1) [OF net id] votes_inv_put [OF net vs id voted_ok_keep(1) [OF votes_inv_peer [OF vs id]]] by auto
next
  case (BeatRequest i p args)
  then have id: "peer_id n p" using t by simp
  obtain rf' r where a: "AppendEntries (rpeers net ! nat p) args zero_AppendReply = (rf', r)" by fastforce
  then have "voted_ok rf' (votes_of net p)"
    using voted_ok_keep(4) [OF votes_inv_peer [OF vs id], of args zero_AppendReply] by simp
  then show ?thesis using run BeatRequest a net_okD(1) [OF net id] votes_inv_put [OF net vs id] by auto
next
  case (BeatReply i p r)
  then have id: "peer_id n i" using t by simp
  then show ?thesis
    using run BeatReply net_okD(1) [OF net id] votes_inv_put [OF net vs id voted_ok_keep(5) [OF votes_inv_peer [OF vs id] fresh [OF BeatReply]]]
    by auto
qed (use run vs in auto)

lemma election_voted:
  assumes "voted_ok rf V" "0 \<le> me rf" "checkElectionTimeout_end rf t = (rf', ps)"
  shows "voted_ok rf' (if currentTerm rf' = currentTerm rf then V else insert (currentTerm rf', me rf) V)"
proof (cases "currentTerm rf' = currentTerm rf")
  case True
  then have "rf' = rf" using assms(3) by (auto simp: checkElectionTimeout_end_def Let_def split: if_splits)
  then show ?thesis using assms(1) by simp
next
  case False
  then have "currentTerm rf < currentTerm rf'" "votedFor rf' = me rf"
    using assms(3) by (auto simp: checkElectionTimeout_end_def Let_def split: if_splits)
  then show ?thesis using voted_ok_insert [OF assms(1) _ assms(2), of "currentTerm rf'" rf'] False by simp
qed

lemma fresh_step_votes:
  assumes net: "net_ok n net" and vs: "votes_inv n net" and st: "fresh_step net e net'"
  shows "votes_inv n net'"
proof -
  have ex: "raft_exec net e = Inr net'" and en: "raft_enabled net e" using st by (auto simp: fresh_step_def raft_step_def)
  have id: "peer_id n (int i)" if "i < length (rpeers net)" for i using that net by (simp add: peer_id_def net_ok_def)
  note p = net_okD [OF net id] and v = votes_inv_peer [OF vs id]
  note put = votes_inv_put [OF net vs id] and vote = votes_inv_vote [OF net vs id]
  show ?thesis
  proof (cases e)
    case (TimerBegin i)
    then have i: "i < length (rpeers net)" using en by (simp add: raft_enabled_def)
    then show ?thesis
      using ex TimerBegin p(1) [OF i] put [OF i voted_ok_keep(3) [OF v [OF i]]] vs
      by (auto split: if_splits prod.splits)
  next
    case (TimerEnd i)
    then have i: "i < length (rpeers net)" using en by (simp add: raft_enabled_def)
    show ?thesis
    proof (cases "timers net ! i")
      case (Some t)
      obtain rf' ps where b: "checkElectionTimeout_end (rpeers net ! i) t = (rf', ps)" by fastforce
      have "0 \<le> me (rpeers net ! i)" using p(3) [OF i] by simp
      from election_voted [OF _ this b] v [OF i]
      have "voted_ok rf' (if currentTerm rf' = currentTerm (rpeers net ! i) then votes_of net (int i)
          else insert (currentTerm rf', me (rpeers net ! i)) (votes_of net (int i)))" by simp
      then have "votes_inv n (if currentTerm rf' = currentTerm (rpeers net ! i) then put_peer (int i) rf' net
          else add_vote (int i) (currentTerm rf') (me (rpeers net ! i)) (put_peer (int i) rf' net))"
        using put [OF i] vote [OF i] by (simp split: if_splits)
      then show ?thesis
        using ex TimerEnd Some b p(1) [OF i] net i
        by (auto simp: Let_def net_ok_def add_vote_def add_tasks_def votes_inv_def votes_of_def put_peer_def split: if_splits)
    qed (use ex TimerEnd p(1) [OF i] net i vs in \<open>auto simp: net_ok_def\<close>)
  next
    case (BeatTick i)
    then have i: "i < length (rpeers net)" using en by (simp add: raft_enabled_def)
    then show ?thesis using ex BeatTick p(1) [OF i] vs by auto
  next
    case (RunTask k)
    then have k: "k < length (tasks net)" using en by (simp add: raft_enabled_def)
    then have "task_ok n (tasks net ! k)" using net by (simp add: net_ok_def)
    then show ?thesis
      using run_task_votes [OF net_ok_drop [OF net], of k "tasks net ! k" net'] ex RunTask k vs st
      by (auto simp: fresh_step_def)
  next
    case (LoseTask k)
    then show ?thesis using ex vs by auto
  next
    case (KillPeer i)
    then have i: "i < length (rpeers net)" using en by (simp add: raft_enabled_def)
    then show ?thesis using ex KillPeer p(1) [OF i] put [OF i voted_ok_keep(2) [OF v [OF i]]] by auto
  qed
qed

interpretation fresh: invariant_system "\<lambda>net. net = raft_start n" fresh_step "\<lambda>net. net_ok n net \<and> votes_inv n net" for n
proof
  show "net = raft_start n \<Longrightarrow> net_ok n net \<and> votes_inv n net" for net
    using raft_start_ok [of n] by (auto simp: votes_inv_def raft_start_def votes_of_def voted_ok_def)
  show "net_ok n s \<and> votes_inv n s \<Longrightarrow> fresh_step s e t \<Longrightarrow> net_ok n t \<and> votes_inv n t" for s e t
    using cluster.inv_step [of n s e t] fresh_step_votes by (auto simp: fresh_step_def)
qed

section \<open>Runs\<close>

fun raft_run :: "raft_net \<Rightarrow> raft_event list \<Rightarrow> raft_net option" where
  "raft_run net [] = Some net"
| "raft_run net (e # es) =
     (if raft_enabled net e then case raft_exec net e of Inl _ \<Rightarrow> None | Inr net' \<Rightarrow> raft_run net' es else None)"

text \<open>As \<open>raft_run\<close>, and no reply to a heartbeat is stale.\<close>

definition stale :: "raft_net \<Rightarrow> raft_event \<Rightarrow> bool" where
  "stale net e =
     (case e of
        RunTask k \<Rightarrow>
          (case tasks net ! k of
             BeatReply i p r \<Rightarrow> \<not> ae_Success r \<and> FollowersTerm r < currentTerm (rpeers net ! nat i)
           | _ \<Rightarrow> False)
      | _ \<Rightarrow> False)"

fun fresh_run :: "raft_net \<Rightarrow> raft_event list \<Rightarrow> raft_net option" where
  "fresh_run net [] = Some net"
| "fresh_run net (e # es) =
     (if raft_enabled net e \<and> \<not> stale net e then case raft_exec net e of Inl _ \<Rightarrow> None | Inr net' \<Rightarrow> fresh_run net' es else None)"

lemma raft_run_of: "raft_run net es = Some net' \<Longrightarrow> run_of raft_step net es net'"
proof (induction net es rule: raft_run.induct)
  case (2 net e es)
  then show ?case by (auto simp: raft_step_def intro!: run_of.intros split: if_splits sum.splits)
qed simp

lemma fresh_stepI: "raft_enabled net e \<Longrightarrow> \<not> stale net e \<Longrightarrow> raft_exec net e = Inr net' \<Longrightarrow> fresh_step net e net'"
  by (auto simp: fresh_step_def raft_step_def stale_def)

lemma fresh_run_of: "fresh_run net es = Some net' \<Longrightarrow> run_of fresh_step net es net'"
proof (induction net es rule: fresh_run.induct)
  case (2 net e es)
  then show ?case by (auto intro!: run_of.intros fresh_stepI split: if_splits sum.splits)
qed simp

section \<open>Properties\<close>

text \<open>C25: in every reachable state of a cluster every peer is well-formed: its role is one of the three, its
  vote is empty or a peer, its indices lie inside its log and its tables; and every step that a peer,
  a goroutine or a message can take is defined, no handler indexes out of range.\<close>

theorem raft_well_typed:
  assumes "reach (\<lambda>net. net = raft_start n) raft_step net"
  shows "(\<forall>i<n. serverState (rpeers net ! i) \<in> {FOLLOWER, CANDIDATE, LEADER} \<and> me (rpeers net ! i) = int i \<and>
      - 1 \<le> votedFor (rpeers net ! i) \<and> votedFor (rpeers net ! i) < int n \<and>
      0 \<le> commitIndex (rpeers net ! i) \<and> commitIndex (rpeers net ! i) < int (length (log (rpeers net ! i))) \<and>
      length (nextIndex (rpeers net ! i)) = n) \<and>
    (\<forall>e. raft_enabled net e \<longrightarrow> (\<exists>net'. raft_exec net e = Inr net'))"
proof -
  have ok: "net_ok n net" using cluster.reach_inv [OF assms] .
  have "\<exists>net'. raft_exec net e = Inr net'" if "raft_enabled net e" for e
    using raft_exec_ok [OF ok that] by (auto simp: go_ok_def)
  then show ?thesis using ok by (auto simp: net_ok_def raft_ok_def)
qed

text \<open>C8: as long as no late reply to a heartbeat lowers the term of a peer, every peer gives at most one vote
  per term, its own votes as a candidate included, whatever messages are delayed, reordered or lost.\<close>

theorem one_vote_per_term:
  assumes "reach (\<lambda>net. net = raft_start n) fresh_step net" "(v, t, c) \<in> set (votes net)" "(v, t, c') \<in> set (votes net)"
  shows "c = c'"
proof -
  have vs: "votes_inv n net" using fresh.reach_inv [OF assms(1)] by simp
  then have "peer_id n v" using assms(2) by (auto simp: votes_inv_def)
  from votes_inv_peer [OF vs this] assms(2,3) show ?thesis
    by (auto simp: voted_ok_def votes_of_def single_valued_def)
qed

text \<open>C34: two peers can be leader in the same term: a candidate whose term was raised by the heartbeat of the
  new leader stays a candidate and counts the votes that still arrive from its own, older election.\<close>

theorem two_leaders_in_one_term:
  "\<exists>net i j. reach (\<lambda>net. net = raft_start 3) fresh_step net \<and> i \<noteq> j \<and> i < 3 \<and> j < 3 \<and>
     serverState (rpeers net ! i) = LEADER \<and> serverState (rpeers net ! j) = LEADER \<and>
     currentTerm (rpeers net ! i) = currentTerm (rpeers net ! j)"
proof -
  let ?es = "[TimerBegin 0, TimerEnd 0, RunTask 0, RunTask 1, TimerBegin 2, TimerEnd 2, TimerBegin 2, TimerEnd 2,
    RunTask 5, RunTask 5, RunTask 5, BeatTick 2, RunTask 5, RunTask 6, RunTask 1]"
  have "case fresh_run (raft_start 3) ?es of None \<Rightarrow> False
    | Some net \<Rightarrow> serverState (rpeers net ! 0) = LEADER \<and> serverState (rpeers net ! 2) = LEADER \<and>
        currentTerm (rpeers net ! 0) = currentTerm (rpeers net ! 2)" by code_simp
  then obtain net where n: "fresh_run (raft_start 3) ?es = Some net" "serverState (rpeers net ! 0) = LEADER"
    "serverState (rpeers net ! 2) = LEADER" "currentTerm (rpeers net ! 0) = currentTerm (rpeers net ! 2)"
    by (auto split: option.splits)
  have "reach (\<lambda>net. net = raft_start 3) fresh_step net"
    by (rule reach_run [OF fresh_run_of [OF n(1)]]) (rule reach.intros, simp)
  then show ?thesis using n(2-4) by (intro exI [of _ net] exI [of _ 0] exI [of _ 2]) simp
qed

text \<open>C36: a peer can vote for two candidates in the same term: a late reply to a heartbeat sets the term back to
  that of the follower, and the next request for the term it had already voted in is granted again.\<close>

theorem late_reply_double_vote:
  "\<exists>net v t c c'. reach (\<lambda>net. net = raft_start 3) raft_step net \<and>
     (v, t, c) \<in> set (votes net) \<and> (v, t, c') \<in> set (votes net) \<and> c \<noteq> c'"
proof -
  let ?es = "[TimerBegin 0, TimerEnd 0, RunTask 0, RunTask 1, RunTask 1, TimerBegin 2, TimerEnd 2, TimerBegin 2, TimerEnd 2,
    BeatTick 0, RunTask 6, RunTask 6, TimerBegin 1, TimerEnd 1, TimerBegin 1, TimerEnd 1, RunTask 9, RunTask 10, RunTask 6,
    TimerBegin 2, TimerEnd 2, RunTask 1, RunTask 11]"
  have "case raft_run (raft_start 3) ?es of None \<Rightarrow> False
    | Some net \<Rightarrow> (0, 3, 1) \<in> set (votes net) \<and> (0, 3, 2) \<in> set (votes net)" by code_simp
  then obtain net where n: "raft_run (raft_start 3) ?es = Some net" "(0, 3, 1) \<in> set (votes net)" "(0, 3, 2) \<in> set (votes net)"
    by (auto split: option.splits)
  have "reach (\<lambda>net. net = raft_start 3) raft_step net"
    by (rule reach_run [OF raft_run_of [OF n(1)]]) (rule reach.intros, simp)
  then show ?thesis using n(2,3) by (intro exI [of _ net] exI [of _ 0] exI [of _ 3] exI [of _ 1] exI [of _ 2]) simp
qed

section \<open>Witnesses\<close>

definition demo_net :: raft_net where
  "demo_net = the (fresh_run (raft_start 3) [TimerBegin 0, TimerEnd 0, RunTask 0, RunTask 1])"

lemma demo_net_run: "fresh_run (raft_start 3) [TimerBegin 0, TimerEnd 0, RunTask 0, RunTask 1] = Some demo_net"
proof -
  have "\<not> Option.is_none (fresh_run (raft_start 3) [TimerBegin 0, TimerEnd 0, RunTask 0, RunTask 1])" by code_simp
  then show ?thesis unfolding demo_net_def by (auto simp: Option.is_none_def)
qed

lemma demo_net_fresh: "reach (\<lambda>net. net = raft_start 3) fresh_step demo_net"
  by (rule reach_run [OF fresh_run_of [OF demo_net_run]]) (rule reach.intros, simp)

lemma demo_net_reach: "reach (\<lambda>net. net = raft_start 3) raft_step demo_net"
  using demo_net_fresh
proof (induction rule: reach.induct)
  case (reach_step s e t)
  then show ?case by (auto simp: fresh_step_def intro: reach.intros)
qed (auto intro: reach.intros)

theorem raft_well_typed_witness: "\<exists>net'. raft_exec demo_net (BeatTick 0) = Inr net'"
proof -
  have "raft_enabled demo_net (BeatTick 0)" by code_simp
  with raft_well_typed [OF demo_net_reach] show ?thesis by blast
qed

theorem one_vote_per_term_witness: "{c. (1, 1, c) \<in> set (votes demo_net)} = {0}"
proof -
  have "(1, 1, 0) \<in> set (votes demo_net)" by code_simp
  with one_vote_per_term [OF demo_net_fresh, of 1 1] show ?thesis by blast
qed

end
