(* ===== verification/Porcupine_List.thy ===== *)
theory Porcupine_List
  imports Prelude
begin

text \<open>
  The linked list of the linearizability checker (\<^verbatim>\<open>porcupine/checker.go\<close>): entries of a history,
  the doubly linked list that is built from them, and the operations that take a call and its return
  out of the list and put them back.  Memory is a list of nodes, a pointer is an address or nil, and
  following nil is a failure.  The main result is that putting back undoes taking out, node by node.
\<close>

section \<open>Histories\<close>

record 'v Operation =
  o_ClientId :: int
  Input :: 'v
  Call :: int
  Output :: 'v
  Return :: int

record 'v Event =
  v_ClientId :: int
  Kind :: bool
  Value :: 'v
  Id :: int

text \<open>Kinds are booleans as in the source: false for a call, true for a return.\<close>

definition callEntry :: bool where "callEntry = False"
definition returnEntry :: bool where "returnEntry = True"

lemmas entry_kinds [simp] = callEntry_def returnEntry_def

record 'v entry =
  e_kind :: bool
  e_value :: 'v
  e_id :: int
  e_time :: int
  e_clientId :: int

definition byTime_Less :: "'v entry \<Rightarrow> 'v entry \<Rightarrow> bool" where
  "byTime_Less a b =
     (if e_time a \<noteq> e_time b then e_time a < e_time b
      else e_kind a = callEntry \<and> e_kind b = returnEntry)"

fun entries_loop :: "'v Operation list \<Rightarrow> int \<Rightarrow> 'v entry list \<Rightarrow> 'v entry list" where
  "entries_loop [] i entries = entries"
| "entries_loop (elem # history) i entries =
     entries_loop history (i + 1)
       (entries @
        [\<lparr>e_kind = callEntry, e_value = Input elem, e_id = i, e_time = Call elem, e_clientId = o_ClientId elem\<rparr>,
         \<lparr>e_kind = returnEntry, e_value = Output elem, e_id = i, e_time = Return elem, e_clientId = o_ClientId elem\<rparr>])"

text \<open>\<open>sortf\<close> is \<^verbatim>\<open>sort.Sort\<close> with \<^verbatim>\<open>byTime\<close>.\<close>

definition makeEntries :: "('v entry list \<Rightarrow> 'v entry list) \<Rightarrow> 'v Operation list \<Rightarrow> 'v entry list" where
  "makeEntries sortf history = sortf (entries_loop history 0 [])"

fun renumber_loop :: "'v Event list \<Rightarrow> (int \<times> int) list \<Rightarrow> int \<Rightarrow> 'v Event list" where
  "renumber_loop [] m i = []"
| "renumber_loop (v # events) m i =
     (case map_of m (Id v) of
        Some r \<Rightarrow> v\<lparr>Id := r\<rparr> # renumber_loop events m i
      | None \<Rightarrow> v\<lparr>Id := i\<rparr> # renumber_loop events (al_put (Id v) i m) (i + 1))"

definition renumber :: "'v Event list \<Rightarrow> 'v Event list" where
  "renumber events = renumber_loop events [] 0"

definition convertEntries :: "'v Event list \<Rightarrow> 'v entry list" where
  "convertEntries events =
     map (\<lambda>(i, elem). \<lparr>e_kind = (if Kind elem then returnEntry else callEntry), e_value = Value elem, e_id = Id elem,
                       e_time = int i, e_clientId = v_ClientId elem\<rparr>) (zip [0..<length events] events)"

section \<open>Nodes\<close>

record 'v node =
  n_value :: "'v option"
  n_match :: "nat option"
  n_id :: int
  n_next :: "nat option"
  n_prev :: "nat option"

type_synonym 'v heap = "'v node list"

fun ptr :: "nat option \<Rightarrow> nat go" where
  "ptr None = Inl NilDereference"
| "ptr (Some a) = Inr a"

definition set_next :: "'v heap \<Rightarrow> nat \<Rightarrow> nat option \<Rightarrow> 'v heap" where
  "set_next h a p = h[a := (h ! a)\<lparr>n_next := p\<rparr>]"

definition set_prev :: "'v heap \<Rightarrow> nat \<Rightarrow> nat option \<Rightarrow> 'v heap" where
  "set_prev h a p = h[a := (h ! a)\<lparr>n_prev := p\<rparr>]"

definition insertBefore :: "'v heap \<Rightarrow> nat \<Rightarrow> nat option \<Rightarrow> 'v heap" where
  "insertBefore h n mark =
     (case mark of
        None \<Rightarrow> h
      | Some m \<Rightarrow>
          let beforeMark = n_prev (h ! m);
              h1 = set_prev h m (Some n);
              h2 = set_next h1 n (Some m)
          in (case beforeMark of
                None \<Rightarrow> h2
              | Some b \<Rightarrow> set_next (set_prev h2 n (Some b)) b (Some n)))"

partial_function (option) length_loop :: "'v heap \<Rightarrow> nat option \<Rightarrow> nat \<Rightarrow> nat option" where
  "length_loop h n l =
     (case n of None \<Rightarrow> Some l | Some a \<Rightarrow> length_loop h (n_next (h ! a)) (l + 1))"

definition list_length :: "'v heap \<Rightarrow> nat option \<Rightarrow> nat option" where
  "list_length h n = length_loop h n 0"

text \<open>The loop of \<^verbatim>\<open>makeLinkedEntries\<close>, which runs from the last entry to the first.\<close>

fun link_loop :: "'v entry list \<Rightarrow> (int \<times> nat) list \<Rightarrow> 'v heap \<Rightarrow> nat option \<Rightarrow> 'v heap \<times> nat option" where
  "link_loop [] mt h root = (h, root)"
| "link_loop (elem # es) mt h root =
     (let a = length h in
      if e_kind elem = returnEntry then
        let h1 = h @ [\<lparr>n_value = Some (e_value elem), n_match = None, n_id = e_id elem, n_next = None, n_prev = None\<rparr>]
        in link_loop es (al_put (e_id elem) a mt) (insertBefore h1 a root) (Some a)
      else
        let h1 = h @ [\<lparr>n_value = Some (e_value elem), n_match = map_of mt (e_id elem), n_id = e_id elem, n_next = None, n_prev = None\<rparr>]
        in link_loop es mt (insertBefore h1 a root) (Some a))"

definition makeLinkedEntries :: "'v entry list \<Rightarrow> 'v heap \<times> nat option" where
  "makeLinkedEntries entries = link_loop (rev entries) [] [] None"

definition lift :: "'v heap \<Rightarrow> nat \<Rightarrow> 'v heap go" where
  "lift h entry =
     go_bind (ptr (n_prev (h ! entry))) (\<lambda>p.
       let h1 = set_next h p (n_next (h ! entry)) in
     go_bind (ptr (n_next (h1 ! entry))) (\<lambda>q.
       let h2 = set_prev h1 q (n_prev (h1 ! entry)) in
     go_bind (ptr (n_match (h2 ! entry))) (\<lambda>m.
     go_bind (ptr (n_prev (h2 ! m))) (\<lambda>pm.
       let h3 = set_next h2 pm (n_next (h2 ! m)) in
       Inr (case n_next (h3 ! m) of None \<Rightarrow> h3 | Some qm \<Rightarrow> set_prev h3 qm (n_prev (h3 ! m)))))))"

definition unlift :: "'v heap \<Rightarrow> nat \<Rightarrow> 'v heap go" where
  "unlift h entry =
     go_bind (ptr (n_match (h ! entry))) (\<lambda>m.
     go_bind (ptr (n_prev (h ! m))) (\<lambda>pm.
       let h1 = set_next h pm (Some m);
           h2 = (case n_next (h1 ! m) of None \<Rightarrow> h1 | Some qm \<Rightarrow> set_prev h1 qm (Some m))
       in
     go_bind (ptr (n_prev (h2 ! entry))) (\<lambda>p.
       let h3 = set_next h2 p (Some entry) in
     go_bind (ptr (n_next (h3 ! entry))) (\<lambda>q. Inr (set_prev h3 q (Some entry))))))"

section \<open>List segments\<close>

fun hd_or :: "nat list \<Rightarrow> nat option \<Rightarrow> nat option" where
  "hd_or [] nx = nx"
| "hd_or (a # as) nx = Some a"

fun lseg :: "'v heap \<Rightarrow> nat option \<Rightarrow> nat list \<Rightarrow> nat option \<Rightarrow> bool" where
  "lseg h pr [] nx \<longleftrightarrow> True"
| "lseg h pr (a # as) nx \<longleftrightarrow> n_prev (h ! a) = pr \<and> n_next (h ! a) = hd_or as nx \<and> lseg h (Some a) as nx"

definition last_or :: "nat list \<Rightarrow> nat option \<Rightarrow> nat option" where
  "last_or as pr = (if as = [] then pr else Some (last as))"

definition dll :: "'v heap \<Rightarrow> nat list \<Rightarrow> bool" where
  "dll h as \<longleftrightarrow> lseg h None as None \<and> distinct as \<and> (\<forall>a\<in>set as. a < length h)"

lemma hd_or_append: "hd_or (xs @ ys) nx = hd_or xs (hd_or ys nx)"
  by (cases xs) auto

lemma last_or_simps [simp]: "last_or [] pr = pr" "last_or (xs @ [a]) pr = Some a" "last_or (a # as) pr = last_or as (Some a)"
  by (auto simp: last_or_def)

lemma lseg_append: "lseg h pr (xs @ ys) nx \<longleftrightarrow> lseg h pr xs (hd_or ys nx) \<and> lseg h (last_or xs pr) ys nx"
  by (induction xs arbitrary: pr) (auto simp: hd_or_append)

lemma lseg_frame: "a \<notin> set as \<Longrightarrow> lseg (h[a := x]) pr as nx \<longleftrightarrow> lseg h pr as nx"
  by (induction as arbitrary: pr) auto

lemma lseg_set_next:
  "lseg h pr (xs @ [p]) nx \<Longrightarrow> p \<notin> set xs \<Longrightarrow> p < length h \<Longrightarrow> lseg (set_next h p nx') pr (xs @ [p]) nx'"
  by (auto simp: lseg_append lseg_frame set_next_def)

lemma lseg_set_prev:
  "lseg h pr (q # ys) nx \<Longrightarrow> q \<notin> set ys \<Longrightarrow> q < length h \<Longrightarrow> lseg (set_prev h q pr') pr' (q # ys) nx"
  by (auto simp: lseg_frame set_prev_def)

lemma lseg_frames:
  "a \<notin> set as \<Longrightarrow> lseg (set_next h a p) pr as nx \<longleftrightarrow> lseg h pr as nx"
  "a \<notin> set as \<Longrightarrow> lseg (set_prev h a p) pr as nx \<longleftrightarrow> lseg h pr as nx"
  by (simp_all add: set_next_def set_prev_def lseg_frame)

text \<open>Taking the node \<open>a\<close> with the neighbours \<open>p\<close> and \<open>nx\<close> out of the list and putting it back.\<close>

definition unlink :: "'v heap \<Rightarrow> nat \<Rightarrow> nat option \<Rightarrow> 'v heap" where
  "unlink h p nx = (case nx of None \<Rightarrow> set_next h p nx | Some q \<Rightarrow> set_prev (set_next h p nx) q (Some p))"

definition relink :: "'v heap \<Rightarrow> nat \<Rightarrow> nat \<Rightarrow> nat option \<Rightarrow> 'v heap" where
  "relink h p a nx = (case nx of None \<Rightarrow> set_next h p (Some a) | Some q \<Rightarrow> set_prev (set_next h p (Some a)) q (Some a))"

lemma node_update_same:
  "n_next x = v \<Longrightarrow> x\<lparr>n_next := v\<rparr> = x" "n_prev x = v \<Longrightarrow> x\<lparr>n_prev := v\<rparr> = x"
  for x :: "'v node"
  by (cases x; simp)+

lemma dll_neighbours:
  assumes "dll h (xs @ p # a # ys)"
  shows "n_prev (h ! a) = Some p" "n_next (h ! a) = hd_or ys None" "n_next (h ! p) = Some a"
    "ys = q # zs \<Longrightarrow> n_prev (h ! q) = Some a"
  using assms by (auto simp: dll_def lseg_append)

lemma unlink_dll:
  assumes "dll h (xs @ p # a # ys)"
  shows "dll (unlink h p (hd_or ys None)) (xs @ p # ys)"
proof -
  have d: "distinct (xs @ p # a # ys)" "\<forall>x\<in>set (xs @ p # a # ys). x < length h" "lseg h None (xs @ p # a # ys) None"
    using assms by (auto simp: dll_def)
  have xp: "lseg h None (xs @ [p]) (Some a)" and ay: "lseg h (Some p) (a # ys) None"
    using d(3) lseg_append [of h None "xs @ [p]" "a # ys" None] by simp_all
  then have ys: "lseg h (Some a) ys None" by simp
  let ?h1 = "set_next h p (hd_or ys None)"
  have xp1: "lseg ?h1 None (xs @ [p]) (hd_or ys None)" using lseg_set_next [OF xp] d(1,2) by simp
  have ys1: "lseg ?h1 (Some a) ys None" using ys d(1) by (simp add: lseg_frames)
  show ?thesis
  proof (cases ys)
    case Nil
    then show ?thesis using xp1 d by (simp add: dll_def unlink_def set_next_def)
  next
    case (Cons q zs)
    have "lseg (set_prev ?h1 q (Some p)) (Some p) ys None"
      using lseg_set_prev [of ?h1 "Some a" q zs None "Some p"] ys1 Cons d by (simp add: set_next_def)
    moreover have "lseg (set_prev ?h1 q (Some p)) None (xs @ [p]) (hd_or ys None)"
      using xp1 Cons d(1) by (subst lseg_frames) auto
    ultimately have "lseg (set_prev ?h1 q (Some p)) None ((xs @ [p]) @ ys) None"
      by (subst lseg_append) simp
    then show ?thesis using Cons d by (simp add: dll_def unlink_def set_next_def set_prev_def)
  qed
qed

lemma relink_unlink:
  assumes "dll h (xs @ p # a # ys)"
  shows "relink (unlink h p (hd_or ys None)) p a (hd_or ys None) = h"
proof -
  have n: "n_next (h ! p) = Some a" "p < length h" using dll_neighbours(3) [OF assms] assms by (auto simp: dll_def)
  have p: "(h ! p)\<lparr>n_next := Some a\<rparr> = h ! p" using n(1) by (rule node_update_same)
  show ?thesis
  proof (cases ys)
    case Nil
    then show ?thesis using p n(2) by (simp add: unlink_def relink_def set_next_def)
  next
    case (Cons q zs)
    have q: "n_prev (h ! q) = Some a" "q \<noteq> p" "q < length h" using dll_neighbours(4) [OF assms Cons] assms Cons by (auto simp: dll_def)
    then have e: "(h ! q)\<lparr>n_prev := Some a\<rparr> = h ! q" by (intro node_update_same)
    have "unlink h p (Some q) = h[p := (h ! p)\<lparr>n_next := Some q\<rparr>, q := (h ! q)\<lparr>n_prev := Some p\<rparr>]"
      using q(2) by (simp add: unlink_def set_next_def set_prev_def)
    then have "relink (unlink h p (Some q)) p a (Some q) =
        h[p := (h ! p)\<lparr>n_next := Some q\<rparr>, q := (h ! q)\<lparr>n_prev := Some p\<rparr>, p := h ! p, q := h ! q]"
      using p e q(2,3) n(2) by (simp add: relink_def set_next_def set_prev_def)
    also have "\<dots> = h" using q(2) by (simp add: list_update_swap [of q p])
    finally show ?thesis using Cons by simp
  qed
qed

lemma unlink_other: "a \<noteq> p \<Longrightarrow> nx \<noteq> Some a \<Longrightarrow> unlink h p nx ! a = h ! a"
  by (cases nx) (auto simp: unlink_def set_next_def set_prev_def)

text \<open>The data of a node never changes.\<close>

definition same_data :: "'v heap \<Rightarrow> 'v heap \<Rightarrow> bool" where
  "same_data h h' \<longleftrightarrow> length h' = length h \<and>
     (\<forall>a<length h. n_value (h' ! a) = n_value (h ! a) \<and> n_match (h' ! a) = n_match (h ! a) \<and> n_id (h' ! a) = n_id (h ! a))"

lemma same_data_set: "same_data h (set_next h a p)" "same_data h (set_prev h a p)"
  by (cases "a < length h"; auto simp: same_data_def set_next_def set_prev_def nth_list_update)+

lemma same_data_trans: "same_data a b \<Longrightarrow> same_data b c \<Longrightarrow> same_data a c"
  by (simp add: same_data_def)

lemma same_data_unlink: "same_data h (unlink h p nx)"
  by (cases nx) (auto simp: unlink_def intro: same_data_set same_data_trans)

lemma hd_or_mem: "hd_or ys None = Some q \<Longrightarrow> q \<in> set ys"
  by (cases ys) auto

text \<open>A call \<open>e\<close> with its return \<open>m\<close> later in the list.\<close>

lemma lift_unlink:
  assumes d: "dll h (xs @ p # e # ys @ m # zs)" and m: "n_match (h ! e) = Some m" and us: "xs @ p # ys = us @ [pm]"
  shows "lift h e = Inr (unlink (unlink h p (hd_or (ys @ m # zs) None)) pm (hd_or zs None))"
    and "dll (unlink (unlink h p (hd_or (ys @ m # zs) None)) pm (hd_or zs None)) (xs @ p # ys @ zs)"
proof -
  let ?nx = "hd_or (ys @ m # zs) None"
  let ?h1 = "unlink h p ?nx"
  have eq: "xs @ p # ys @ m # zs = us @ pm # m # zs" "xs @ p # ys @ zs = us @ pm # zs"
    using us by (metis append_Cons append_Nil append_assoc)+
  have dist: "distinct (xs @ p # e # ys @ m # zs)" "e < length h" using d by (auto simp: dll_def)
  obtain q where q: "?nx = Some q" "q \<noteq> e" "q \<noteq> p"
    using dist(1) by (cases ys) auto
  have d1: "dll ?h1 (us @ pm # m # zs)" using unlink_dll [OF d] unfolding eq .
  have e1: "?h1 ! e = h ! e" using unlink_other [of e p ?nx h] q dist(1) by auto
  have p: "n_prev (h ! e) = Some p" "n_next (h ! e) = Some q" using dll_neighbours(1,2) [OF d] q(1) by simp_all
  have h1: "?h1 = set_prev (set_next h p (Some q)) q (Some p)" using q(1) by (simp add: unlink_def)
  have e0: "set_next h p (Some q) ! e = h ! e" using dist(1) by (auto simp: set_next_def)
  have m1: "n_match (?h1 ! e) = Some m" using e1 m by simp
  have n: "n_prev (?h1 ! m) = Some pm" "n_next (?h1 ! m) = hd_or zs None" using dll_neighbours(1,2) [OF d1] by simp_all
  have "m \<noteq> pm" using d1 by (auto simp: dll_def)
  then have "set_next ?h1 pm (hd_or zs None) ! m = ?h1 ! m" by (simp add: set_next_def)
  then have "(case n_next (set_next ?h1 pm (hd_or zs None) ! m) of None \<Rightarrow> set_next ?h1 pm (hd_or zs None)
      | Some qm \<Rightarrow> set_prev (set_next ?h1 pm (hd_or zs None)) qm (n_prev (set_next ?h1 pm (hd_or zs None) ! m))) =
      unlink ?h1 pm (hd_or zs None)"
    using n by (cases zs) (simp_all add: unlink_def)
  then show "lift h e = Inr (unlink ?h1 pm (hd_or zs None))"
    using p e0 m1 n unfolding lift_def Let_def h1 [symmetric]
    by (simp only: p ptr.simps go_bind.simps e0 h1 [symmetric] m1 n)
  show "dll (unlink ?h1 pm (hd_or zs None)) (xs @ p # ys @ zs)" using unlink_dll [OF d1] unfolding eq .
qed

lemma unlift_lift:
  assumes d: "dll h (xs @ p # e # ys @ m # zs)" and m: "n_match (h ! e) = Some m" and lf: "lift h e = Inr h'"
  shows "unlift h' e = Inr h"
proof -
  obtain us pm where us: "xs @ p # ys = us @ [pm]" by (metis append_butlast_last_id append_is_Nil_conv list.discI)
  let ?nx = "hd_or (ys @ m # zs) None"
  let ?h1 = "unlink h p ?nx"
  have eq: "xs @ p # ys @ m # zs = us @ pm # m # zs" using us by (metis append_Cons append_Nil append_assoc)
  have h': "h' = unlink ?h1 pm (hd_or zs None)" using lift_unlink(1) [OF d m us] lf by simp
  have dist: "distinct (xs @ p # e # ys @ m # zs)" "e < length h" using d by (auto simp: dll_def)
  obtain q where q: "?nx = Some q" "q \<noteq> e" "q \<noteq> p" using dist(1) by (cases ys) auto
  have d1: "dll ?h1 (us @ pm # m # zs)" using unlink_dll [OF d] unfolding eq .
  have e1: "?h1 ! e = h ! e" using unlink_other [of e p ?nx h] q dist(1) by auto
  have pm: "pm \<in> set (xs @ p # ys)" using us by simp
  then have "e \<noteq> pm" "m \<noteq> pm" using dist(1) by auto
  moreover have "hd_or zs None \<noteq> Some e" "hd_or zs None \<noteq> Some m" using dist(1) hd_or_mem by fastforce+
  ultimately have e2: "h' ! e = h ! e" "h' ! m = ?h1 ! m" using unlink_other e1 unfolding h' by metis+
  have n: "n_prev (?h1 ! m) = Some pm" "n_next (?h1 ! m) = hd_or zs None" using dll_neighbours(1,2) [OF d1] by simp_all
  have p: "n_prev (h ! e) = Some p" "n_next (h ! e) = Some q" using dll_neighbours(1,2) [OF d] q(1) by simp_all
  have "set_next h' pm (Some m) ! m = h' ! m" using \<open>m \<noteq> pm\<close> by (simp add: set_next_def)
  then have r: "(case n_next (set_next h' pm (Some m) ! m) of None \<Rightarrow> set_next h' pm (Some m)
      | Some qm \<Rightarrow> set_prev (set_next h' pm (Some m)) qm (Some m)) = ?h1"
    using e2 n relink_unlink [OF d1] unfolding h' by (simp add: relink_def)
  have b: "set_prev (set_next ?h1 p (Some e)) q (Some e) = h"
    using relink_unlink [OF d] q(1) by (simp add: relink_def)
  have "set_next ?h1 p (Some e) ! e = h ! e" using e1 dist(1) by (auto simp: set_next_def)
  then show ?thesis
    unfolding unlift_def Let_def by (simp only: e2 m n p e1 r b ptr.simps go_bind.simps)
qed

section \<open>Building the list\<close>

text \<open>The nodes lie in memory in the reverse order of the list.\<close>

definition chain :: "nat \<Rightarrow> nat list" where
  "chain k = rev [0..<k]"

lemma chain_Suc: "chain (Suc k) = k # chain k" and chain_0 [simp]: "chain 0 = []"
  by (simp_all add: chain_def)

lemma set_chain [simp]: "set (chain k) = {0..<k}" "length (chain k) = k" "distinct (chain k)"
  by (auto simp: chain_def)

lemma lseg_append_heap: "\<forall>a\<in>set as. a < length h \<Longrightarrow> lseg (h @ xs) pr as nx \<longleftrightarrow> lseg h pr as nx"
  by (induction as arbitrary: pr) (auto simp: nth_append)

lemma same_data_more:
  "same_data h h' \<Longrightarrow> same_data h (set_next h' a p)" "same_data h h' \<Longrightarrow> same_data h (set_prev h' a p)" "same_data h h"
  using same_data_trans same_data_set by blast+ (simp add: same_data_def)

lemma same_data_insert: "same_data h (insertBefore h n mark)"
  by (auto simp: insertBefore_def Let_def split: option.split intro!: same_data_more)

lemma push_front:
  assumes "dll h (chain k)" "length h = k" "n_next nd = None" "n_prev nd = None"
  shows "dll (insertBefore (h @ [nd]) k (if k = 0 then None else Some (k - 1))) (chain (Suc k))"
    and "same_data (h @ [nd]) (insertBefore (h @ [nd]) k (if k = 0 then None else Some (k - 1)))"
proof -
  let ?h = "h @ [nd]"
  have ls: "lseg ?h None (chain k) None" using assms(1,2) by (subst lseg_append_heap) (auto simp: dll_def)
  show "dll (insertBefore ?h k (if k = 0 then None else Some (k - 1))) (chain (Suc k))"
  proof (cases k)
    case 0
    then show ?thesis using assms(2-4) by (simp add: dll_def chain_def insertBefore_def)
  next
    case (Suc j)
    have n: "n_prev (?h ! j) = None" using ls Suc by (simp add: chain_Suc)
    let ?h1 = "set_prev ?h j (Some k)"
    have "lseg ?h1 (Some k) (chain k) None"
      using ls Suc assms(2) lseg_set_prev [of ?h None j "chain j" None "Some k"] by (simp add: chain_Suc)
    then have "lseg (set_next ?h1 k (Some j)) (Some k) (chain k) None" by (simp add: lseg_frames)
    moreover have "set_next ?h1 k (Some j) ! k = nd\<lparr>n_next := Some j\<rparr>"
      using assms(2) Suc by (simp add: set_next_def set_prev_def nth_append)
    ultimately show ?thesis
      using Suc n assms(2,4) by (auto simp: dll_def insertBefore_def Let_def chain_Suc set_next_def set_prev_def)
  qed
  show "same_data ?h (insertBefore ?h k (if k = 0 then None else Some (k - 1)))"
    by (rule same_data_insert)
qed

fun mts :: "'v entry list \<Rightarrow> nat \<Rightarrow> (int \<times> nat) list \<Rightarrow> (int \<times> nat) list" where
  "mts [] k mt = mt"
| "mts (e # es) k mt = mts es (Suc k) (if e_kind e then al_put (e_id e) k mt else mt)"

lemma mts_keep: "\<forall>i<length es. e_kind (es ! i) \<longrightarrow> e_id (es ! i) \<noteq> x \<Longrightarrow> map_of (mts es k mt) x = map_of mt x"
proof (induction es arbitrary: k mt)
  case (Cons y ys)
  have "e_kind y \<Longrightarrow> e_id y \<noteq> x" using Cons.prems by force
  moreover have "\<forall>i<length ys. e_kind (ys ! i) \<longrightarrow> e_id (ys ! i) \<noteq> x" using Cons.prems by force
  ultimately show ?case using Cons.IH by (cases "e_kind y") auto
qed simp

lemma mts_unique:
  "j < length es \<Longrightarrow> e_kind (es ! j) \<Longrightarrow> \<forall>i<length es. e_kind (es ! i) \<longrightarrow> e_id (es ! i) = e_id (es ! j) \<longrightarrow> i = j \<Longrightarrow>
   map_of (mts es k mt) (e_id (es ! j)) = Some (k + j)"
proof (induction es arbitrary: j k mt)
  case (Cons e es)
  show ?case
  proof (cases j)
    case 0
    then have "\<forall>i<length es. e_kind (es ! i) \<longrightarrow> e_id (es ! i) \<noteq> e_id e" using Cons.prems(3) by force
    from mts_keep [OF this] show ?thesis using 0 Cons.prems(2) by simp
  next
    case (Suc i)
    have "\<forall>l<length es. e_kind (es ! l) \<longrightarrow> e_id (es ! l) = e_id (es ! i) \<longrightarrow> l = i" using Cons.prems(3) Suc by force
    then show ?thesis using Cons.IH [of i "Suc k"] Cons.prems(1,2) Suc by simp
  qed
qed simp

text \<open>The node that the loop makes for an entry.\<close>

definition entry_node :: "'v entry \<Rightarrow> (int \<times> nat) list \<Rightarrow> 'v option \<times> nat option \<times> int" where
  "entry_node e mt = (Some (e_value e), if e_kind e then None else map_of mt (e_id e), e_id e)"

definition node_data :: "'v node \<Rightarrow> 'v option \<times> nat option \<times> int" where
  "node_data n = (n_value n, n_match n, n_id n)"

lemma same_data_node: "same_data h h' \<Longrightarrow> a < length h \<Longrightarrow> node_data (h' ! a) = node_data (h ! a)"
  by (simp add: same_data_def node_data_def)

lemma link_loop_list:
  assumes "dll h (chain (length h))"
  shows "\<exists>h'. link_loop es mt h (if length h = 0 then None else Some (length h - 1)) =
      (h', if length h' = 0 then None else Some (length h' - 1)) \<and>
    length h' = length h + length es \<and> dll h' (chain (length h')) \<and>
    (\<forall>a<length h. node_data (h' ! a) = node_data (h ! a)) \<and>
    (\<forall>k<length es. node_data (h' ! (length h + k)) = entry_node (es ! k) (mts (take k es) (length h) mt))"
  using assms
proof (induction es arbitrary: mt h)
  case (Cons e es)
  define nd where "nd = \<lparr>n_value = Some (e_value e), n_match = (if e_kind e then None else map_of mt (e_id e)),
    n_id = e_id e, n_next = None, n_prev = None\<rparr>"
  define h1 where "h1 = insertBefore (h @ [nd]) (length h) (if length h = 0 then None else Some (length h - 1))"
  let ?mt = "if e_kind e then al_put (e_id e) (length h) mt else mt"
  have p: "dll h1 (chain (Suc (length h)))" "same_data (h @ [nd]) h1"
    unfolding h1_def by (rule push_front [OF Cons.prems refl]; simp add: nd_def)+
  then have len: "length h1 = Suc (length h)" by (simp add: same_data_def)
  have old: "node_data (h1 ! a) = node_data ((h @ [nd]) ! a)" if "a \<le> length h" for a
    using same_data_node [OF p(2)] that by simp
  have root1: "(if length h1 = 0 then None else Some (length h1 - 1)) = Some (length h)" by (simp add: len)
  have step: "link_loop (e # es) mt h (if length h = 0 then None else Some (length h - 1)) =
      link_loop es ?mt h1 (if length h1 = 0 then None else Some (length h1 - 1))"
    unfolding root1 unfolding h1_def nd_def by (cases "e_kind e") (simp_all add: Let_def)
  have d1: "dll h1 (chain (length h1))" using p(1) len by simp
  obtain h' where h': "link_loop es ?mt h1 (if length h1 = 0 then None else Some (length h1 - 1)) =
      (h', if length h' = 0 then None else Some (length h' - 1))"
    "length h' = length h1 + length es" "dll h' (chain (length h'))"
    "\<forall>a<length h1. node_data (h' ! a) = node_data (h1 ! a)"
    "\<forall>k<length es. node_data (h' ! (length h1 + k)) = entry_node (es ! k) (mts (take k es) (length h1) ?mt)"
    using Cons.IH [OF d1, of ?mt] by blast
  have "node_data (h' ! (length h + k)) = entry_node ((e # es) ! k) (mts (take k (e # es)) (length h) mt)"
    if "k < length (e # es)" for k
  proof (cases k)
    case 0
    then show ?thesis using h'(4) len old [of "length h"] by (simp add: nd_def node_data_def entry_node_def)
  next
    case (Suc j)
    then show ?thesis using h'(5) that len by simp
  qed
  moreover have "node_data (h' ! a) = node_data (h ! a)" if "a < length h" for a
    using h'(4) len old [of a] that by (simp add: nth_append)
  ultimately show ?case using step h' len by auto
qed (simp add: dll_def)

end
