(* ===== verification/Porcupine_Checker.thy ===== *)
theory Porcupine_Checker
  imports Porcupine_List Bitset
begin

text \<open>
  The linearizability checker (\<^verbatim>\<open>porcupine/checker.go\<close>, \<^verbatim>\<open>model.go\<close>, \<^verbatim>\<open>porcupine.go\<close>): the model of
  the object under test, the search over one partition of a history and the check of all partitions.
  The flag that stops a search is a function of the iteration, the channel of the parallel check is
  the sequence of what it receives.  Pointers to sequences of identifiers, which the code compares,
  carry the number of their allocation.
\<close>

section \<open>Models\<close>

record ('v, 's) Model =
  Partition :: "('v Operation list \<Rightarrow> 'v Operation list list go) option"
  PartitionEvent :: "('v Event list \<Rightarrow> 'v Event list list go) option"
  Init :: 's
  Step :: "'s \<Rightarrow> 'v \<Rightarrow> 'v \<Rightarrow> (bool \<times> 's) go"
  Equal :: "('s \<Rightarrow> 's \<Rightarrow> bool) option"
  DescribeOperation :: "('v \<Rightarrow> 'v \<Rightarrow> string go) option"
  DescribeState :: "('s \<Rightarrow> string) option"

definition NoPartition :: "'v Operation list \<Rightarrow> 'v Operation list list go" where
  "NoPartition history = Inr [history]"

definition NoPartitionEvent :: "'v Event list \<Rightarrow> 'v Event list list go" where
  "NoPartitionEvent history = Inr [history]"

definition ShallowEqual :: "'s \<Rightarrow> 's \<Rightarrow> bool" where
  "ShallowEqual state1 state2 \<longleftrightarrow> state1 = state2"

text \<open>\<open>sprint\<close> is \<^verbatim>\<open>fmt.Sprintf\<close> with the verb for any value.\<close>

definition DefaultDescribeOperation :: "('v \<Rightarrow> string) \<Rightarrow> 'v \<Rightarrow> 'v \<Rightarrow> string go" where
  "DefaultDescribeOperation sprint inp out = Inr (sprint inp @ '' -> '' @ sprint out)"

definition DefaultDescribeState :: "('s \<Rightarrow> string) \<Rightarrow> 's \<Rightarrow> string" where
  "DefaultDescribeState sprint state = sprint state"

definition fillDefault :: "('v \<Rightarrow> string) \<Rightarrow> ('s \<Rightarrow> string) \<Rightarrow> ('v, 's) Model \<Rightarrow> ('v, 's) Model" where
  "fillDefault sprintv sprints model =
     (let m1 = (if Partition model = None then model\<lparr>Partition := Some NoPartition\<rparr> else model);
          m2 = (if PartitionEvent m1 = None then m1\<lparr>PartitionEvent := Some NoPartitionEvent\<rparr> else m1);
          m3 = (if Equal m2 = None then m2\<lparr>Equal := Some ShallowEqual\<rparr> else m2);
          m4 = (if DescribeOperation m3 = None then m3\<lparr>DescribeOperation := Some (DefaultDescribeOperation sprintv)\<rparr> else m3)
      in if DescribeState m4 = None then m4\<lparr>DescribeState := Some (DefaultDescribeState sprints)\<rparr> else m4)"

definition equal_states :: "('v, 's) Model \<Rightarrow> 's \<Rightarrow> 's \<Rightarrow> bool go" where
  "equal_states model s t = (case Equal model of None \<Rightarrow> Inl NilDereference | Some f \<Rightarrow> Inr (f s t))"

section \<open>The search over one partition\<close>

record 's cacheEntry =
  linearized :: bitset
  c_state :: 's

type_synonym 's cache = "(64 word \<times> 's cacheEntry list) list"

definition bucket :: "'s cache \<Rightarrow> 64 word \<Rightarrow> 's cacheEntry list" where
  "bucket cache hash = (case map_of cache hash of None \<Rightarrow> [] | Some es \<Rightarrow> es)"

fun contains_loop :: "('v, 's) Model \<Rightarrow> 's cacheEntry list \<Rightarrow> 's cacheEntry \<Rightarrow> bool go" where
  "contains_loop model [] entry = Inr False"
| "contains_loop model (elem # es) entry =
     (if bs_equals (linearized entry) (linearized elem)
      then go_bind (equal_states model (c_state entry) (c_state elem)) (\<lambda>eq.
             if eq then Inr True else contains_loop model es entry)
      else contains_loop model es entry)"

definition cacheContains :: "('v, 's) Model \<Rightarrow> 's cache \<Rightarrow> 's cacheEntry \<Rightarrow> bool go" where
  "cacheContains model cache entry = contains_loop model (bucket cache (bs_hash (linearized entry))) entry"

type_synonym seq_ptr = "nat \<times> int list"

record ('v, 's) search =
  k_heap :: "'v heap"
  k_entry :: "nat option"
  k_linearized :: bitset
  k_cache :: "'s cache"
  k_calls :: "(nat \<times> 's) list"
  k_state :: 's
  k_longest :: "seq_ptr option list"
  k_allocs :: nat

fun longest_loop :: "'v heap \<Rightarrow> seq_ptr \<Rightarrow> (nat \<times> 's) list \<Rightarrow> seq_ptr option list \<Rightarrow> seq_ptr option list go" where
  "longest_loop h seq [] longest = Inr longest"
| "longest_loop h seq ((e, s) # calls) longest =
     go_bind (slice_get longest (n_id (h ! e))) (\<lambda>l.
       if (case l of None \<Rightarrow> True | Some q \<Rightarrow> length (snd seq) > length (snd q))
       then go_bind (slice_set longest (n_id (h ! e)) (Some seq)) (longest_loop h seq calls)
       else longest_loop h seq calls longest)"

definition interface_value :: "'v node \<Rightarrow> 'v go" where
  "interface_value nd = (case n_value nd of None \<Rightarrow> Inl NilDereference | Some v \<Rightarrow> Inr v)"

definition call_ids :: "'v heap \<Rightarrow> (nat \<times> 's) list \<Rightarrow> int list" where
  "call_ids h calls = map (\<lambda>(e, s). n_id (h ! e)) calls"

text \<open>The body of the loop of \<^verbatim>\<open>checkSingle\<close> for a call entry and for a return entry.\<close>

definition visit_call :: "nat \<Rightarrow> ('v, 's) Model \<Rightarrow> ('v, 's) search \<Rightarrow> nat \<Rightarrow> nat \<Rightarrow> ('v, 's) search go" where
  "visit_call head model k e matching =
     go_bind (interface_value (k_heap k ! e)) (\<lambda>inp.
     go_bind (interface_value (k_heap k ! matching)) (\<lambda>out.
     go_bind (Step model (k_state k) inp out) (\<lambda>(ok, newState).
       if ok then
         go_bind (bs_set (clone (k_linearized k)) (nat (n_id (k_heap k ! e)))) (\<lambda>newLinearized.
           let newCacheEntry = \<lparr>linearized = newLinearized, c_state = newState\<rparr> in
         go_bind (cacheContains model (k_cache k) newCacheEntry) (\<lambda>found.
           if \<not> found then
             let hash = bs_hash newLinearized in
             go_bind (bs_set (k_linearized k) (nat (n_id (k_heap k ! e)))) (\<lambda>lin'.
             go_bind (lift (k_heap k) e) (\<lambda>h'.
               Inr (k\<lparr>k_cache := al_put hash (bucket (k_cache k) hash @ [newCacheEntry]) (k_cache k),
                      k_calls := k_calls k @ [(e, k_state k)], k_state := newState, k_linearized := lin',
                      k_heap := h', k_entry := n_next (h' ! head)\<rparr>)))
           else Inr (k\<lparr>k_entry := n_next (k_heap k ! e)\<rparr>)))
       else Inr (k\<lparr>k_entry := n_next (k_heap k ! e)\<rparr>))))"

definition backtrack :: "bool \<Rightarrow> ('v, 's) search \<Rightarrow> ('v, 's) search go" where
  "backtrack computePartial k =
     (let seq = (k_allocs k, call_ids (k_heap k) (k_calls k)) in
      go_bind (if computePartial then longest_loop (k_heap k) seq (k_calls k) (k_longest k) else Inr (k_longest k)) (\<lambda>longest'.
      go_bind (slice_get (k_calls k) (int (length (k_calls k)) - 1)) (\<lambda>(e, s).
      go_bind (bs_clear (k_linearized k) (nat (n_id (k_heap k ! e)))) (\<lambda>lin'.
      go_bind (unlift (k_heap k) e) (\<lambda>h'.
        Inr (k\<lparr>k_longest := longest', k_allocs := k_allocs k + 1, k_state := s, k_linearized := lin',
               k_calls := butlast (k_calls k), k_heap := h', k_entry := n_next (h' ! e)\<rparr>))))))"

text \<open>One iteration: a new state, or the result.\<close>

definition check_step ::
  "nat \<Rightarrow> nat \<Rightarrow> ('v, 's) Model \<Rightarrow> bool \<Rightarrow> bool \<Rightarrow> ('v, 's) search \<Rightarrow> (('v, 's) search + bool \<times> seq_ptr option list) go" where
  "check_step n head model computePartial kill k =
     (if n_next (k_heap k ! head) = None
      then Inr (Inr (True, replicate n (Some (k_allocs k, call_ids (k_heap k) (k_calls k)))))
      else if kill then Inr (Inr (False, k_longest k))
      else
        go_bind (ptr (k_entry k)) (\<lambda>e.
          case n_match (k_heap k ! e) of
            Some matching \<Rightarrow> go_bind (visit_call head model k e matching) (\<lambda>k'. Inr (Inl k'))
          | None \<Rightarrow>
              if k_calls k = [] then Inr (Inr (False, k_longest k))
              else go_bind (backtrack computePartial k) (\<lambda>k'. Inr (Inl k'))))"

partial_function (option) check_loop ::
  "nat \<Rightarrow> nat \<Rightarrow> ('v, 's) Model \<Rightarrow> bool \<Rightarrow> (nat \<Rightarrow> bool) \<Rightarrow> nat \<Rightarrow> ('v, 's) search \<Rightarrow>
   ((bool \<times> seq_ptr option list) go) option" where
  "check_loop n head model computePartial kill i k =
     (case check_step n head model computePartial (kill i) k of
        Inl e \<Rightarrow> Some (Inl e)
      | Inr r \<Rightarrow> (case r of Inl k' \<Rightarrow> check_loop n head model computePartial kill (i + 1) k' | Inr b \<Rightarrow> Some (Inr b)))"

text \<open>The list with its head node, and the state before the first iteration.\<close>

definition with_head :: "'v heap \<Rightarrow> nat option \<Rightarrow> 'v heap" where
  "with_head h entry =
     insertBefore (h @ [\<lparr>n_value = None, n_match = None, n_id = - 1, n_next = None, n_prev = None\<rparr>]) (length h) entry"

definition search_start :: "('v, 's) Model \<Rightarrow> nat \<Rightarrow> 'v heap \<Rightarrow> nat option \<Rightarrow> ('v, 's) search" where
  "search_start model n h entry =
     \<lparr>k_heap = with_head h entry, k_entry = entry, k_linearized = newBitset n, k_cache = [], k_calls = [],
      k_state = Init model, k_longest = replicate n None, k_allocs = 0\<rparr>"

definition checkSingle ::
  "('v, 's) Model \<Rightarrow> 'v entry list \<Rightarrow> bool \<Rightarrow> (nat \<Rightarrow> bool) \<Rightarrow> ((bool \<times> seq_ptr option list) go) option" where
  "checkSingle model history computePartial kill =
     (case makeLinkedEntries history of
        (h, entry) \<Rightarrow>
          (case list_length h entry of
             None \<Rightarrow> None
           | Some l \<Rightarrow>
               let n = l div 2
               in check_loop n (length h) model computePartial kill 0 (search_start model n h entry)))"

end
