(* ===== verification/Porcupine_Search.thy ===== *)
theory Porcupine_Search
  imports Porcupine_Checker
begin

text \<open>
  What the checker is to decide: the linearizability of a history, and the search space of
  configurations, the set of operations already ordered with the state they lead to.  The facts about
  the search space do not mention the linked list; the refinement is in the next theory.
\<close>

section \<open>Linearizability\<close>

fun run_seq :: "('s \<Rightarrow> 'v \<Rightarrow> 'v \<Rightarrow> (bool \<times> 's) go) \<Rightarrow> (nat \<Rightarrow> 'v) \<Rightarrow> (nat \<Rightarrow> 'v) \<Rightarrow> 's \<Rightarrow> nat list \<Rightarrow> bool" where
  "run_seq step inp out s [] \<longleftrightarrow> True"
| "run_seq step inp out s (i # is) \<longleftrightarrow>
     (case step s (inp i) (out i) of Inl _ \<Rightarrow> False | Inr (ok, s') \<Rightarrow> ok \<and> run_seq step inp out s' is)"

text \<open>An order of all operations that a sequential object accepts and that respects real time.\<close>

definition linearization :: "('v, 's) Model \<Rightarrow> 'v Operation list \<Rightarrow> nat list \<Rightarrow> bool" where
  "linearization model ops is \<longleftrightarrow>
     distinct is \<and> set is = {..<length ops} \<and>
     (\<forall>k l. k < l \<longrightarrow> l < length is \<longrightarrow> \<not> Return (ops ! (is ! l)) < Call (ops ! (is ! k))) \<and>
     run_seq (Step model) (\<lambda>i. Input (ops ! i)) (\<lambda>i. Output (ops ! i)) (Init model) is"

definition linearizable :: "('v, 's) Model \<Rightarrow> 'v Operation list \<Rightarrow> bool" where
  "linearizable model ops \<longleftrightarrow> (\<exists>is. linearization model ops is)"

section \<open>Configurations\<close>

text \<open>
  \<open>rb j i\<close> means that operation \<open>j\<close> returned before \<open>i\<close> was called, \<open>st i s\<close> is the state after
  \<open>i\<close>, if the object accepts it in state \<open>s\<close>.
\<close>

definition cand :: "nat \<Rightarrow> (nat \<Rightarrow> nat \<Rightarrow> bool) \<Rightarrow> nat set \<Rightarrow> nat \<Rightarrow> bool" where
  "cand n rb S i \<longleftrightarrow> i < n \<and> i \<notin> S \<and> (\<forall>j<n. rb j i \<longrightarrow> j \<in> S)"

fun legal :: "nat \<Rightarrow> (nat \<Rightarrow> nat \<Rightarrow> bool) \<Rightarrow> (nat \<Rightarrow> 's \<Rightarrow> 's option) \<Rightarrow> nat set \<Rightarrow> 's \<Rightarrow> nat list \<Rightarrow> bool" where
  "legal n rb st S s [] \<longleftrightarrow> True"
| "legal n rb st S s (i # is) \<longleftrightarrow> cand n rb S i \<and> (\<exists>s'. st i s = Some s' \<and> legal n rb st (insert i S) s' is)"

fun exec_seq :: "(nat \<Rightarrow> 's \<Rightarrow> 's option) \<Rightarrow> 's \<Rightarrow> nat list \<Rightarrow> 's option" where
  "exec_seq st s [] = Some s"
| "exec_seq st s (i # is) = (case st i s of None \<Rightarrow> None | Some s' \<Rightarrow> exec_seq st s' is)"

lemma legal_append:
  "legal n rb st S s (xs @ [i]) \<longleftrightarrow>
   legal n rb st S s xs \<and> (\<exists>t t'. exec_seq st s xs = Some t \<and> cand n rb (S \<union> set xs) i \<and> st i t = Some t')"
  by (induction xs arbitrary: S s) auto

lemma exec_append: "exec_seq st s (xs @ [i]) = (case exec_seq st s xs of None \<Rightarrow> None | Some t \<Rightarrow> st i t)"
  by (induction xs arbitrary: s) (auto split: option.splits)

lemma legal_exec: "legal n rb st S s xs \<Longrightarrow> \<exists>t. exec_seq st s xs = Some t"
  by (induction xs arbitrary: S s) (auto simp: Option.is_none_def)

lemma legal_distinct: "legal n rb st S s xs \<Longrightarrow> distinct xs \<and> set xs \<subseteq> {..<n} \<and> set xs \<inter> S = {}"
  by (induction xs arbitrary: S s) (force simp: cand_def)+

text \<open>A legal sequence of all operations is an order that respects real time.\<close>

lemma legal_order:
  "legal n rb st S s xs \<longleftrightarrow>
   distinct xs \<and> set xs \<subseteq> {..<n} \<and> set xs \<inter> S = {} \<and> exec_seq st s xs \<noteq> None \<and>
   (\<forall>k<length xs. \<forall>j<n. rb j (xs ! k) \<longrightarrow> j \<in> S \<union> set (take k xs))"
proof (induction xs rule: rev_induct)
  case (snoc i xs)
  have t: "take k (xs @ [i]) = take k xs" "(xs @ [i]) ! k = xs ! k" if "k < length xs" for k
    using that by (simp_all add: nth_append)
  have ord: "(\<forall>k<length (xs @ [i]). \<forall>j<n. rb j ((xs @ [i]) ! k) \<longrightarrow> j \<in> S \<union> set (take k (xs @ [i]))) \<longleftrightarrow>
      (\<forall>k<length xs. \<forall>j<n. rb j (xs ! k) \<longrightarrow> j \<in> S \<union> set (take k xs)) \<and> (\<forall>j<n. rb j i \<longrightarrow> j \<in> S \<union> set xs)"
    by (auto simp: t less_Suc_eq)
  show ?case unfolding legal_append snoc.IH ord exec_append by (auto simp: cand_def split: option.splits)
qed simp

lemma legal_all:
  assumes "\<And>i. i < n \<Longrightarrow> \<not> rb i i"
  shows "legal n rb st {} s xs \<and> set xs = {..<n} \<longleftrightarrow>
    distinct xs \<and> set xs = {..<n} \<and> (\<forall>k l. k < l \<longrightarrow> l < length xs \<longrightarrow> \<not> rb (xs ! l) (xs ! k)) \<and> exec_seq st s xs \<noteq> None"
proof -
  have "(\<forall>k<length xs. \<forall>j<n. rb j (xs ! k) \<longrightarrow> j \<in> set (take k xs)) \<longleftrightarrow>
      (\<forall>k l. k < l \<longrightarrow> l < length xs \<longrightarrow> \<not> rb (xs ! l) (xs ! k))" if d: "distinct xs" "set xs = {..<n}"
  proof (intro iffI allI impI)
    fix k l assume a: "\<forall>k<length xs. \<forall>j<n. rb j (xs ! k) \<longrightarrow> j \<in> set (take k xs)" and kl: "k < l" "l < length xs"
    have "xs ! l < n" using d(2) kl(2) nth_mem by blast
    moreover have "xs ! l \<notin> set (take k xs)"
      using d(1) kl by (auto simp: in_set_conv_nth nth_eq_iff_index_eq)
    ultimately show "\<not> rb (xs ! l) (xs ! k)" using a kl by (meson less_trans)
  next
    fix k j assume a: "\<forall>k l. k < l \<longrightarrow> l < length xs \<longrightarrow> \<not> rb (xs ! l) (xs ! k)" and k: "k < length xs" "j < n" "rb j (xs ! k)"
    obtain l where l: "l < length xs" "xs ! l = j" using d(2) k(2) by (metis in_set_conv_nth lessThan_iff)
    have "l \<noteq> k" using assms k(2,3) l by auto
    then have "l < k" using a k(3) l by (metis linorder_neqE_nat)
    then show "j \<in> set (take k xs)" using l k(1) by (auto simp: in_set_conv_nth)
  qed
  then show ?thesis unfolding legal_order by auto
qed

section \<open>Exploring\<close>

definition reachable :: "nat \<Rightarrow> (nat \<Rightarrow> nat \<Rightarrow> bool) \<Rightarrow> (nat \<Rightarrow> 's \<Rightarrow> 's option) \<Rightarrow> 's \<Rightarrow> (nat set \<times> 's) set" where
  "reachable n rb st s0 = {(set xs, t) | xs t. legal n rb st {} s0 xs \<and> exec_seq st s0 xs = Some t}"

lemma reachable_init: "({}, s0) \<in> reachable n rb st s0"
  by (force simp: reachable_def)

lemma reachable_step:
  assumes "(S, s) \<in> reachable n rb st s0" "cand n rb S i" "st i s = Some s'"
  shows "(insert i S, s') \<in> reachable n rb st s0"
proof -
  obtain xs where "legal n rb st {} s0 xs" "exec_seq st s0 xs = Some s" "S = set xs"
    using assms(1) by (auto simp: reachable_def)
  then have "legal n rb st {} s0 (xs @ [i])" "exec_seq st s0 (xs @ [i]) = Some s'" "insert i S = set (xs @ [i])"
    using assms(2,3) by (auto simp: legal_append exec_append)
  then show ?thesis unfolding reachable_def by blast
qed

lemma reachable_finite: "finite (reachable n rb st s0)"
proof (rule finite_subset)
  show "reachable n rb st s0 \<subseteq> (\<lambda>xs. (set xs, the (exec_seq st s0 xs))) ` {xs. set xs \<subseteq> {..<n} \<and> distinct xs}"
    using legal_distinct by (fastforce simp: reachable_def)
  show "finite ((\<lambda>xs. (set xs, the (exec_seq st s0 xs))) ` {xs. set xs \<subseteq> {..<n} \<and> distinct xs})"
    by (intro finite_imageI finite_subset_distinct) simp
qed

text \<open>
  A set of configurations that contains every successor of the initial configuration and of its own
  members contains every reachable one.
\<close>

definition explored :: "nat \<Rightarrow> (nat \<Rightarrow> nat \<Rightarrow> bool) \<Rightarrow> (nat \<Rightarrow> 's \<Rightarrow> 's option) \<Rightarrow> (nat set \<times> 's) set \<Rightarrow> nat set \<Rightarrow> 's \<Rightarrow> bool" where
  "explored n rb st C S s \<longleftrightarrow> (\<forall>i s'. cand n rb S i \<longrightarrow> st i s = Some s' \<longrightarrow> (insert i S, s') \<in> C)"

lemma explored_mono: "explored n rb st C S s \<Longrightarrow> C \<subseteq> C' \<Longrightarrow> explored n rb st C' S s"
  by (auto simp: explored_def)

lemma explored_closed:
  assumes "explored n rb st C {} s0" "\<And>S s. (S, s) \<in> C \<Longrightarrow> explored n rb st C S s"
  shows "legal n rb st {} s0 xs \<Longrightarrow> exec_seq st s0 xs = Some t \<Longrightarrow> xs \<noteq> [] \<Longrightarrow> (set xs, t) \<in> C"
proof (induction xs arbitrary: t rule: rev_induct)
  case (snoc i xs)
  then obtain u where u: "legal n rb st {} s0 xs" "exec_seq st s0 xs = Some u" "cand n rb (set xs) i" "st i u = Some t"
    by (auto simp: legal_append exec_append)
  have "explored n rb st C (set xs) u"
  proof (cases "xs = []")
    case True
    then show ?thesis using assms(1) u(2) by simp
  next
    case False
    then show ?thesis using snoc.IH [OF u(1,2)] assms(2) by blast
  qed
  then show ?case using u(3,4) by (auto simp: explored_def)
qed simp

end
