(* ===== verification/Porcupine_Refine.thy ===== *)
theory Porcupine_Refine
  imports Porcupine_Search
begin

text \<open>
  The search of \<^verbatim>\<open>checkSingle\<close> implements the exploration of the configurations: its list is the history
  without the ordered operations, its stack is a path of configurations, and its cache is the set of
  the configurations it has visited.  From this follows that the search ends and that its answer is
  right.
\<close>

section \<open>Well-formed histories\<close>

text \<open>
  The entry that is stored at an address; a history of \<open>n\<close> operations, where operation \<open>i\<close> has its call
  at address \<open>ca i\<close> and its return, which comes later, at the smaller address \<open>ra i\<close>.
\<close>

definition ent :: "'v entry list \<Rightarrow> nat \<Rightarrow> 'v entry" where
  "ent es a = rev es ! a"

definition wf_history :: "'v entry list \<Rightarrow> nat \<Rightarrow> (nat \<Rightarrow> nat) \<Rightarrow> (nat \<Rightarrow> nat) \<Rightarrow> bool" where
  "wf_history es n ca ra \<longleftrightarrow> length es = 2 * n \<and>
     (\<forall>i<n. ca i < 2 * n \<and> ra i < ca i \<and> \<not> e_kind (ent es (ca i)) \<and> e_id (ent es (ca i)) = int i \<and>
            e_kind (ent es (ra i)) \<and> e_id (ent es (ra i)) = int i) \<and>
     (\<forall>a<2 * n. \<exists>i<n. a = ca i \<or> a = ra i)"

lemma wf_historyD:
  assumes "wf_history es n ca ra" "i < n"
  shows "ca i < 2 * n" "ra i < ca i" "\<not> e_kind (ent es (ca i))" "e_id (ent es (ca i)) = int i"
    "e_kind (ent es (ra i))" "e_id (ent es (ra i)) = int i"
  using assms by (auto simp: wf_history_def)

lemma wf_history_cases:
  assumes "wf_history es n ca ra" "a < 2 * n"
  obtains i where "i < n" "a = ca i" | i where "i < n" "a = ra i"
  using assms unfolding wf_history_def by blast

definition rest :: "'v entry list \<Rightarrow> nat set \<Rightarrow> nat list" where
  "rest es S = filter (\<lambda>a. nat (e_id (ent es a)) \<notin> S) (chain (length es))"

lemma rest_sorted: "sorted_wrt (>) (rest es S)"
  unfolding rest_def chain_def by (intro sorted_wrt_filter) (simp add: sorted_wrt_rev)

lemma set_rest:
  assumes "wf_history es n ca ra"
  shows "set (rest es S) = ca ` ({..<n} - S) \<union> ra ` ({..<n} - S)"
proof -
  have len: "length es = 2 * n" using assms by (simp add: wf_history_def)
  have "a \<in> set (rest es S) \<longleftrightarrow> a \<in> ca ` ({..<n} - S) \<union> ra ` ({..<n} - S)" for a
  proof
    assume "a \<in> set (rest es S)"
    then have "a < 2 * n" "nat (e_id (ent es a)) \<notin> S" using len by (auto simp: rest_def)
    then show "a \<in> ca ` ({..<n} - S) \<union> ra ` ({..<n} - S)"
      using wf_historyD(4,6) [OF assms] by (rule_tac wf_history_cases [OF assms]) auto
  next
    assume "a \<in> ca ` ({..<n} - S) \<union> ra ` ({..<n} - S)"
    then obtain i where "i < n" "i \<notin> S" "a = ca i \<or> a = ra i" by auto
    then show "a \<in> set (rest es S)"
      using wf_historyD [OF assms \<open>i < n\<close>] len by (auto simp: rest_def)
  qed
  then show ?thesis by blast
qed

lemma call_return_distinct:
  assumes "wf_history es n ca ra" "i < n" "j < n"
  shows "ca i \<noteq> ra j" "ca i = ca j \<Longrightarrow> i = j" "ra i = ra j \<Longrightarrow> i = j"
  using wf_historyD [OF assms(1)] assms(2,3) by (metis of_nat_eq_iff)+

text \<open>The candidates are the calls before the first return of the list.\<close>

definition rb_of :: "(nat \<Rightarrow> nat) \<Rightarrow> (nat \<Rightarrow> nat) \<Rightarrow> nat \<Rightarrow> nat \<Rightarrow> bool" where
  "rb_of ca ra j i \<longleftrightarrow> ca i < ra j"

definition only_calls :: "'v entry list \<Rightarrow> nat list \<Rightarrow> bool" where
  "only_calls es as \<longleftrightarrow> (\<forall>a\<in>set as. \<not> e_kind (ent es a))"

lemma cand_front:
  assumes wf: "wf_history es n ca ra" and r: "rest es S = pre @ ca i # post" and c: "only_calls es pre" and i: "i < n"
  shows "cand n (rb_of ca ra) S i"
proof -
  have "ca i \<in> set (rest es S)" using r by simp
  then have "i \<notin> S" using set_rest [OF wf] call_return_distinct [OF wf i] by auto
  moreover have "j \<in> S" if j: "j < n" "ca i < ra j" for j
  proof (rule ccontr)
    assume "j \<notin> S"
    then have "ra j \<in> set (rest es S)" using set_rest [OF wf] j(1) by auto
    then have "ra j \<in> set pre"
      using r j(2) rest_sorted [of es S] by (auto simp: sorted_wrt_append)
    then show False using c wf_historyD(5) [OF wf j(1)] by (auto simp: only_calls_def)
  qed
  ultimately show ?thesis using i by (simp add: cand_def rb_of_def)
qed

lemma cand_before_return:
  assumes wf: "wf_history es n ca ra" and r: "rest es S = pre @ e # post" and e: "e_kind (ent es e)"
    and i: "cand n (rb_of ca ra) S i"
  shows "ca i \<in> set pre"
proof (rule ccontr)
  assume no: "ca i \<notin> set pre"
  have i': "i < n" "i \<notin> S" using i by (auto simp: cand_def)
  have "e \<in> set (rest es S)" using r by simp
  then obtain j where j: "j < n" "j \<notin> S" "e = ra j"
    using set_rest [OF wf] wf_historyD(3) [OF wf] e by auto
  have "ca i \<in> set (rest es S)" using set_rest [OF wf] i' by auto
  then have "ca i \<in> set post" using no r call_return_distinct(1) [OF wf i'(1) j(1)] j(3) by auto
  then have "ca i < ra j" using rest_sorted [of es S] r j(3) by (simp add: sorted_wrt_append)
  then show False using i j(1,2) by (auto simp: cand_def rb_of_def)
qed

lemma rest_call:
  assumes "wf_history es n ca ra" "a \<in> set (rest es S)" "\<not> e_kind (ent es a)"
  obtains i where "i < n" "i \<notin> S" "a = ca i"
  using assms set_rest [OF assms(1)] wf_historyD(5) [OF assms(1)] by auto

lemma rest_insert:
  assumes wf: "wf_history es n ca ra" and r: "rest es S = pre @ ca i # post" and i: "i < n"
  obtains mid zs where "post = mid @ ra i # zs" "rest es (insert i S) = pre @ mid @ zs"
proof -
  have "ca i \<in> set (rest es S)" using r by simp
  then have "i \<notin> S" using set_rest [OF wf] call_return_distinct [OF wf i] by auto
  then have "ra i \<in> set (rest es S)" using set_rest [OF wf] i by auto
  moreover have "ra i < ca i" using wf_historyD(2) [OF wf i] .
  ultimately have "ra i \<in> set post" using r rest_sorted [of es S] by (auto simp: sorted_wrt_append)
  then obtain mid zs where post: "post = mid @ ra i # zs" by (meson split_list)
  have "rest es (insert i S) = filter (\<lambda>a. nat (e_id (ent es a)) \<noteq> i) (rest es S)"
    unfolding rest_def filter_filter by (rule filter_cong) auto
  also have "\<dots> = pre @ mid @ zs"
  proof -
    have "distinct (rest es S)" unfolding rest_def by simp
    then have d: "ca i \<notin> set (pre @ mid @ zs)" "ra i \<notin> set (pre @ mid @ zs)" unfolding r post by auto
    have "nat (e_id (ent es a)) \<noteq> i" if "a \<in> set (pre @ mid @ zs)" for a
    proof -
      have "a \<in> set (rest es S)" using that unfolding r post by auto
      then obtain j where "j < n" "a = ca j \<or> a = ra j" using set_rest [OF wf] by auto
      then show ?thesis using d that wf_historyD(4,6) [OF wf \<open>j < n\<close>] by auto
    qed
    then have "filter (\<lambda>a. nat (e_id (ent es a)) \<noteq> i) (pre @ mid @ zs) = pre @ mid @ zs" by (simp add: filter_id_conv)
    then show ?thesis unfolding r post using wf_historyD(4,6) [OF wf i] by simp
  qed
  finally show thesis using that post by blast
qed

section \<open>The list\<close>

definition entry_data :: "'v entry list \<Rightarrow> (nat \<Rightarrow> nat) \<Rightarrow> nat \<Rightarrow> 'v option \<times> nat option \<times> int" where
  "entry_data es ra a =
     (Some (e_value (ent es a)), if e_kind (ent es a) then None else Some (ra (nat (e_id (ent es a)))), e_id (ent es a))"

text \<open>A heap that holds the history without the operations in \<open>S\<close>, with the head node at the last address.\<close>

definition list_ok :: "'v entry list \<Rightarrow> nat \<Rightarrow> (nat \<Rightarrow> nat) \<Rightarrow> 'v heap \<Rightarrow> nat set \<Rightarrow> bool" where
  "list_ok es n ra h S \<longleftrightarrow> dll h ((2 * n) # rest es S) \<and> length h = 2 * n + 1 \<and>
     (\<forall>a<2 * n. node_data (h ! a) = entry_data es ra a)"

lemma list_ok_node:
  assumes "list_ok es n ra h S" "a < 2 * n"
  shows "n_value (h ! a) = Some (e_value (ent es a))" "n_id (h ! a) = e_id (ent es a)"
    "n_match (h ! a) = (if e_kind (ent es a) then None else Some (ra (nat (e_id (ent es a)))))"
  using assms by (auto simp: list_ok_def node_data_def entry_data_def)

lemma length_loop_lseg: "lseg h pr as None \<Longrightarrow> length_loop h (hd_or as None) l = Some (l + length as)"
proof (induction as arbitrary: pr l)
  case Nil
  then show ?case by (simp add: length_loop.simps)
next
  case (Cons a as)
  then show ?case using Cons.IH [of "Some a" "Suc l"] by (simp add: length_loop.simps [of h "Some a"])
qed

lemma hd_or_chain: "hd_or (chain k) None = (if k = 0 then None else Some (k - 1))"
  by (cases k) (simp_all add: chain_Suc)

text \<open>The match of a call, read off the returns that were linked before it, is its own return.\<close>

lemma return_linked:
  assumes wf: "wf_history es n ca ra" and i: "i < n"
  shows "map_of (mts (take (ca i) (rev es)) 0 []) (int i) = Some (ra i)"
proof -
  let ?xs = "take (ca i) (rev es)"
  have len: "length es = 2 * n" using wf by (simp add: wf_history_def)
  note d = wf_historyD [OF wf i]
  have r: "ra i < length ?xs" "?xs ! ra i = ent es (ra i)" using d(1,2) len by (auto simp: ent_def)
  have "map_of (mts ?xs 0 []) (e_id (?xs ! ra i)) = Some (0 + ra i)"
  proof (rule mts_unique [OF r(1)])
    show "e_kind (?xs ! ra i)" using d(5) r(2) by simp
    show "\<forall>k<length ?xs. e_kind (?xs ! k) \<longrightarrow> e_id (?xs ! k) = e_id (?xs ! ra i) \<longrightarrow> k = ra i"
    proof (intro allI impI)
      fix k assume k: "k < length ?xs" "e_kind (?xs ! k)" "e_id (?xs ! k) = e_id (?xs ! ra i)"
      then have e: "?xs ! k = ent es k" "k < 2 * n" using d(1) len by (auto simp: ent_def)
      then obtain j where j: "j < n" "k = ra j"
        using k(2) wf_historyD(3) [OF wf] by (metis wf_history_cases [OF wf])
      then show "k = ra i" using k(3) e(1) r(2) d(6) wf_historyD(6) [OF wf j(1)] by simp
    qed
  qed
  then show ?thesis using d(6) r(2) by simp
qed

lemma linked_data:
  assumes wf: "wf_history es n ca ra" and a: "a < 2 * n"
  shows "entry_node (rev es ! a) (mts (take a (rev es)) 0 []) = entry_data es ra a"
proof -
  consider (call) i where "i < n" "a = ca i" | (return) i where "i < n" "a = ra i"
    using wf_history_cases [OF wf a] by metis
  then show ?thesis
  proof cases
    case (call i)
    then show ?thesis using wf_historyD [OF wf call(1)] return_linked [OF wf call(1)]
      by (simp add: entry_node_def entry_data_def ent_def)
  next
    case (return i)
    then show ?thesis using wf_historyD(5) [OF wf return(1)] by (simp add: entry_node_def entry_data_def ent_def)
  qed
qed

lemma start_list:
  assumes wf: "wf_history es n ca ra"
  shows "\<exists>h. makeLinkedEntries es = (h, if n = 0 then None else Some (2 * n - 1)) \<and> length h = 2 * n \<and>
    list_length h (if n = 0 then None else Some (2 * n - 1)) = Some (2 * n) \<and>
    list_ok es n ra (with_head h (if n = 0 then None else Some (2 * n - 1))) {}"
proof -
  have len: "length es = 2 * n" using wf by (simp add: wf_history_def)
  have "dll ([] :: 'a heap) (chain (length ([] :: 'a heap)))" by (simp add: dll_def)
  from link_loop_list [OF this, of "rev es" "[]"] obtain h where
    h0: "link_loop (rev es) [] [] (if length ([] :: 'a heap) = 0 then None else Some (length ([] :: 'a heap) - 1)) =
        (h, if length h = 0 then None else Some (length h - 1))"
      "length h = length ([] :: 'a heap) + length (rev es)" "dll h (chain (length h))"
      "\<forall>k<length (rev es). node_data (h ! (length ([] :: 'a heap) + k)) =
        entry_node (rev es ! k) (mts (take k (rev es)) (length ([] :: 'a heap)) [])"
    by blast
  then have h: "link_loop (rev es) [] [] None = (h, if n = 0 then None else Some (2 * n - 1))"
      "length h = 2 * n" "dll h (chain (2 * n))"
      "\<And>k. k < 2 * n \<Longrightarrow> node_data (h ! k) = entry_node (rev es ! k) (mts (take k (rev es)) 0 [])"
    using len by (simp_all split: if_splits)
  have data: "node_data (h ! a) = entry_data es ra a" if "a < 2 * n" for a
    using h(4) [OF that] linked_data [OF wf that] by simp
  let ?nd = "\<lparr>n_value = None, n_match = None, n_id = - 1, n_next = None, n_prev = None\<rparr>"
  let ?e = "if 2 * n = 0 then None else Some (2 * n - 1)"
  have w: "dll (with_head h ?e) (chain (Suc (2 * n)))" "same_data (h @ [?nd]) (with_head h ?e)"
    using push_front [OF h(3,2), of ?nd] h(2) by (simp_all add: with_head_def)
  have "rest es {} = chain (2 * n)" using len by (simp add: rest_def)
  then have "list_ok es n ra (with_head h ?e) {}"
    using w same_data_node [OF w(2)] data h(2) by (auto simp: list_ok_def chain_Suc nth_append same_data_def)
  moreover have "list_length h ?e = Some (2 * n)"
    using length_loop_lseg [of h None "chain (2 * n)" 0] h(3) by (simp add: list_length_def dll_def hd_or_chain)
  ultimately show ?thesis using h(1,2) by (auto simp: makeLinkedEntries_def)
qed

lemma list_ok_lift:
  assumes wf: "wf_history es n ca ra" and ok: "list_ok es n ra h S" and r: "rest es S = pre @ ca i # post" and i: "i < n"
  shows "\<exists>h'. lift h (ca i) = Inr h' \<and> list_ok es n ra h' (insert i S) \<and> unlift h' (ca i) = Inr h"
proof -
  obtain mid zs where mz: "post = mid @ ra i # zs" "rest es (insert i S) = pre @ mid @ zs"
    using rest_insert [OF wf r i] .
  obtain xs p where xp: "2 * n # pre = xs @ [p]" by (metis append_butlast_last_id list.discI)
  have eq: "2 * n # rest es S = xs @ p # ca i # mid @ ra i # zs"
    unfolding r mz(1) using xp by (metis append_Cons append_Nil append_assoc)
  have d: "dll h (xs @ p # ca i # mid @ ra i # zs)" using ok unfolding list_ok_def eq by blast
  note ca = wf_historyD [OF wf i]
  have m: "n_match (h ! ca i) = Some (ra i)" using list_ok_node(3) [OF ok ca(1)] ca by simp
  obtain us pm where us: "xs @ p # mid = us @ [pm]" by (metis append_butlast_last_id append_is_Nil_conv list.discI)
  note lf = lift_unlink [OF d m us]
  let ?h = "unlink (unlink h p (hd_or (mid @ ra i # zs) None)) pm (hd_or zs None)"
  have sd: "same_data h ?h" by (rule same_data_trans [OF same_data_unlink same_data_unlink])
  have "xs @ p # mid @ zs = 2 * n # rest es (insert i S)"
    unfolding mz(2) using xp by (metis append_Cons append_Nil append_assoc)
  then have "list_ok es n ra ?h (insert i S)"
    using lf(2) ok same_data_node [OF sd] sd by (auto simp: list_ok_def same_data_def)
  then show ?thesis using lf(1) unlift_lift [OF d m lf(1)] by blast
qed

end
