(* ===== verification/Porcupine_Correct.thy ===== *)
theory Porcupine_Correct
  imports Porcupine_Refine
begin

text \<open>
  The search of \<^verbatim>\<open>checkSingle\<close>: its cache is the set of the configurations it has visited, its stack a
  path of configurations.  Every iteration keeps this and comes closer to the end, so the search ends,
  without a panic, and answers whether all operations can be ordered.
\<close>

section \<open>The cache\<close>

definition st_of :: "('v, 's) Model \<Rightarrow> 'v entry list \<Rightarrow> (nat \<Rightarrow> nat) \<Rightarrow> (nat \<Rightarrow> nat) \<Rightarrow> nat \<Rightarrow> 's \<Rightarrow> 's option" where
  "st_of model es ca ra i s =
     (case Step model s (e_value (ent es (ca i))) (e_value (ent es (ra i))) of
        Inl _ \<Rightarrow> None | Inr (ok, s') \<Rightarrow> if ok then Some s' else None)"

text \<open>The model accepts the values of the history, and its equality is equality.\<close>

definition model_ok :: "('v, 's) Model \<Rightarrow> 'v entry list \<Rightarrow> nat \<Rightarrow> (nat \<Rightarrow> nat) \<Rightarrow> (nat \<Rightarrow> nat) \<Rightarrow> bool" where
  "model_ok model es n ca ra \<longleftrightarrow>
     (\<forall>i<n. \<forall>s. \<exists>r. Step model s (e_value (ent es (ca i))) (e_value (ent es (ra i))) = Inr r) \<and>
     (\<forall>s t. equal_states model s t = Inr (s = t))"

definition cache_rel :: "nat \<Rightarrow> 's cache \<Rightarrow> (nat set \<times> 's) set \<Rightarrow> bool" where
  "cache_rel m cache C \<longleftrightarrow>
     (\<forall>h x. x \<in> set (bucket cache h) \<longrightarrow> bs_hash (linearized x) = h \<and> length (linearized x) = m) \<and>
     C = {(bs_elems (linearized x), c_state x) | x h. x \<in> set (bucket cache h)}"

lemma contains_loop_iff:
  assumes "\<And>s t. equal_states model s t = Inr (s = t)"
  shows "contains_loop model xs y = Inr (\<exists>x\<in>set xs. linearized x = linearized y \<and> c_state x = c_state y)"
  by (induction xs) (auto simp: assms bs_equals_eq)

lemma cacheContains_iff:
  assumes "\<And>s t. equal_states model s t = Inr (s = t)" "cache_rel m cache C" "length b = m"
  shows "cacheContains model cache \<lparr>linearized = b, c_state = s\<rparr> = Inr ((bs_elems b, s) \<in> C)"
proof -
  have "(\<exists>x\<in>set (bucket cache (bs_hash b)). linearized x = b \<and> c_state x = s) \<longleftrightarrow> (bs_elems b, s) \<in> C"
  proof
    assume "(bs_elems b, s) \<in> C"
    then obtain x h where x: "x \<in> set (bucket cache h)" "bs_elems (linearized x) = bs_elems b" "c_state x = s"
      using assms(2) by (auto simp: cache_rel_def)
    then have "length (linearized x) = length b" "bs_hash (linearized x) = h" using assms(2,3) by (auto simp: cache_rel_def)
    then have "linearized x = b" using bs_elems_inj x(2) by blast
    then show "\<exists>x\<in>set (bucket cache (bs_hash b)). linearized x = b \<and> c_state x = s"
      using x \<open>bs_hash (linearized x) = h\<close> by auto
  qed (use assms(2) in \<open>auto simp: cache_rel_def\<close>)
  then show ?thesis by (simp add: cacheContains_def contains_loop_iff [OF assms(1)])
qed

lemma cache_rel_add:
  assumes "cache_rel m cache C" "length b = m"
  shows "cache_rel m (al_put (bs_hash b) (bucket cache (bs_hash b) @ [\<lparr>linearized = b, c_state = s\<rparr>]) cache) (insert (bs_elems b, s) C)"
proof -
  let ?c = "al_put (bs_hash b) (bucket cache (bs_hash b) @ [\<lparr>linearized = b, c_state = s\<rparr>]) cache"
  have b: "bucket ?c h = (if h = bs_hash b then bucket cache h @ [\<lparr>linearized = b, c_state = s\<rparr>] else bucket cache h)" for h
    by (simp add: bucket_def)
  have m: "x \<in> set (bucket ?c h) \<longleftrightarrow> x \<in> set (bucket cache h) \<or> h = bs_hash b \<and> x = \<lparr>linearized = b, c_state = s\<rparr>" for x h
    unfolding b by auto
  have old: "\<And>h x. x \<in> set (bucket cache h) \<Longrightarrow> bs_hash (linearized x) = h \<and> length (linearized x) = m"
    and C: "C = {(bs_elems (linearized x), c_state x) | x h. x \<in> set (bucket cache h)}"
    using assms(1) unfolding cache_rel_def by blast+
  have "insert (bs_elems b, s) C = {(bs_elems (linearized x), c_state x) | x h.
      x \<in> set (bucket cache h) \<or> h = bs_hash b \<and> x = \<lparr>linearized = b, c_state = s\<rparr>}" (is "_ = ?R")
  proof -
    have "?R = C \<union> {(bs_elems (linearized x), c_state x) | x h. h = bs_hash b \<and> x = \<lparr>linearized = b, c_state = s\<rparr>}"
      unfolding C by blast
    then show ?thesis by simp
  qed
  then show ?thesis unfolding cache_rel_def m using old assms(2) by auto
qed

section \<open>The stack\<close>

definition front_explored ::
  "('v, 's) Model \<Rightarrow> 'v entry list \<Rightarrow> nat \<Rightarrow> (nat \<Rightarrow> nat) \<Rightarrow> (nat \<Rightarrow> nat) \<Rightarrow> (nat set \<times> 's) set \<Rightarrow> nat set \<Rightarrow> 's \<Rightarrow> nat list \<Rightarrow> bool" where
  "front_explored model es n ca ra C S s pre \<longleftrightarrow>
     (\<forall>j<n. ca j \<in> set pre \<longrightarrow> (\<forall>s'. st_of model es ca ra j s = Some s' \<longrightarrow> (insert j S, s') \<in> C))"

text \<open>
  A stack of calls: \<open>S\<close> and \<open>s\<close> are the operations and the state it leads to, \<open>h\<close> the heap after all
  its calls were taken out, \<open>K\<close> the configurations along the path.  For every call, the candidates
  before it have been explored.
\<close>

inductive stk for model :: "('v, 's) Model" and es n ca ra H C where
  stk_nil: "stk model es n ca ra H C [] {} (Init model) H {({}, Init model)}"
| stk_snoc: "stk model es n ca ra H C cs S s h K \<Longrightarrow> rest es S = pre @ ca i # post \<Longrightarrow> only_calls es pre \<Longrightarrow> i < n \<Longrightarrow>
    st_of model es ca ra i s = Some s' \<Longrightarrow> front_explored model es n ca ra C S s pre \<Longrightarrow> (insert i S, s') \<in> C \<Longrightarrow>
    lift h (ca i) = Inr h' \<Longrightarrow> stk model es n ca ra H C (cs @ [(ca i, s)]) (insert i S) s' h' (insert (insert i S, s') K)"

lemma stk_mono: "stk model es n ca ra H C cs S s h K \<Longrightarrow> C \<subseteq> C' \<Longrightarrow> stk model es n ca ra H C' cs S s h K"
proof (induction rule: stk.induct)
  case (stk_snoc cs S s h K pre i post s' h')
  then show ?case by (intro stk.stk_snoc) (auto simp: front_explored_def)
qed (rule stk.stk_nil)

lemma stk_facts:
  assumes wf: "wf_history es n ca ra" and start: "list_ok es n ra H {}"
  shows "stk model es n ca ra H C cs S s h K \<Longrightarrow>
    S \<subseteq> {..<n} \<and> list_ok es n ra h S \<and> (S, s) \<in> reachable n (rb_of ca ra) (st_of model es ca ra) (Init model) \<and>
    (\<forall>(e, t)\<in>set cs. \<exists>j<n. e = ca j) \<and> K \<subseteq> insert ({}, Init model) C"
proof (induction rule: stk.induct)
  case stk_nil
  then show ?case using start by (simp add: reachable_init)
next
  case (stk_snoc cs S s h K pre i post s' h')
  have "list_ok es n ra h' (insert i S)"
    using list_ok_lift [OF wf _ stk_snoc.hyps(2,4), of h] stk_snoc by auto
  moreover have "cand n (rb_of ca ra) S i" using cand_front [OF wf stk_snoc.hyps(2-4)] .
  ultimately show ?case using stk_snoc reachable_step by fastforce
qed

lemma stk_path:
  assumes wf: "wf_history es n ca ra"
  shows "stk model es n ca ra H C cs S s h K \<Longrightarrow>
    \<exists>xs. legal n (rb_of ca ra) (st_of model es ca ra) {} (Init model) xs \<and>
      exec_seq (st_of model es ca ra) (Init model) xs = Some s \<and> S = set xs \<and> map fst cs = map ca xs"
proof (induction rule: stk.induct)
  case stk_nil
  show ?case by (rule exI [of _ "[]"]) simp
next
  case (stk_snoc cs S s h K pre i post s' h')
  then obtain xs where x: "legal n (rb_of ca ra) (st_of model es ca ra) {} (Init model) xs"
    "exec_seq (st_of model es ca ra) (Init model) xs = Some s" "S = set xs" "map fst cs = map ca xs" by blast
  have "cand n (rb_of ca ra) (set xs) i" using cand_front [OF wf stk_snoc.hyps(2-4)] x(3) by simp
  then show ?case using x stk_snoc.hyps(5) by (intro exI [of _ "xs @ [i]"]) (simp add: legal_append exec_append)
qed

lemma stk_snocE:
  assumes "stk model es n ca ra H C (cs @ [(e, s)]) S' s' h' K'"
  obtains i S h K pre post where "e = ca i" "S' = insert i S" "K' = insert (insert i S, s') K"
    "stk model es n ca ra H C cs S s h K" "rest es S = pre @ ca i # post" "only_calls es pre" "i < n"
    "front_explored model es n ca ra C S s pre" "(insert i S, s') \<in> C" "lift h (ca i) = Inr h'"
    "st_of model es ca ra i s = Some s'"
  using assms by (cases rule: stk.cases) auto

lemma stk_NilE:
  assumes "stk model es n ca ra H C [] S s h K"
  shows "S = {}" "s = Init model" "h = H" "K = {({}, Init model)}"
  using assms by (cases rule: stk.cases; simp)+

section \<open>The loop invariant\<close>

abbreviation space_of where
  "space_of model es n ca ra \<equiv> reachable n (rb_of ca ra) (st_of model es ca ra) (Init model)"

abbreviation explored_of where
  "explored_of model es n ca ra \<equiv> explored n (rb_of ca ra) (st_of model es ca ra)"

text \<open>Every partial linearization that the search keeps is a legal order of some operations.\<close>

definition partial_order :: "('v, 's) Model \<Rightarrow> 'v entry list \<Rightarrow> nat \<Rightarrow> (nat \<Rightarrow> nat) \<Rightarrow> (nat \<Rightarrow> nat) \<Rightarrow> int list \<Rightarrow> bool" where
  "partial_order model es n ca ra q \<longleftrightarrow>
     (\<exists>xs. legal n (rb_of ca ra) (st_of model es ca ra) {} (Init model) xs \<and> q = map int xs)"

definition longest_ok :: "('v, 's) Model \<Rightarrow> 'v entry list \<Rightarrow> nat \<Rightarrow> (nat \<Rightarrow> nat) \<Rightarrow> (nat \<Rightarrow> nat) \<Rightarrow> seq_ptr option list \<Rightarrow> bool" where
  "longest_ok model es n ca ra l \<longleftrightarrow> length l = n \<and> (\<forall>a q. Some (a, q) \<in> set l \<longrightarrow> partial_order model es n ca ra q)"

text \<open>
  The visited configurations are \<open>C\<close>; the current one is \<open>S\<close> with the state of the search, the
  configurations of its path are \<open>K\<close>.  The entry to look at is \<open>e\<close>, with only calls before it in the list,
  and these have been explored.  A visited configuration off the path has been explored completely.
\<close>

definition searching ::
  "('v, 's) Model \<Rightarrow> 'v entry list \<Rightarrow> nat \<Rightarrow> (nat \<Rightarrow> nat) \<Rightarrow> (nat \<Rightarrow> nat) \<Rightarrow> 'v heap \<Rightarrow> ('v, 's) search \<Rightarrow>
   (nat set \<times> 's) set \<Rightarrow> nat set \<Rightarrow> (nat set \<times> 's) set \<Rightarrow> nat list \<Rightarrow> nat \<Rightarrow> nat list \<Rightarrow> bool" where
  "searching model es n ca ra H k C S K pre e post \<longleftrightarrow>
     stk model es n ca ra H C (k_calls k) S (k_state k) (k_heap k) K \<and>
     bs_elems (k_linearized k) = S \<and> length (k_linearized k) = length (newBitset n) \<and>
     cache_rel (length (newBitset n)) (k_cache k) C \<and> longest_ok model es n ca ra (k_longest k) \<and>
     C \<subseteq> space_of model es n ca ra \<and> (\<forall>T t. (T, t) \<in> C \<longrightarrow> T \<noteq> {..<n}) \<and>
     (\<forall>T t. (T, t) \<in> C \<longrightarrow> (T, t) \<notin> K \<longrightarrow> explored_of model es n ca ra C T t) \<and>
     k_entry k = Some e \<and> rest es S = pre @ e # post \<and> only_calls es pre \<and>
     front_explored model es n ca ra C S (k_state k) pre"

definition search_order :: "('v, 's) Model \<Rightarrow> 'v entry list \<Rightarrow> nat \<Rightarrow> (nat \<Rightarrow> nat) \<Rightarrow> (nat \<Rightarrow> nat) \<Rightarrow> nat list \<Rightarrow> bool" where
  "search_order model es n ca ra xs \<longleftrightarrow>
     legal n (rb_of ca ra) (st_of model es ca ra) {} (Init model) xs \<and> set xs = {..<n}"

lemma list_ok_next:
  assumes "list_ok es n ra h S"
  shows "n_next (h ! (2 * n)) = hd_or (rest es S) None"
    "rest es S = pre @ e # post \<Longrightarrow> n_next (h ! e) = hd_or post None"
  using assms by (auto simp: list_ok_def dll_def lseg_append hd_or_append)

lemma rest_empty:
  assumes "wf_history es n ca ra" "S \<subseteq> {..<n}"
  shows "rest es S = [] \<longleftrightarrow> S = {..<n}"
proof -
  have "rest es S = [] \<longleftrightarrow> set (rest es S) = {}" by simp
  also have "\<dots> \<longleftrightarrow> S = {..<n}" unfolding set_rest [OF assms(1)] using assms(2) by auto
  finally show ?thesis .
qed

lemma post_nonempty:
  assumes "wf_history es n ca ra" "rest es S = pre @ ca i # post" "i < n"
  obtains e post' where "post = e # post'"
  using rest_insert [OF assms] by (metis append_Cons append_Nil neq_Nil_conv)

lemma front_explored_mono:
  "front_explored model es n ca ra C S s pre \<Longrightarrow> C \<subseteq> C' \<Longrightarrow> front_explored model es n ca ra C' S s pre"
  by (auto simp: front_explored_def)

lemma front_explored_snoc:
  assumes "wf_history es n ca ra" "i < n" "front_explored model es n ca ra C S s pre"
    "\<And>s'. st_of model es ca ra i s = Some s' \<Longrightarrow> (insert i S, s') \<in> C"
  shows "front_explored model es n ca ra C S s (pre @ [ca i])"
  using assms call_return_distinct(2) [OF assms(1)] by (auto simp: front_explored_def)

lemma explored_at_return:
  assumes "wf_history es n ca ra" "rest es S = pre @ e # post" "e_kind (ent es e)" "front_explored model es n ca ra C S s pre"
  shows "explored_of model es n ca ra C S s"
  using assms(4) cand_before_return [OF assms(1-3)] by (auto simp: explored_def front_explored_def cand_def)

lemma longest_loop_ok:
  "\<forall>(e, s)\<in>set calls. 0 \<le> n_id (h ! e) \<and> nat (n_id (h ! e)) < length longest \<Longrightarrow>
   \<exists>l'. longest_loop h seq calls longest = Inr l' \<and> length l' = length longest \<and> set l' \<subseteq> insert (Some seq) (set longest)"
proof (induction calls arbitrary: longest)
  case Nil
  show ?case by auto
next
  case (Cons c calls)
  obtain e s where c: "c = (e, s)" by (cases c)
  have r: "in_range longest (n_id (h ! e))" using Cons.prems c by (auto simp: in_range_def nat_less_iff)
  have "\<exists>l'. longest_loop h seq calls (longest[nat (n_id (h ! e)) := Some seq]) = Inr l' \<and> length l' = length longest \<and>
      set l' \<subseteq> insert (Some seq) (set longest)"
    using Cons.IH [of "longest[nat (n_id (h ! e)) := Some seq]"] Cons.prems set_update_subset_insert [of longest _ "Some seq"] by fastforce
  moreover have "\<exists>l'. longest_loop h seq calls longest = Inr l' \<and> length l' = length longest \<and> set l' \<subseteq> insert (Some seq) (set longest)"
    using Cons.IH [of longest] Cons.prems by auto
  ultimately show ?case using r unfolding c by (auto simp: go_simps split: option.splits)
qed

lemma call_node_id:
  assumes "wf_history es n ca ra" "list_ok es n ra h S" "i < n"
  shows "n_id (h ! ca i) = int i"
  using list_ok_node(2) [OF assms(2) wf_historyD(1) [OF assms(1,3)]] wf_historyD(4) [OF assms(1,3)] by simp

lemma calls_ids_ok:
  assumes wf: "wf_history es n ca ra" and start: "list_ok es n ra H {}"
    and s: "stk model es n ca ra H C cs S s h K"
  shows "\<forall>(e, t)\<in>set cs. 0 \<le> n_id (h ! e) \<and> nat (n_id (h ! e)) < n"
proof -
  have ok: "list_ok es n ra h S" "\<forall>(e, t)\<in>set cs. \<exists>j<n. e = ca j"
    using stk_facts [OF wf start s] by blast+
  then show ?thesis using call_node_id [OF wf ok(1)] by fastforce
qed

lemma call_ids_path:
  assumes wf: "wf_history es n ca ra" and start: "list_ok es n ra H {}"
    and s: "stk model es n ca ra H C cs S s h K"
  obtains xs where "legal n (rb_of ca ra) (st_of model es ca ra) {} (Init model) xs" "S = set xs" "call_ids h cs = map int xs"
proof -
  obtain xs where x: "legal n (rb_of ca ra) (st_of model es ca ra) {} (Init model) xs" "S = set xs" "map fst cs = map ca xs"
    using stk_path [OF wf s] by blast
  have ok: "list_ok es n ra h S" using stk_facts [OF wf start s] by blast
  have "call_ids h cs = map (\<lambda>e. n_id (h ! e)) (map fst cs)" by (simp add: call_ids_def case_prod_beta)
  also have "\<dots> = map int xs"
    unfolding x(3) using legal_distinct [OF x(1)] call_node_id [OF wf ok] by auto
  finally show thesis using that x by blast
qed

section \<open>One iteration\<close>

text \<open>An iteration finds the list empty next, or searches on.  The measure counts what is left to visit.\<close>

definition search_done :: "('v, 's) Model \<Rightarrow> 'v entry list \<Rightarrow> nat \<Rightarrow> (nat \<Rightarrow> nat) \<Rightarrow> (nat \<Rightarrow> nat) \<Rightarrow> ('v, 's) search \<Rightarrow> bool" where
  "search_done model es n ca ra k \<longleftrightarrow>
     n_next (k_heap k ! (2 * n)) = None \<and>
     (\<exists>xs. search_order model es n ca ra xs \<and> call_ids (k_heap k) (k_calls k) = map int xs)"

definition search_left :: "('v, 's) Model \<Rightarrow> 'v entry list \<Rightarrow> nat \<Rightarrow> (nat \<Rightarrow> nat) \<Rightarrow> (nat \<Rightarrow> nat) \<Rightarrow> (nat set \<times> 's) set \<Rightarrow> nat" where
  "search_left model es n ca ra C = card (space_of model es n ca ra - C)"

definition search_on ::
  "('v, 's) Model \<Rightarrow> 'v entry list \<Rightarrow> nat \<Rightarrow> (nat \<Rightarrow> nat) \<Rightarrow> (nat \<Rightarrow> nat) \<Rightarrow> 'v heap \<Rightarrow> nat \<times> nat \<times> nat \<Rightarrow> ('v, 's) search \<Rightarrow> bool" where
  "search_on model es n ca ra H m k \<longleftrightarrow>
     (\<exists>C S K pre e post. searching model es n ca ra H k C S K pre e post \<and>
        m = (search_left model es n ca ra C, length (k_calls k), length post))"

lemma model_okD:
  assumes "model_ok model es n ca ra"
  shows "i < n \<Longrightarrow> \<exists>ok s'. Step model s (e_value (ent es (ca i))) (e_value (ent es (ra i))) = Inr (ok, s') \<and>
      st_of model es ca ra i s = (if ok then Some s' else None)"
    "equal_states model s t = Inr (s = t)"
proof -
  show "\<exists>ok s'. Step model s (e_value (ent es (ca i))) (e_value (ent es (ra i))) = Inr (ok, s') \<and>
      st_of model es ca ra i s = (if ok then Some s' else None)" if i: "i < n"
  proof -
    obtain r where "Step model s (e_value (ent es (ca i))) (e_value (ent es (ra i))) = Inr r"
      using assms i unfolding model_ok_def by blast
    then show ?thesis by (cases r) (simp add: st_of_def)
  qed
  show "equal_states model s t = Inr (s = t)" using assms unfolding model_ok_def by blast
qed

lemma searchingD:
  assumes "searching model es n ca ra H k C S K pre e post"
  shows "stk model es n ca ra H C (k_calls k) S (k_state k) (k_heap k) K"
    "bs_elems (k_linearized k) = S" "length (k_linearized k) = length (newBitset n)"
    "cache_rel (length (newBitset n)) (k_cache k) C" "longest_ok model es n ca ra (k_longest k)"
    "C \<subseteq> space_of model es n ca ra" "\<And>T t. (T, t) \<in> C \<Longrightarrow> T \<noteq> {..<n}"
    "\<And>T t. (T, t) \<in> C \<Longrightarrow> (T, t) \<notin> K \<Longrightarrow> explored_of model es n ca ra C T t"
    "k_entry k = Some e" "rest es S = pre @ e # post" "only_calls es pre"
    "front_explored model es n ca ra C S (k_state k) pre"
  using assms unfolding searching_def by blast+

lemma searching_call:
  assumes wf: "wf_history es n ca ra" and start: "list_ok es n ra H {}" and m: "model_ok model es n ca ra"
    and inv: "searching model es n ca ra H k C S K pre (ca i) post" and i: "i < n"
  obtains ok s' where "Step model (k_state k) (e_value (ent es (ca i))) (e_value (ent es (ra i))) = Inr (ok, s')"
    "st_of model es ca ra i (k_state k) = (if ok then Some s' else None)"
    "interface_value (k_heap k ! ca i) = Inr (e_value (ent es (ca i)))"
    "interface_value (k_heap k ! ra i) = Inr (e_value (ent es (ra i)))"
    "n_id (k_heap k ! ca i) = int i" "n_match (k_heap k ! ca i) = Some (ra i)"
    "n_next (k_heap k ! ca i) = hd_or post None" "list_ok es n ra (k_heap k) S"
proof -
  have ok: "list_ok es n ra (k_heap k) S" using stk_facts [OF wf start searchingD(1) [OF inv]] by blast
  note r = searchingD(10) [OF inv]
  note d = wf_historyD [OF wf i]
  have ra: "ra i < 2 * n" using d(1,2) by simp
  show thesis
    using model_okD(1) [OF m i, of "k_state k"] that list_ok_node [OF ok d(1)] list_ok_node(1) [OF ok ra] d
      list_ok_next(2) [OF ok r] ok by (auto simp: interface_value_def)
qed

lemma searching_advance:
  assumes wf: "wf_history es n ca ra" and inv: "searching model es n ca ra H k C S K pre (ca i) post" and i: "i < n"
    and seen: "\<And>s'. st_of model es ca ra i (k_state k) = Some s' \<Longrightarrow> (insert i S, s') \<in> C"
  shows "\<exists>m. search_on model es n ca ra H m (k\<lparr>k_entry := hd_or post None\<rparr>) \<and>
    (m, search_left model es n ca ra C, length (k_calls k), length post) \<in> less_than <*lex*> less_than <*lex*> less_than"
proof -
  note inv' = searchingD [OF inv]
  note r = inv'(10)
  obtain e post' where p: "post = e # post'" using post_nonempty [OF wf r i] .
  have "front_explored model es n ca ra C S (k_state k) (pre @ [ca i])"
    using front_explored_snoc [OF wf i inv'(12) seen] .
  moreover have "only_calls es (pre @ [ca i])"
    using inv'(11) wf_historyD(3) [OF wf i] by (simp add: only_calls_def)
  ultimately have "searching model es n ca ra H (k\<lparr>k_entry := hd_or post None\<rparr>) C S K (pre @ [ca i]) e post'"
    unfolding searching_def using inv' p by simp
  then show ?thesis unfolding search_on_def using p by fastforce
qed

lemma visit_less: "c \<in> space_of model es n ca ra \<Longrightarrow> c \<notin> C \<Longrightarrow>
  search_left model es n ca ra (insert c C) < search_left model es n ca ra C"
  unfolding search_left_def by (rule psubset_card_mono) (auto simp: reachable_finite)

text \<open>Taking a call out of the list leads to a new configuration.\<close>

lemma stk_push:
  assumes wf: "wf_history es n ca ra" and start: "list_ok es n ra H {}"
    and inv: "searching model es n ca ra H k C S K pre (ca i) post" and i: "i < n"
    and st: "st_of model es ca ra i (k_state k) = Some s'"
  obtains h' where "lift (k_heap k) (ca i) = Inr h'" "list_ok es n ra h' (insert i S)"
    "stk model es n ca ra H (insert (insert i S, s') C) (k_calls k @ [(ca i, k_state k)]) (insert i S) s' h' (insert (insert i S, s') K)"
    "insert i S \<subseteq> {..<n}" "(insert i S, s') \<in> space_of model es n ca ra"
proof -
  note inv' = searchingD [OF inv]
  have f: "S \<subseteq> {..<n}" "list_ok es n ra (k_heap k) S" "(S, k_state k) \<in> space_of model es n ca ra"
    using stk_facts [OF wf start inv'(1)] by blast+
  obtain h' where h: "lift (k_heap k) (ca i) = Inr h'" "list_ok es n ra h' (insert i S)"
    using list_ok_lift [OF wf f(2) inv'(10) i] by blast
  have "stk model es n ca ra H (insert (insert i S, s') C) (k_calls k @ [(ca i, k_state k)]) (insert i S) s' h' (insert (insert i S, s') K)"
    using stk_mono [OF inv'(1) subset_insertI] inv'(10,11) i st front_explored_mono [OF inv'(12) subset_insertI] insertI1 h(1)
    by (rule stk_snoc)
  moreover have "(insert i S, s') \<in> space_of model es n ca ra"
    using reachable_step [OF f(3) cand_front [OF wf inv'(10,11) i] st] .
  ultimately show thesis using that h f(1) i by blast
qed

lemma searching_push:
  assumes wf: "wf_history es n ca ra" and start: "list_ok es n ra H {}"
    and inv: "searching model es n ca ra H k C S K pre (ca i) post" and i: "i < n"
    and st: "st_of model es ca ra i (k_state k) = Some s'" and new: "(insert i S, s') \<notin> C"
    and lin: "bs_elems lin' = insert i S" "length lin' = length (newBitset n)"
    and k': "lift (k_heap k) (ca i) = Inr h'"
      "k' = k\<lparr>k_cache := al_put (bs_hash lin') (bucket (k_cache k) (bs_hash lin') @ [\<lparr>linearized = lin', c_state = s'\<rparr>]) (k_cache k),
        k_calls := k_calls k @ [(ca i, k_state k)], k_state := s', k_linearized := lin', k_heap := h', k_entry := n_next (h' ! (2 * n))\<rparr>"
  shows "search_done model es n ca ra k' \<or>
    (\<exists>m. search_on model es n ca ra H m k' \<and>
       (m, search_left model es n ca ra C, length (k_calls k), length post) \<in> less_than <*lex*> less_than <*lex*> less_than)"
proof -
  note inv' = searchingD [OF inv]
  let ?C = "insert (insert i S, s') C"
  obtain h where "lift (k_heap k) (ca i) = Inr h" "list_ok es n ra h (insert i S)"
    "stk model es n ca ra H ?C (k_calls k @ [(ca i, k_state k)]) (insert i S) s' h (insert (insert i S, s') K)"
    and sub: "insert i S \<subseteq> {..<n}" "(insert i S, s') \<in> space_of model es n ca ra"
    using stk_push [OF wf start inv i st] .
  then have h: "list_ok es n ra h' (insert i S)"
    "stk model es n ca ra H ?C (k_calls k @ [(ca i, k_state k)]) (insert i S) s' h' (insert (insert i S, s') K)"
    using k'(1) by simp_all
  note nx = list_ok_next(1) [OF h(1)]
  show ?thesis
  proof (cases "rest es (insert i S)")
    case Nil
    then have "insert i S = {..<n}" using rest_empty [OF wf sub(1)] by simp
    then obtain xs where "search_order model es n ca ra xs"
        "call_ids h' (k_calls k @ [(ca i, k_state k)]) = map int xs"
      using call_ids_path [OF wf start h(2)] by (metis search_order_def)
    then have "search_done model es n ca ra k'" using nx Nil k'(2) by (auto simp: search_done_def)
    then show ?thesis ..
  next
    case (Cons e post')
    have ne: "T \<noteq> {..<n}" if "(T, t) \<in> ?C" for T t
      using that inv'(7) rest_empty [OF wf sub(1)] Cons by auto
    have ex: "explored_of model es n ca ra ?C T t" if "(T, t) \<in> ?C" "(T, t) \<notin> insert (insert i S, s') K" for T t
      by (rule explored_mono [OF inv'(8) subset_insertI]) (use that in auto)
    have "cache_rel (length (newBitset n)) (k_cache k') ?C"
      using cache_rel_add [OF inv'(4) lin(2), of s'] unfolding lin(1) k'(2) by simp
    then have "searching model es n ca ra H k' ?C (insert i S) (insert (insert i S, s') K) [] e post'"
      using h(2) lin inv'(5,6) sub(2) ne ex Cons nx unfolding searching_def k'(2)
      by (simp add: only_calls_def front_explored_def)
    then show ?thesis
      using visit_less [OF sub(2) new] unfolding search_on_def by fastforce
  qed
qed

lemma searching_visit:
  assumes wf: "wf_history es n ca ra" and start: "list_ok es n ra H {}" and m: "model_ok model es n ca ra"
    and inv: "searching model es n ca ra H k C S K pre (ca i) post" and i: "i < n"
  shows "\<exists>k'. visit_call (2 * n) model k (ca i) (ra i) = Inr k' \<and>
    (search_done model es n ca ra k' \<or>
     (\<exists>w. search_on model es n ca ra H w k' \<and>
        (w, search_left model es n ca ra C, length (k_calls k), length post) \<in> less_than <*lex*> less_than <*lex*> less_than))"
proof -
  note inv' = searchingD [OF inv]
  obtain ok s' where c: "Step model (k_state k) (e_value (ent es (ca i))) (e_value (ent es (ra i))) = Inr (ok, s')"
    "st_of model es ca ra i (k_state k) = (if ok then Some s' else None)"
    "interface_value (k_heap k ! ca i) = Inr (e_value (ent es (ca i)))"
    "interface_value (k_heap k ! ra i) = Inr (e_value (ent es (ra i)))"
    "n_id (k_heap k ! ca i) = int i" "n_match (k_heap k ! ca i) = Some (ra i)"
    "n_next (k_heap k ! ca i) = hd_or post None" "list_ok es n ra (k_heap k) S"
    using searching_call [OF wf start m inv i] .
  have "i < 64 * length (k_linearized k)" using newBitset_cap(1) [of n] i inv'(3) by simp
  then obtain lin' where lin: "bs_set (k_linearized k) i = Inr lin'" "bs_elems lin' = insert i S"
      "length lin' = length (newBitset n)"
    using bs.ins_ok [of i "k_linearized k"] inv'(2,3) by auto
  have found: "cacheContains model (k_cache k) \<lparr>linearized = lin', c_state = s'\<rparr> = Inr ((insert i S, s') \<in> C)"
    using cacheContains_iff [OF model_okD(2) [OF m] inv'(4) lin(3)] lin(2) by simp
  obtain h' where h: "lift (k_heap k) (ca i) = Inr h'" using list_ok_lift [OF wf c(8) inv'(10) i] by blast
  show ?thesis
  proof (cases "ok \<and> (insert i S, s') \<notin> C")
    case True
    then have "st_of model es ca ra i (k_state k) = Some s'" "(insert i S, s') \<notin> C" using c(2) by auto
    from searching_push [OF wf start inv i this lin(2,3) h refl] show ?thesis
      using True c lin(1) found h by (simp add: visit_call_def clone_def Let_def)
  next
    case False
    then have "visit_call (2 * n) model k (ca i) (ra i) = Inr (k\<lparr>k_entry := hd_or post None\<rparr>)"
      using c lin(1) found by (auto simp: visit_call_def clone_def Let_def)
    moreover have "\<And>t. st_of model es ca ra i (k_state k) = Some t \<Longrightarrow> (insert i S, t) \<in> C"
      using False c(2) by (auto split: if_splits)
    ultimately show ?thesis using searching_advance [OF wf inv i] by auto
  qed
qed

text \<open>At a return entry the top configuration has been explored: the last call goes back into the list.\<close>

lemma stk_pop:
  assumes wf: "wf_history es n ca ra" and start: "list_ok es n ra H {}"
    and s: "stk model es n ca ra H C (cs @ [(e, s)]) S' s' h' K'"
  obtains i S h K pre post where "e = ca i" "i < n" "S' = insert i S" "i \<notin> S" "K' = insert (insert i S, s') K"
    "stk model es n ca ra H C cs S s h K" "rest es S = pre @ ca i # post" "only_calls es pre"
    "front_explored model es n ca ra C S s pre" "(insert i S, s') \<in> C" "unlift h' (ca i) = Inr h"
    "n_next (h ! ca i) = hd_or post None" "n_id (h' ! ca i) = int i" "st_of model es ca ra i s = Some s'"
proof -
  from s obtain i S h K pre post where p: "e = ca i" "S' = insert i S" "K' = insert (insert i S, s') K"
    "stk model es n ca ra H C cs S s h K" "rest es S = pre @ ca i # post" "only_calls es pre" "i < n"
    "front_explored model es n ca ra C S s pre" "(insert i S, s') \<in> C" "lift h (ca i) = Inr h'"
    "st_of model es ca ra i s = Some s'"
    by (rule stk_snocE)
  have ok: "list_ok es n ra h S" using stk_facts [OF wf start p(4)] by blast
  have ok': "list_ok es n ra h' S'" using stk_facts [OF wf start s] by blast
  have "unlift h' (ca i) = Inr h" using list_ok_lift [OF wf ok p(5,7)] p(10) by auto
  moreover have "i \<notin> S" using cand_front [OF wf p(5,6,7)] by (simp add: cand_def)
  moreover have "n_id (h' ! ca i) = int i" using call_node_id [OF wf ok' p(7)] .
  ultimately show thesis using that p list_ok_next(2) [OF ok p(5)] by blast
qed

lemma longest_kept:
  assumes wf: "wf_history es n ca ra" and start: "list_ok es n ra H {}"
    and inv: "searching model es n ca ra H k C S K pre e post"
  shows "\<exists>l. longest_loop (k_heap k) (a, call_ids (k_heap k) (k_calls k)) (k_calls k) (k_longest k) = Inr l \<and> longest_ok model es n ca ra l"
proof -
  note inv' = searchingD [OF inv]
  have len: "length (k_longest k) = n" using inv'(5) by (simp add: longest_ok_def)
  obtain l where l: "longest_loop (k_heap k) (a, call_ids (k_heap k) (k_calls k)) (k_calls k) (k_longest k) = Inr l"
    "length l = n" "set l \<subseteq> insert (Some (a, call_ids (k_heap k) (k_calls k))) (set (k_longest k))"
    using longest_loop_ok [of "k_calls k" "k_heap k" "k_longest k" "(a, call_ids (k_heap k) (k_calls k))"]
      calls_ids_ok [OF wf start inv'(1)] len by auto
  have "partial_order model es n ca ra (call_ids (k_heap k) (k_calls k))"
    using call_ids_path [OF wf start inv'(1)] unfolding partial_order_def by metis
  then have "longest_ok model es n ca ra l" using l(2,3) inv'(5) unfolding longest_ok_def by blast
  then show ?thesis using l(1) by blast
qed

lemma searching_pop:
  assumes wf: "wf_history es n ca ra" and start: "list_ok es n ra H {}"
    and inv: "searching model es n ca ra H k C S K pre e post" and e: "e_kind (ent es e)" and c: "k_calls k \<noteq> []"
  shows "\<exists>m k'. backtrack computePartial k = Inr k' \<and> search_on model es n ca ra H m k' \<and>
    (m, search_left model es n ca ra C, length (k_calls k), length post) \<in> less_than <*lex*> less_than <*lex*> less_than"
proof -
  note inv' = searchingD [OF inv]
  obtain cs e0 s0 where cs: "k_calls k = cs @ [(e0, s0)]" using c by (metis append_butlast_last_id surj_pair)
  from inv'(1) have stk: "stk model es n ca ra H C (cs @ [(e0, s0)]) S (k_state k) (k_heap k) K" unfolding cs .
  obtain i S0 h K0 pre0 post0 where p: "e0 = ca i" "i < n" "S = insert i S0" "i \<notin> S0" "K = insert (insert i S0, k_state k) K0"
    "stk model es n ca ra H C cs S0 s0 h K0" "rest es S0 = pre0 @ ca i # post0" "only_calls es pre0"
    "front_explored model es n ca ra C S0 s0 pre0" "(insert i S0, k_state k) \<in> C" "unlift (k_heap k) (ca i) = Inr h"
    "n_next (h ! ca i) = hd_or post0 None" "n_id (k_heap k ! ca i) = int i" "st_of model es ca ra i s0 = Some (k_state k)"
    using stk_pop [OF wf start stk] .
  let ?seq = "(k_allocs k, call_ids (k_heap k) (k_calls k))"
  obtain l where l: "longest_loop (k_heap k) ?seq (k_calls k) (k_longest k) = Inr l" "longest_ok model es n ca ra l"
    using longest_kept [OF wf start inv] by blast
  have "i < 64 * length (k_linearized k)" using newBitset_cap(1) [of n] p(2) inv'(3) by simp
  then obtain lin' where lin: "bs_clear (k_linearized k) i = Inr lin'" "bs_elems lin' = S0"
      "length lin' = length (newBitset n)"
    using bs.del_ok [of i "k_linearized k"] inv'(2,3) p(3,4) by auto
  let ?l = "if computePartial then l else k_longest k"
  let ?k = "k\<lparr>k_longest := ?l, k_allocs := k_allocs k + 1, k_state := s0, k_linearized := lin', k_calls := cs,
    k_heap := h, k_entry := hd_or post0 None\<rparr>"
  have b: "backtrack computePartial k = Inr ?k"
    using l(1) lin(1) p(1,11,12,13) unfolding backtrack_def cs by (simp add: Let_def nat_add_distrib)
  obtain e1 post1 where e1: "post0 = e1 # post1" using post_nonempty [OF wf p(7,2)] .
  have ex: "explored_of model es n ca ra C T t" if "(T, t) \<in> C" "(T, t) \<notin> K0" for T t
    using inv'(8) [of T t] that explored_at_return [OF wf inv'(10) e inv'(12)] p(3,5) by auto
  have "front_explored model es n ca ra C S0 s0 (pre0 @ [ca i])"
    by (rule front_explored_snoc [OF wf p(2,9)]) (use p(10,14) in auto)
  moreover have "only_calls es (pre0 @ [ca i])" using p(8) wf_historyD(3) [OF wf p(2)] by (simp add: only_calls_def)
  ultimately have "searching model es n ca ra H ?k C S0 K0 (pre0 @ [ca i]) e1 post1"
    using inv'(4-7) p(6,7) lin ex e1 l(2) unfolding searching_def by simp
  then show ?thesis using b cs unfolding search_on_def by fastforce
qed

lemma search_fails:
  assumes wf: "wf_history es n ca ra" and inv: "searching model es n ca ra H k C S K pre e post"
    and e: "e_kind (ent es e)" and c: "k_calls k = []"
  shows "\<not> search_order model es n ca ra xs"
proof
  assume o: "search_order model es n ca ra xs"
  note inv' = searchingD [OF inv]
  have st: "S = {}" "k_state k = Init model" "K = {({}, Init model)}"
    using stk_NilE [OF inv'(1) [unfolded c]] by simp_all
  have e0: "explored_of model es n ca ra C {} (Init model)"
    using explored_at_return [OF wf inv'(10) e inv'(12)] unfolding st .
  have ex: "explored_of model es n ca ra C T t" if "(T, t) \<in> C" for T t
  proof (cases "(T, t) \<in> K")
    case True
    then show ?thesis using e0 unfolding st(3) by simp
  qed (rule inv'(8) [OF that])
  have l: "legal n (rb_of ca ra) (st_of model es ca ra) {} (Init model) xs" "set xs = {..<n}"
    using o unfolding search_order_def by blast+
  obtain t where t: "exec_seq (st_of model es ca ra) (Init model) xs = Some t" using legal_exec [OF l(1)] by blast
  have "rest es {} \<noteq> []" using inv'(10) unfolding st(1) by simp
  then have "xs \<noteq> []" using rest_empty [OF wf, of "{}"] l(2) by (metis empty_subsetI list.set(1))
  with e0 ex l(1) t have "(set xs, t) \<in> C" by (rule explored_closed)
  then show False using inv'(7) l(2) by blast
qed

text \<open>One iteration of the loop answers, or finds the list empty next, or searches on with a smaller measure.\<close>

lemma iteration:
  assumes wf: "wf_history es n ca ra" and start: "list_ok es n ra H {}" and m: "model_ok model es n ca ra"
    and on: "search_on model es n ca ra H w k"
  shows "(\<exists>l. check_step n (2 * n) model computePartial False k = Inr (Inr (False, l)) \<and> longest_ok model es n ca ra l \<and> (\<forall>xs. \<not> search_order model es n ca ra xs)) \<or>
    (\<exists>k'. check_step n (2 * n) model computePartial False k = Inr (Inl k') \<and>
       (search_done model es n ca ra k' \<or>
        (\<exists>w'. search_on model es n ca ra H w' k' \<and> (w', w) \<in> less_than <*lex*> less_than <*lex*> less_than)))"
proof -
  obtain C S K pre e post where inv: "searching model es n ca ra H k C S K pre e post"
    and w: "w = (search_left model es n ca ra C, length (k_calls k), length post)"
    using on by (auto simp: search_on_def)
  note inv' = searchingD [OF inv]
  have ok: "list_ok es n ra (k_heap k) S" using stk_facts [OF wf start inv'(1)] by blast
  have len: "length es = 2 * n" using wf by (simp add: wf_history_def)
  have "e \<in> set (rest es S)" using inv'(10) by simp
  then have a: "e < 2 * n" using len by (simp add: rest_def)
  have nx: "n_next (k_heap k ! (2 * n)) \<noteq> None" unfolding list_ok_next(1) [OF ok] inv'(10) by (cases pre) simp_all
  show ?thesis
  proof (cases "e_kind (ent es e)")
    case True
    then have mt: "n_match (k_heap k ! e) = None" using list_ok_node(3) [OF ok a] by simp
    show ?thesis
    proof (cases "k_calls k = []")
      case True
      then show ?thesis
        using search_fails [OF wf inv \<open>e_kind (ent es e)\<close> True] nx mt inv'(5,9) by (simp add: check_step_def)
    next
      case False
      then show ?thesis
        using searching_pop [OF wf start inv \<open>e_kind (ent es e)\<close> False, of computePartial] nx mt inv'(9) w
        by (auto simp: check_step_def)
    qed
  next
    case False
    then obtain i where i: "i < n" "e = ca i" using rest_call [OF wf \<open>e \<in> set (rest es S)\<close>] by blast
    then have "n_match (k_heap k ! e) = Some (ra i)"
      using list_ok_node(3) [OF ok a] False wf_historyD(4) [OF wf i(1)] by simp
    then show ?thesis
      using searching_visit [OF wf start m inv [unfolded i(2)] i(1)] nx inv'(9) w i(2)
      by (auto simp: check_step_def)
  qed
qed

section \<open>The search\<close>

text \<open>
  The search ends whatever the kill flag does, and a positive answer is right; without a kill a negative
  one is, too.
\<close>

definition search_answer ::
  "('v, 's) Model \<Rightarrow> 'v entry list \<Rightarrow> nat \<Rightarrow> (nat \<Rightarrow> nat) \<Rightarrow> (nat \<Rightarrow> nat) \<Rightarrow> (nat \<Rightarrow> bool) \<Rightarrow> bool \<Rightarrow> seq_ptr option list \<Rightarrow> bool" where
  "search_answer model es n ca ra kill b l \<longleftrightarrow> longest_ok model es n ca ra l \<and>
     (if b then \<exists>xs. search_order model es n ca ra xs
      else (\<exists>j. kill j) \<or> (\<forall>xs. \<not> search_order model es n ca ra xs))"

lemma check_loop_done:
  assumes "search_done model es n ca ra k"
  shows "\<exists>b l. check_loop n (2 * n) model computePartial kill j k = Some (Inr (b, l)) \<and> search_answer model es n ca ra kill b l"
proof -
  let ?l = "replicate n (Some (k_allocs k, call_ids (k_heap k) (k_calls k)))"
  obtain xs where x: "n_next (k_heap k ! (2 * n)) = None" "search_order model es n ca ra xs" "call_ids (k_heap k) (k_calls k) = map int xs"
    using assms unfolding search_done_def by blast
  have "partial_order model es n ca ra (map int xs)" using x(2) unfolding partial_order_def search_order_def by blast
  then have "longest_ok model es n ca ra ?l" by (auto simp: longest_ok_def x(3))
  then have "search_answer model es n ca ra kill True ?l" using x(2) by (auto simp: search_answer_def)
  moreover have "check_loop n (2 * n) model computePartial kill j k = Some (Inr (True, ?l))"
    using x(1) by (subst check_loop.simps) (simp add: check_step_def)
  ultimately show ?thesis by blast
qed

lemma check_loop_answers:
  assumes wf: "wf_history es n ca ra" and start: "list_ok es n ra H {}" and m: "model_ok model es n ca ra"
  shows "search_on model es n ca ra H w k \<Longrightarrow>
    \<exists>b l. check_loop n (2 * n) model computePartial kill j k = Some (Inr (b, l)) \<and> search_answer model es n ca ra kill b l"
proof (induction w arbitrary: k j rule: wf_induct_rule [OF wf_lex_prod [OF wf_less_than wf_lex_prod [OF wf_less_than wf_less_than]]])
  case (1 w)
  note it = iteration [OF wf start m "1.prems", of computePartial]
  show ?case
  proof (cases "kill j")
    case True
    have "n_next (k_heap k ! (2 * n)) \<noteq> None"
    proof
      assume "n_next (k_heap k ! (2 * n)) = None"
      then have "\<exists>l. check_step n (2 * n) model computePartial False k = Inr (Inr (True, l))" by (simp add: check_step_def)
      then show False using it by auto
    qed
    then have "check_step n (2 * n) model computePartial (kill j) k = Inr (Inr (False, k_longest k))"
      using True by (simp add: check_step_def)
    moreover have "longest_ok model es n ca ra (k_longest k)" using "1.prems" searchingD(5) by (auto simp: search_on_def)
    ultimately show ?thesis using True by (subst check_loop.simps) (auto simp: search_answer_def)
  next
    case False
    then have eq: "check_step n (2 * n) model computePartial (kill j) k = check_step n (2 * n) model computePartial False k" by simp
    from it consider (no) l where "check_step n (2 * n) model computePartial False k = Inr (Inr (False, l))"
        "longest_ok model es n ca ra l" "\<forall>xs. \<not> search_order model es n ca ra xs"
      | (last) k' where "check_step n (2 * n) model computePartial False k = Inr (Inl k')" "search_done model es n ca ra k'"
      | (on) k' w' where "check_step n (2 * n) model computePartial False k = Inr (Inl k')"
        "search_on model es n ca ra H w' k'" "(w', w) \<in> less_than <*lex*> less_than <*lex*> less_than"
      by blast
    then show ?thesis
    proof cases
      case no
      then show ?thesis by (subst check_loop.simps) (auto simp: eq search_answer_def)
    next
      case last
      then show ?thesis using check_loop_done [OF last(2)] by (subst check_loop.simps) (simp add: eq)
    next
      case on
      then show ?thesis using "1.IH" [OF on(3,2)] by (subst check_loop.simps) (simp add: eq)
    qed
  qed
qed

lemma search_on_start:
  assumes wf: "wf_history es n ca ra" and start: "list_ok es n ra (with_head h (Some (2 * n - 1))) {}" and n: "n \<noteq> 0"
  shows "\<exists>w. search_on model es n ca ra (with_head h (Some (2 * n - 1))) w (search_start model n h (Some (2 * n - 1)))"
proof -
  have "rest es {} = chain (2 * n)" using wf by (simp add: rest_def wf_history_def)
  then have r: "rest es {} = (2 * n - 1) # chain (2 * n - 1)" using n by (metis chain_Suc Suc_diff_1 mult_is_0 not_gr_zero zero_neq_numeral)
  have "searching model es n ca ra (with_head h (Some (2 * n - 1))) (search_start model n h (Some (2 * n - 1))) {} {} {({}, Init model)} []
      (2 * n - 1) (chain (2 * n - 1))"
    using r by (simp add: searching_def search_start_def stk_nil cache_rel_def bucket_def only_calls_def front_explored_def longest_ok_def)
  then show ?thesis unfolding search_on_def by blast
qed

theorem checkSingle_answers:
  assumes wf: "wf_history es n ca ra" and m: "model_ok model es n ca ra"
  shows "\<exists>b l. checkSingle model es computePartial kill = Some (Inr (b, l)) \<and> search_answer model es n ca ra kill b l"
proof -
  obtain h where h: "makeLinkedEntries es = (h, if n = 0 then None else Some (2 * n - 1))" "length h = 2 * n"
    "list_length h (if n = 0 then None else Some (2 * n - 1)) = Some (2 * n)"
    "list_ok es n ra (with_head h (if n = 0 then None else Some (2 * n - 1))) {}"
    using start_list [OF wf] by blast
  have eq: "checkSingle model es computePartial kill =
      check_loop n (2 * n) model computePartial kill 0 (search_start model n h (if n = 0 then None else Some (2 * n - 1)))"
    unfolding checkSingle_def h(1) using h(2,3) by simp
  show ?thesis
  proof (cases "n = 0")
    case True
    have "rest es {} = []" using rest_empty [OF wf, of "{}"] True by simp
    then have "search_done model es n ca ra (search_start model n h None)"
      using list_ok_next(1) [OF h(4)] True by (auto simp: search_done_def search_start_def search_order_def call_ids_def intro: exI [of _ "[]"])
    then show ?thesis unfolding eq
      using check_loop_done [of model es n ca ra "search_start model n h None" computePartial kill 0] True by simp
  next
    case False
    then show ?thesis
      unfolding eq using search_on_start [OF wf _ False, of h model] check_loop_answers [OF wf _ m] h(4) by auto
  qed
qed

end
