(* ===== verification/Porcupine_Decides.thy ===== *)
theory Porcupine_Decides
  imports Porcupine_Correct
begin

text \<open>
  \<^verbatim>\<open>checkSingle\<close> decides linearizability: the entries that \<^verbatim>\<open>makeEntries\<close> builds from a list of
  operations form a well-formed history, and an order that the search looks for is a linearization of
  the operations.
\<close>

section \<open>Entries of operations\<close>

definition call_of :: "'v Operation list \<Rightarrow> nat \<Rightarrow> 'v entry" where
  "call_of ops i = \<lparr>e_kind = callEntry, e_value = Input (ops ! i), e_id = int i, e_time = Call (ops ! i), e_clientId = o_ClientId (ops ! i)\<rparr>"

definition return_of :: "'v Operation list \<Rightarrow> nat \<Rightarrow> 'v entry" where
  "return_of ops i = \<lparr>e_kind = returnEntry, e_value = Output (ops ! i), e_id = int i, e_time = Return (ops ! i), e_clientId = o_ClientId (ops ! i)\<rparr>"

lemma entry_of_simps [simp]:
  "\<not> e_kind (call_of ops i)" "e_value (call_of ops i) = Input (ops ! i)" "e_id (call_of ops i) = int i" "e_time (call_of ops i) = Call (ops ! i)"
  "e_kind (return_of ops i)" "e_value (return_of ops i) = Output (ops ! i)" "e_id (return_of ops i) = int i"
  "e_time (return_of ops i) = Return (ops ! i)"
  by (simp_all add: call_of_def return_of_def)

lemma entries_loop_acc: "entries_loop ops i (xs @ ys) = xs @ entries_loop ops i ys"
  by (induction ops i ys arbitrary: xs rule: entries_loop.induct) (simp_all flip: append_assoc)

lemma entries_loop_snoc:
  "entries_loop (ops @ [x]) i acc = entries_loop ops i acc @
     [\<lparr>e_kind = callEntry, e_value = Input x, e_id = i + int (length ops), e_time = Call x, e_clientId = o_ClientId x\<rparr>,
      \<lparr>e_kind = returnEntry, e_value = Output x, e_id = i + int (length ops), e_time = Return x, e_clientId = o_ClientId x\<rparr>]"
  by (induction ops i acc rule: entries_loop.induct) (simp_all add: algebra_simps)

lemma entries_of:
  "entries_loop ops 0 [] = concat (map (\<lambda>i. [call_of ops i, return_of ops i]) [0..<length ops])"
proof (induction ops rule: rev_induct)
  case (snoc x ops)
  have eq: "map (\<lambda>i. [call_of (ops @ [x]) i, return_of (ops @ [x]) i]) [0..<length ops] =
      map (\<lambda>i. [call_of ops i, return_of ops i]) [0..<length ops]"
    by (simp add: call_of_def return_of_def nth_append)
  show ?case unfolding entries_loop_snoc snoc.IH by (simp add: eq) (simp add: call_of_def return_of_def)
qed simp

text \<open>What the code relies on of \<^verbatim>\<open>sort.Sort\<close>: a permutation in which no entry is less than an earlier one.\<close>

definition sorts_by_time :: "('v entry list \<Rightarrow> 'v entry list) \<Rightarrow> bool" where
  "sorts_by_time sortf \<longleftrightarrow>
     (\<forall>xs. mset (sortf xs) = mset xs \<and> sorted_wrt (\<lambda>a b. \<not> byTime_Less b a) (sortf xs))"

lemma entries_set:
  assumes "sorts_by_time sortf"
  shows "set (makeEntries sortf ops) = call_of ops ` {..<length ops} \<union> return_of ops ` {..<length ops}"
    "length (makeEntries sortf ops) = 2 * length ops"
proof -
  have m: "mset (makeEntries sortf ops) = mset (entries_loop ops 0 [])"
    using assms by (simp add: sorts_by_time_def makeEntries_def)
  show "set (makeEntries sortf ops) = call_of ops ` {..<length ops} \<union> return_of ops ` {..<length ops}"
    unfolding mset_eq_setD [OF m] entries_of by auto
  have "length (concat (map (\<lambda>i. [call_of ops i, return_of ops i]) [0..<k])) = 2 * k" for k by (induction k) auto
  then show "length (makeEntries sortf ops) = 2 * length ops"
    using mset_eq_length [OF m] by (simp add: entries_of)
qed

text \<open>The addresses of the calls and the returns.\<close>

lemma entry_addresses:
  assumes "sorts_by_time sortf"
  obtains ca ra where "\<And>i. i < length ops \<Longrightarrow> ca i < 2 * length ops \<and> ent (makeEntries sortf ops) (ca i) = call_of ops i"
    "\<And>i. i < length ops \<Longrightarrow> ra i < 2 * length ops \<and> ent (makeEntries sortf ops) (ra i) = return_of ops i"
proof -
  let ?es = "makeEntries sortf ops"
  have at: "\<exists>a. a < 2 * length ops \<and> ent ?es a = x" if "x \<in> set ?es" for x
    using that entries_set(2) [OF assms, of ops] by (metis ent_def in_set_conv_nth length_rev set_rev)
  have "\<forall>i\<in>{..<length ops}. \<exists>a. a < 2 * length ops \<and> ent ?es a = call_of ops i"
    "\<forall>i\<in>{..<length ops}. \<exists>a. a < 2 * length ops \<and> ent ?es a = return_of ops i"
    using at entries_set(1) [OF assms, of ops] by auto
  then obtain ca ra where "\<forall>i\<in>{..<length ops}. ca i < 2 * length ops \<and> ent ?es (ca i) = call_of ops i"
    "\<forall>i\<in>{..<length ops}. ra i < 2 * length ops \<and> ent ?es (ra i) = return_of ops i"
    unfolding bchoice_iff by blast
  then show thesis by (intro that [of ca ra]) auto
qed

lemma later_entry:
  assumes "sorts_by_time sortf" "a < b" "b < length (makeEntries sortf ops)"
  shows "\<not> byTime_Less (ent (makeEntries sortf ops) a) (ent (makeEntries sortf ops) b)"
proof -
  have "sorted_wrt (\<lambda>a b. \<not> byTime_Less a b) (rev (makeEntries sortf ops))"
    using assms(1) by (simp add: sorts_by_time_def makeEntries_def sorted_wrt_rev)
  then show ?thesis using assms(2,3) by (simp add: ent_def sorted_wrt_iff_nth_less)
qed

lemma entry_address_unique:
  assumes s: "sorts_by_time sortf" and a: "a < 2 * length ops" "b < 2 * length ops"
    and e: "ent (makeEntries sortf ops) a = ent (makeEntries sortf ops) b"
  shows "a = b"
proof -
  let ?es = "makeEntries sortf ops"
  have "card (set ?es) = 2 * length ops"
  proof -
    have "inj_on (call_of ops) {..<length ops}" "inj_on (return_of ops) {..<length ops}"
      by (auto simp: inj_on_def call_of_def return_of_def)
    moreover have "call_of ops ` {..<length ops} \<inter> return_of ops ` {..<length ops} = {}"
      by (auto simp: call_of_def return_of_def)
    ultimately show ?thesis by (simp add: entries_set(1) [OF s] card_Un_disjoint card_image)
  qed
  then have "distinct (rev ?es)" using entries_set(2) [OF s] by (simp add: card_distinct)
  then show ?thesis using e a entries_set(2) [OF s, of ops] by (simp add: ent_def nth_eq_iff_index_eq)
qed

lemma makeEntries_wf:
  assumes s: "sorts_by_time sortf" and t: "\<And>i. i < length ops \<Longrightarrow> Call (ops ! i) \<le> Return (ops ! i)"
  obtains ca ra where "wf_history (makeEntries sortf ops) (length ops) ca ra"
    "\<And>i. i < length ops \<Longrightarrow> ent (makeEntries sortf ops) (ca i) = call_of ops i \<and> ent (makeEntries sortf ops) (ra i) = return_of ops i"
    "\<And>i j. i < length ops \<Longrightarrow> j < length ops \<Longrightarrow> rb_of ca ra j i \<longleftrightarrow> Return (ops ! j) < Call (ops ! i)"
proof -
  let ?es = "makeEntries sortf ops" and ?n = "length ops"
  obtain ca ra where c: "\<And>i. i < ?n \<Longrightarrow> ca i < 2 * ?n \<and> ent ?es (ca i) = call_of ops i"
    and r: "\<And>i. i < ?n \<Longrightarrow> ra i < 2 * ?n \<and> ent ?es (ra i) = return_of ops i"
    using entry_addresses [OF s, of ops] by blast
  have len: "length ?es = 2 * ?n" using entries_set(2) [OF s] .
  have ne: "ca i \<noteq> ra j" if "i < ?n" "j < ?n" for i j
    using c [OF that(1)] r [OF that(2)] by (metis entry_of_simps(1,5))
  have lt: "ca i < ra j \<longleftrightarrow> Return (ops ! j) < Call (ops ! i)" if ij: "i < ?n" "j < ?n" for i j
  proof (cases "ca i < ra j")
    case True
    then have "\<not> byTime_Less (call_of ops i) (return_of ops j)"
      using later_entry [OF s True, of ops] c [OF ij(1)] r [OF ij(2)] len by auto
    then show ?thesis using True by (auto simp: byTime_Less_def split: if_splits)
  next
    case False
    then have "ra j < ca i" using ne [OF ij] by simp
    then have "\<not> byTime_Less (return_of ops j) (call_of ops i)"
      using later_entry [OF s, of "ra j" "ca i" ops] c [OF ij(1)] r [OF ij(2)] len by auto
    then show ?thesis using False by (auto simp: byTime_Less_def split: if_splits)
  qed
  have rc: "ra i < ca i" if "i < ?n" for i using lt [OF that that] t [OF that] ne [OF that that] by linarith
  have all: "\<exists>i<?n. a = ca i \<or> a = ra i" if a: "a < 2 * ?n" for a
  proof -
    have "ent ?es a \<in> set ?es" using a len by (metis ent_def length_rev nth_mem set_rev)
    then obtain i where "i < ?n" "ent ?es a = call_of ops i \<or> ent ?es a = return_of ops i"
      unfolding entries_set(1) [OF s] by auto
    then show ?thesis using entry_address_unique [OF s a] c r by metis
  qed
  have "wf_history ?es ?n ca ra" unfolding wf_history_def using len c r rc all by auto
  then show thesis using that c r lt by (simp add: rb_of_def)
qed

section \<open>Orders and linearizations\<close>

lemma exec_run:
  assumes "\<And>i. i \<in> set xs \<Longrightarrow> st_of model es ca ra i =
      (\<lambda>s. case Step model s (Input (ops ! i)) (Output (ops ! i)) of Inl _ \<Rightarrow> None | Inr (ok, s') \<Rightarrow> if ok then Some s' else None)"
  shows "exec_seq (st_of model es ca ra) s xs \<noteq> None \<longleftrightarrow>
    run_seq (Step model) (\<lambda>i. Input (ops ! i)) (\<lambda>i. Output (ops ! i)) s xs"
  using assms
proof (induction xs arbitrary: s)
  case (Cons i xs)
  show ?case
  proof (cases "Step model s (Input (ops ! i)) (Output (ops ! i))")
    case (Inr r)
    then show ?thesis using Cons.IH [of "snd r"] Cons.prems by (cases r) auto
  qed (use Cons.prems in auto)
qed simp

lemma order_linearization:
  assumes e: "\<And>i. i < length ops \<Longrightarrow> ent es (ca i) = call_of ops i \<and> ent es (ra i) = return_of ops i"
    and rb: "\<And>i j. i < length ops \<Longrightarrow> j < length ops \<Longrightarrow> rb_of ca ra j i \<longleftrightarrow> Return (ops ! j) < Call (ops ! i)"
    and t: "\<And>i. i < length ops \<Longrightarrow> Call (ops ! i) \<le> Return (ops ! i)"
  shows "search_order model es (length ops) ca ra xs \<longleftrightarrow> linearization model ops xs"
proof -
  have irr: "\<not> rb_of ca ra i i" if "i < length ops" for i using rb [OF that that] t [OF that] by simp
  have run: "exec_seq (st_of model es ca ra) (Init model) xs \<noteq> None \<longleftrightarrow>
      run_seq (Step model) (\<lambda>i. Input (ops ! i)) (\<lambda>i. Output (ops ! i)) (Init model) xs" if "set xs = {..<length ops}"
    by (rule exec_run) (use that e in \<open>auto simp: st_of_def fun_eq_iff\<close>)
  have "rb_of ca ra (xs ! l) (xs ! k) \<longleftrightarrow> Return (ops ! (xs ! l)) < Call (ops ! (xs ! k))"
    if "set xs = {..<length ops}" "k < l" "l < length xs" for k l
  proof -
    have "xs ! k \<in> set xs" "xs ! l \<in> set xs" using that(2,3) by simp_all
    then show ?thesis using rb that(1) by auto
  qed
  then show ?thesis
    unfolding search_order_def linearization_def
    using legal_all [of "length ops" "rb_of ca ra" "st_of model es ca ra" "Init model" xs, OF irr] run by auto
qed

text \<open>A sequence of operations, given by their identifiers, that the object accepts.\<close>

definition runnable :: "('v, 's) Model \<Rightarrow> 'v Operation list \<Rightarrow> int list \<Rightarrow> bool" where
  "runnable model ops q \<longleftrightarrow> (\<exists>xs. q = map int xs \<and> distinct xs \<and> set xs \<subseteq> {..<length ops} \<and>
     run_seq (Step model) (\<lambda>i. Input (ops ! i)) (\<lambda>i. Output (ops ! i)) (Init model) xs)"

lemma partial_order_runnable:
  assumes e: "\<And>i. i < length ops \<Longrightarrow> ent es (ca i) = call_of ops i \<and> ent es (ra i) = return_of ops i"
    and p: "partial_order model es (length ops) ca ra q"
  shows "runnable model ops q"
proof -
  obtain xs where x: "legal (length ops) (rb_of ca ra) (st_of model es ca ra) {} (Init model) xs" "q = map int xs"
    using p unfolding partial_order_def by blast
  note d = legal_distinct [OF x(1)]
  have "run_seq (Step model) (\<lambda>i. Input (ops ! i)) (\<lambda>i. Output (ops ! i)) (Init model) xs \<longleftrightarrow>
      exec_seq (st_of model es ca ra) (Init model) xs \<noteq> None"
    by (rule exec_run [symmetric]) (use d e in \<open>auto simp: st_of_def fun_eq_iff\<close>)
  then show ?thesis using legal_exec [OF x(1)] d x(2) unfolding runnable_def by auto
qed

section \<open>The contract of a model\<close>

text \<open>
  What the checker needs of a model: its step function does not panic on the values of the
  operations, and its equality is the equality of states.
\<close>

definition typed_ops :: "('v \<Rightarrow> 'v \<Rightarrow> bool) \<Rightarrow> 'v Operation list \<Rightarrow> bool" where
  "typed_ops typed ops \<longleftrightarrow> (\<forall>x\<in>set ops. Call x \<le> Return x \<and> typed (Input x) (Output x))"

locale object_model =
  fixes model :: "('v, 's) Model" and typed :: "'v \<Rightarrow> 'v \<Rightarrow> bool"
  assumes step_total: "typed inp out \<Longrightarrow> \<exists>r. Step model s inp out = Inr r"
    and equal_exact: "equal_states model s t = Inr (s = t)"
begin

lemma single_decides:
  assumes "sorts_by_time sortf" and "typed_ops typed ops"
  shows "\<exists>b l. checkSingle model (makeEntries sortf ops) computePartial kill = Some (Inr (b, l)) \<and>
    length l = length ops \<and> (\<forall>a q. Some (a, q) \<in> set l \<longrightarrow> runnable model ops q) \<and>
    (if b then linearizable model ops else (\<exists>j. kill j) \<or> \<not> linearizable model ops)"
proof -
  have o: "Call (ops ! i) \<le> Return (ops ! i)" "typed (Input (ops ! i)) (Output (ops ! i))" if "i < length ops" for i
    using assms(2) that by (auto simp: typed_ops_def)
  obtain ca ra where w: "wf_history (makeEntries sortf ops) (length ops) ca ra"
    "\<And>i. i < length ops \<Longrightarrow> ent (makeEntries sortf ops) (ca i) = call_of ops i \<and> ent (makeEntries sortf ops) (ra i) = return_of ops i"
    "\<And>i j. i < length ops \<Longrightarrow> j < length ops \<Longrightarrow> rb_of ca ra j i \<longleftrightarrow> Return (ops ! j) < Call (ops ! i)"
    using makeEntries_wf [OF assms(1) o(1)] by blast
  have "model_ok model (makeEntries sortf ops) (length ops) ca ra"
    unfolding model_ok_def using w(2) step_total o(2) equal_exact by simp
  from checkSingle_answers [OF w(1) this, of computePartial kill] obtain b l where
    "checkSingle model (makeEntries sortf ops) computePartial kill = Some (Inr (b, l))"
    and a: "search_answer model (makeEntries sortf ops) (length ops) ca ra kill b l" by blast
  moreover have "(\<exists>xs. search_order model (makeEntries sortf ops) (length ops) ca ra xs) \<longleftrightarrow> linearizable model ops"
    unfolding linearizable_def using order_linearization [OF w(2,3) o(1)] by blast
  then have "if b then linearizable model ops else (\<exists>j. kill j) \<or> \<not> linearizable model ops"
    using a unfolding search_answer_def by (cases b) auto
  moreover have "length l = length ops" "\<forall>a q. Some (a, q) \<in> set l \<longrightarrow> runnable model ops q"
    using a partial_order_runnable [OF w(2)] unfolding search_answer_def longest_ok_def by blast+
  ultimately show ?thesis by blast
qed

text \<open>Without a kill the answer is the right one.\<close>

lemma single_exact:
  assumes "sorts_by_time sortf" and "typed_ops typed ops"
  shows "\<exists>l. checkSingle model (makeEntries sortf ops) computePartial (\<lambda>_. False) = Some (Inr (linearizable model ops, l))"
proof -
  from single_decides [OF assms, of computePartial "\<lambda>_. False"] obtain b l where
    "checkSingle model (makeEntries sortf ops) computePartial (\<lambda>_. False) = Some (Inr (b, l))" "b \<longleftrightarrow> linearizable model ops"
    by (auto split: if_splits)
  then show ?thesis by auto
qed

end

end
