(* ===== verification/Porcupine.thy ===== *)
theory Porcupine
  imports Porcupine_Decides
begin

text \<open>
  The check of a whole history (\<^verbatim>\<open>porcupine/checker.go\<close>, \<^verbatim>\<open>porcupine.go\<close>): one search for every
  partition, their results over a channel, and the answer to the caller.
\<close>

section \<open>The parallel check\<close>

datatype CheckResult = Unknown | Ok | Illegal

record 'v linearizationInfo =
  i_history :: "'v entry list list"
  partialLinearizations :: "int list list list"

type_synonym single_result = "((bool \<times> seq_ptr option list) go) option"

text \<open>
  What the loop of \<^verbatim>\<open>checkParallel\<close> receives: the result of a partition, or the timeout.  The loop
  stores the kill flag only when it ends, so the searches whose results it receives have run without
  a kill.  A partition whose search does not end sends nothing, and one that sent its result sends no
  other.  The loop returns the partitions received, the conjunction of their results, and whether the
  timeout came; it waits for ever when nothing more comes.
\<close>

datatype recv = Result nat | TimeoutFired

fun select_loop ::
  "(nat \<Rightarrow> single_result) \<Rightarrow> nat \<Rightarrow> bool \<Rightarrow> int \<Rightarrow> recv list \<Rightarrow> nat list \<Rightarrow> bool \<Rightarrow> ((nat list \<times> bool \<times> bool) go) option" where
  "select_loop search n computeInfo timeout [] got ok = None"
| "select_loop search n computeInfo timeout (TimeoutFired # rs) got ok =
     (if timeout > 0 then Some (Inr (got, ok, True)) else select_loop search n computeInfo timeout rs got ok)"
| "select_loop search n computeInfo timeout (Result i # rs) got ok =
     (if i \<ge> n \<or> i \<in> set got then select_loop search n computeInfo timeout rs got ok
      else case search i of
        None \<Rightarrow> select_loop search n computeInfo timeout rs got ok
      | Some (Inl e) \<Rightarrow> Some (Inl e)
      | Some (Inr (result, l)) \<Rightarrow>
          let got' = got @ [i]; ok' = (ok \<and> result) in
          if \<not> ok' \<and> \<not> computeInfo then Some (Inr (got', ok', False))
          else if length got' \<ge> n then Some (Inr (got', ok', False))
          else select_loop search n computeInfo timeout rs got' ok')"

text \<open>Waiting for the rest of the searches, for their partial linearizations.\<close>

fun wait_all :: "(nat \<Rightarrow> single_result) \<Rightarrow> nat list \<Rightarrow> ((seq_ptr option list list) go) option" where
  "wait_all search [] = Some (Inr [])"
| "wait_all search (i # is) =
     (case search i of
        None \<Rightarrow> None
      | Some (Inl e) \<Rightarrow> Some (Inl e)
      | Some (Inr (b, l)) \<Rightarrow>
          (case wait_all search is of
             None \<Rightarrow> None
           | Some (Inl e) \<Rightarrow> Some (Inl e)
           | Some (Inr ls) \<Rightarrow> Some (Inr (l # ls))))"

text \<open>The distinct pointers of \<^verbatim>\<open>longest\<close>, in the order \<open>iter\<close> in which the map yields them, as copies.\<close>

definition partials_of :: "(seq_ptr list \<Rightarrow> seq_ptr list) \<Rightarrow> seq_ptr option list \<Rightarrow> int list list" where
  "partials_of iter longest = map snd (iter (remdups (List.map_filter (\<lambda>v. v) longest)))"

definition check_result :: "bool \<Rightarrow> bool \<Rightarrow> CheckResult" where
  "check_result ok timedOut = (if \<not> ok then Illegal else if timedOut then Unknown else Ok)"

text \<open>
  \<open>order\<close> is what the loop receives; \<open>kills i\<close> is what search \<open>i\<close> reads from the kill flag when its
  result is not received by the loop.
\<close>

definition checkParallel ::
  "(seq_ptr list \<Rightarrow> seq_ptr list) \<Rightarrow> recv list \<Rightarrow> (nat \<Rightarrow> nat \<Rightarrow> bool) \<Rightarrow>
   ('v, 's) Model \<Rightarrow> 'v entry list list \<Rightarrow> bool \<Rightarrow> int \<Rightarrow> ((CheckResult \<times> 'v linearizationInfo) go) option" where
  "checkParallel iter order kills model history computeInfo timeout =
     (let n = length history; search = (\<lambda>kill i. checkSingle model (history ! i) computeInfo kill) in
      case select_loop (search (\<lambda>_. False)) n computeInfo timeout order [] True of
        None \<Rightarrow> None
      | Some (Inl e) \<Rightarrow> Some (Inl e)
      | Some (Inr (got, ok, timedOut)) \<Rightarrow>
          if computeInfo then
            (case wait_all (\<lambda>i. search (if i \<in> set got then (\<lambda>_. False) else kills i) i) [0..<n] of
               None \<Rightarrow> None
             | Some (Inl e) \<Rightarrow> Some (Inl e)
             | Some (Inr longest) \<Rightarrow>
                 Some (Inr (check_result ok timedOut,
                            \<lparr>i_history = history, partialLinearizations = map (partials_of iter) longest\<rparr>)))
          else Some (Inr (check_result ok timedOut, \<lparr>i_history = [], partialLinearizations = []\<rparr>)))"

section \<open>Histories of operations and of events\<close>

text \<open>The parameters are \<^verbatim>\<open>fmt.Sprintf\<close> on values and states, the sort of the entries, and the schedule.\<close>

record ('v, 's) runtime =
  sprint_value :: "'v \<Rightarrow> string"
  sprint_state :: "'s \<Rightarrow> string"
  sort_entries :: "'v entry list \<Rightarrow> 'v entry list"
  map_order :: "seq_ptr list \<Rightarrow> seq_ptr list"
  received :: "recv list"
  kill_reads :: "nat \<Rightarrow> nat \<Rightarrow> bool"

definition checkEvents ::
  "('v, 's) runtime \<Rightarrow> ('v, 's) Model \<Rightarrow> 'v Event list \<Rightarrow> bool \<Rightarrow> int \<Rightarrow> ((CheckResult \<times> 'v linearizationInfo) go) option" where
  "checkEvents rt model0 history verbose timeout =
     (let model = fillDefault (sprint_value rt) (sprint_state rt) model0 in
      case PartitionEvent model of
        None \<Rightarrow> Some (Inl NilDereference)
      | Some part \<Rightarrow>
          (case part history of
             Inl e \<Rightarrow> Some (Inl e)
           | Inr partitions \<Rightarrow>
               checkParallel (map_order rt) (received rt) (kill_reads rt) model
                 (map (\<lambda>subhistory. convertEntries (renumber subhistory)) partitions) verbose timeout))"

definition checkOperations ::
  "('v, 's) runtime \<Rightarrow> ('v, 's) Model \<Rightarrow> 'v Operation list \<Rightarrow> bool \<Rightarrow> int \<Rightarrow> ((CheckResult \<times> 'v linearizationInfo) go) option" where
  "checkOperations rt model0 history verbose timeout =
     (let model = fillDefault (sprint_value rt) (sprint_state rt) model0 in
      case Partition model of
        None \<Rightarrow> Some (Inl NilDereference)
      | Some part \<Rightarrow>
          (case part history of
             Inl e \<Rightarrow> Some (Inl e)
           | Inr partitions \<Rightarrow>
               checkParallel (map_order rt) (received rt) (kill_reads rt) model
                 (map (makeEntries (sort_entries rt)) partitions) verbose timeout))"

fun result_with :: "(CheckResult \<Rightarrow> 'b) \<Rightarrow> ((CheckResult \<times> 'v linearizationInfo) go) option \<Rightarrow> ('b go) option" where
  "result_with f None = None"
| "result_with f (Some (Inl e)) = Some (Inl e)"
| "result_with f (Some (Inr (res, info))) = Some (Inr (f res))"

definition CheckOperations :: "('v, 's) runtime \<Rightarrow> ('v, 's) Model \<Rightarrow> 'v Operation list \<Rightarrow> (bool go) option" where
  "CheckOperations rt model history = result_with (\<lambda>res. res = Ok) (checkOperations rt model history False 0)"

definition CheckOperationsTimeout :: "('v, 's) runtime \<Rightarrow> ('v, 's) Model \<Rightarrow> 'v Operation list \<Rightarrow> int \<Rightarrow> (CheckResult go) option" where
  "CheckOperationsTimeout rt model history timeout = result_with (\<lambda>res. res) (checkOperations rt model history False timeout)"

definition CheckOperationsVerbose ::
  "('v, 's) runtime \<Rightarrow> ('v, 's) Model \<Rightarrow> 'v Operation list \<Rightarrow> int \<Rightarrow> ((CheckResult \<times> 'v linearizationInfo) go) option" where
  "CheckOperationsVerbose rt model history timeout = checkOperations rt model history True timeout"

definition CheckEvents :: "('v, 's) runtime \<Rightarrow> ('v, 's) Model \<Rightarrow> 'v Event list \<Rightarrow> (bool go) option" where
  "CheckEvents rt model history = result_with (\<lambda>res. res = Ok) (checkEvents rt model history False 0)"

definition CheckEventsTimeout :: "('v, 's) runtime \<Rightarrow> ('v, 's) Model \<Rightarrow> 'v Event list \<Rightarrow> int \<Rightarrow> (CheckResult go) option" where
  "CheckEventsTimeout rt model history timeout = result_with (\<lambda>res. res) (checkEvents rt model history False timeout)"

definition CheckEventsVerbose ::
  "('v, 's) runtime \<Rightarrow> ('v, 's) Model \<Rightarrow> 'v Event list \<Rightarrow> int \<Rightarrow> ((CheckResult \<times> 'v linearizationInfo) go) option" where
  "CheckEventsVerbose rt model history timeout = checkEvents rt model history True timeout"

section \<open>The loop over the results\<close>

lemma select_loop_Result:
  assumes "search i = Some (Inr (result, l))" "i < n" "i \<notin> set got"
  shows "select_loop search n computeInfo timeout (Result i # rs) got ok =
     (if \<not> (ok \<and> result) \<and> \<not> computeInfo \<or> n \<le> Suc (length got) then Some (Inr (got @ [i], ok \<and> result, False))
      else select_loop search n computeInfo timeout rs (got @ [i]) (ok \<and> result))"
  using assms by (auto simp: Let_def)

lemma select_loop_skip:
  "n \<le> i \<or> i \<in> set got \<Longrightarrow> select_loop search n computeInfo timeout (Result i # rs) got ok = select_loop search n computeInfo timeout rs got ok"
  by simp

declare select_loop.simps(3) [simp del]

lemma select_loop_sound:
  assumes res: "\<And>i. i < n \<Longrightarrow> \<exists>l. search i = Some (Inr (res i, l))"
  shows "select_loop search n computeInfo timeout rs got ok = Some r \<Longrightarrow> set got \<subseteq> {..<n} \<Longrightarrow> distinct got \<Longrightarrow>
    ok = (\<forall>i\<in>set got. res i) \<Longrightarrow>
    \<exists>got' t. r = Inr (got', \<forall>i\<in>set got'. res i, t) \<and> set got' \<subseteq> {..<n} \<and> (t \<longrightarrow> timeout > 0) \<and>
      ((\<forall>i\<in>set got'. res i) \<and> \<not> t \<longrightarrow> set got' = {..<n})"
proof (induction rs arbitrary: got ok)
  case (Cons x rs)
  consider (timeout) "x = TimeoutFired" | (skip) i where "x = Result i" "n \<le> i \<or> i \<in> set got"
    | (take) i where "x = Result i" "i < n" "i \<notin> set got" by (metis not_le recv.exhaust)
  then show ?case
  proof cases
    case timeout
    then show ?thesis using Cons by (auto split: if_splits)
  next
    case skip
    then show ?thesis using Cons by (simp add: select_loop_skip)
  next
    case take
    obtain l where l: "search i = Some (Inr (res i, l))" using res [OF take(2)] by blast
    have ok: "(ok \<and> res i) = (\<forall>j\<in>set (got @ [i]). res j)" using Cons.prems(4) by auto
    have sub: "set (got @ [i]) \<subseteq> {..<n}" "distinct (got @ [i])" using Cons.prems(2,3) take by auto
    show ?thesis
    proof (cases "\<not> (ok \<and> res i) \<and> \<not> computeInfo \<or> n \<le> Suc (length got)")
      case True
      have "set (got @ [i]) = {..<n}" if "ok \<and> res i"
        using that True sub by (intro card_subset_eq) (auto simp: distinct_card simp del: set_append distinct_append dest: card_mono [rotated])
      moreover have "r = Inr (got @ [i], \<forall>j\<in>set (got @ [i]). res j, False)"
        using Cons.prems(1) True unfolding take(1) select_loop_Result [of search i, OF l take(2,3)] ok by simp
      ultimately show ?thesis using sub(1) ok by (intro exI [of _ "got @ [i]"] exI [of _ False]) simp
    next
      case False
      then show ?thesis using Cons.prems(1) Cons.IH [OF _ sub ok] unfolding take(1) select_loop_Result [of search i, OF l take(2,3)] by auto
    qed
  qed
qed simp

lemma select_loop_total:
  assumes res: "\<And>i. i < n \<Longrightarrow> \<exists>l. search i = Some (Inr (res i, l))"
  shows "{..<n} \<subseteq> set got \<union> {i. Result i \<in> set rs} \<Longrightarrow> set got \<subseteq> {..<n} \<Longrightarrow> distinct got \<Longrightarrow> length got < n \<Longrightarrow>
    \<exists>r. select_loop search n computeInfo timeout rs got ok = Some r"
proof (induction rs arbitrary: got ok)
  case Nil
  then have "set got = {..<n}" by auto
  then show ?case using Nil by (metis card_lessThan distinct_card less_irrefl)
next
  case (Cons x rs)
  consider (timeout) "x = TimeoutFired" | (skip) i where "x = Result i" "n \<le> i \<or> i \<in> set got"
    | (take) i where "x = Result i" "i < n" "i \<notin> set got" by (metis not_le recv.exhaust)
  then show ?case
  proof cases
    case timeout
    then have "{..<n} \<subseteq> set got \<union> {i. Result i \<in> set rs}" using Cons.prems(1) by auto
    then show ?thesis using Cons.IH [of got ok] Cons.prems timeout by simp
  next
    case skip
    then have "{..<n} \<subseteq> set got \<union> {i. Result i \<in> set rs}" using Cons.prems(1) by auto
    then show ?thesis using Cons.IH [of got ok] Cons.prems skip by (simp add: select_loop_skip)
  next
    case take
    obtain l where l: "search i = Some (Inr (res i, l))" using res [OF take(2)] by blast
    have "{..<n} \<subseteq> set (got @ [i]) \<union> {i. Result i \<in> set rs}" using Cons.prems(1) take(1) by auto
    then show ?thesis using Cons.IH [of "got @ [i]"] Cons.prems(2,3) take unfolding take(1) select_loop_Result [of search i, OF l take(2,3)] by auto
  qed
qed

lemma wait_all_ok:
  assumes "\<And>i. i \<in> set is \<Longrightarrow> \<exists>b l. search i = Some (Inr (b, l)) \<and> P i l"
  shows "\<exists>ls. wait_all search is = Some (Inr ls) \<and> list_all2 P is ls"
  using assms
proof (induction "is")
  case (Cons i "is")
  obtain b l where "search i = Some (Inr (b, l))" "P i l" using Cons.prems [of i] by auto
  moreover obtain ls where "wait_all search is = Some (Inr ls)" "list_all2 P is ls" using Cons by auto
  ultimately show ?case by simp
qed simp

section \<open>Soundness and completeness of the parallel check\<close>

context object_model
begin

lemma parallel_info:
  assumes s: "sorts_by_time sortf" and ps: "\<forall>p\<in>set ps. typed_ops typed p" and i: "i < length ps"
  shows "\<exists>b l. checkSingle model (map (makeEntries sortf) ps ! i) computeInfo kill = Some (Inr (b, l)) \<and>
    length l = length (ps ! i) \<and> (\<forall>a q. Some (a, q) \<in> set l \<longrightarrow> runnable model (ps ! i) q)"
proof -
  have "typed_ops typed (ps ! i)" using ps i nth_mem by blast
  from single_decides [OF s this, of computeInfo kill] show ?thesis unfolding nth_map [OF i] by blast
qed

lemma parallel_results:
  assumes s: "sorts_by_time sortf" and ps: "\<forall>p\<in>set ps. typed_ops typed p" and i: "i < length ps"
  shows "\<exists>l. checkSingle model (map (makeEntries sortf) ps ! i) computeInfo (\<lambda>_. False) = Some (Inr (linearizable model (ps ! i), l))"
proof -
  have "typed_ops typed (ps ! i)" using ps i nth_mem by blast
  from single_exact [OF s this, of computeInfo] show ?thesis unfolding nth_map [OF i] .
qed

text \<open>
  Whatever the schedule and the timeout, an answer of \<^verbatim>\<open>Ok\<close> or \<^verbatim>\<open>Illegal\<close> is right, and it comes
  once every search could send its result.
\<close>

lemma parallel_answer:
  assumes s: "sorts_by_time sortf" and ps: "\<forall>p\<in>set ps. typed_ops typed p"
    and sel: "select_loop (\<lambda>i. checkSingle model (map (makeEntries sortf) ps ! i) computeInfo (\<lambda>_. False)) (length ps) computeInfo timeout order [] True = Some r"
  obtains got ok t where "r = Inr (got, ok, t)"
    "check_result ok t = Ok \<Longrightarrow> \<forall>p\<in>set ps. linearizable model p"
    "check_result ok t = Illegal \<Longrightarrow> \<exists>p\<in>set ps. \<not> linearizable model p"
    "check_result ok t = Unknown \<Longrightarrow> timeout > 0"
proof -
  from select_loop_sound [of "length ps" "\<lambda>i. checkSingle model (map (makeEntries sortf) ps ! i) computeInfo (\<lambda>_. False)"
      "\<lambda>i. linearizable model (ps ! i)", OF parallel_results [OF s ps] sel] obtain got t where
    g: "r = Inr (got, \<forall>i\<in>set got. linearizable model (ps ! i), t)" "set got \<subseteq> {..<length ps}" "t \<longrightarrow> timeout > 0"
      "(\<forall>i\<in>set got. linearizable model (ps ! i)) \<and> \<not> t \<longrightarrow> set got = {..<length ps}" by auto
  show thesis
  proof (rule that [OF g(1)])
    show "\<forall>p\<in>set ps. linearizable model p" if "check_result (\<forall>i\<in>set got. linearizable model (ps ! i)) t = Ok"
      using that g(4) by (auto simp: check_result_def in_set_conv_nth split: if_splits)
    show "\<exists>p\<in>set ps. \<not> linearizable model p" if ill: "check_result (\<forall>i\<in>set got. linearizable model (ps ! i)) t = Illegal"
    proof -
      obtain i where "i \<in> set got" "\<not> linearizable model (ps ! i)" using ill by (auto simp: check_result_def split: if_splits)
      then show ?thesis using g(2) nth_mem [of i ps] by blast
    qed
    show "timeout > 0" if "check_result (\<forall>i\<in>set got. linearizable model (ps ! i)) t = Unknown"
      using that g(3) by (auto simp: check_result_def split: if_splits)
  qed
qed

end

lemma map_filter_id: "set (List.map_filter (\<lambda>v. v) xs) = {x. Some x \<in> set xs}"
  by (force simp: map_filter_def)

text \<open>What a caller can rely on: \<open>ps\<close> are the partitions.\<close>

definition answer_ok ::
  "('v, 's) Model \<Rightarrow> ('v entry list \<Rightarrow> 'v entry list) \<Rightarrow> 'v Operation list list \<Rightarrow> bool \<Rightarrow> int \<Rightarrow> CheckResult \<Rightarrow> 'v linearizationInfo \<Rightarrow> bool" where
  "answer_ok model sortf ps computeInfo timeout res info \<longleftrightarrow>
     (res = Ok \<longrightarrow> (\<forall>p\<in>set ps. linearizable model p)) \<and>
     (res = Illegal \<longrightarrow> (\<exists>p\<in>set ps. \<not> linearizable model p)) \<and>
     (res = Unknown \<longrightarrow> timeout > 0) \<and>
     (if computeInfo then i_history info = map (makeEntries sortf) ps \<and>
        list_all2 (\<lambda>p qs. \<forall>q\<in>set qs. runnable model p q) ps (partialLinearizations info)
      else i_history info = [] \<and> partialLinearizations info = [])"

context object_model
begin

lemma parallel_waits:
  assumes s: "sorts_by_time sortf" and ps: "\<forall>p\<in>set ps. typed_ops typed p" and it: "\<And>xs. set (iter xs) \<subseteq> set xs"
  obtains ls where "wait_all (\<lambda>i. checkSingle model (map (makeEntries sortf) ps ! i) computeInfo (kills i)) [0..<length ps] = Some (Inr ls)"
    "list_all2 (\<lambda>p qs. \<forall>q\<in>set qs. runnable model p q) ps (map (partials_of iter) ls)"
proof -
  have "\<exists>ls. wait_all (\<lambda>i. checkSingle model (map (makeEntries sortf) ps ! i) computeInfo (kills i)) [0..<length ps] = Some (Inr ls) \<and>
      list_all2 (\<lambda>i l. \<forall>a q. Some (a, q) \<in> set l \<longrightarrow> runnable model (ps ! i) q) [0..<length ps] ls"
    by (rule wait_all_ok) (use parallel_info [OF s ps] in fastforce)
  then obtain ls where ls: "wait_all (\<lambda>i. checkSingle model (map (makeEntries sortf) ps ! i) computeInfo (kills i)) [0..<length ps] = Some (Inr ls)"
    "list_all2 (\<lambda>i l. \<forall>a q. Some (a, q) \<in> set l \<longrightarrow> runnable model (ps ! i) q) [0..<length ps] ls" by blast
  have P: "\<forall>q\<in>set (partials_of iter l). runnable model p q" if "\<forall>a q. Some (a, q) \<in> set l \<longrightarrow> runnable model p q" for l p
    using that it [of "remdups (List.map_filter (\<lambda>v. v) l)"] by (auto simp: partials_of_def map_filter_id)
  have l: "length ls = length ps" "\<And>i. i < length ps \<Longrightarrow> \<forall>a q. Some (a, q) \<in> set (ls ! i) \<longrightarrow> runnable model (ps ! i) q"
    using ls(2) by (simp_all add: list_all2_conv_all_nth)
  have "list_all2 (\<lambda>p qs. \<forall>q\<in>set qs. runnable model p q) ps (map (partials_of iter) ls)"
  proof (rule list_all2_all_nthI)
    fix i assume i: "i < length ps"
    show "\<forall>q\<in>set (map (partials_of iter) ls ! i). runnable model (ps ! i) q" using P [OF l(2) [OF i]] i l(1) by simp
  qed (simp add: l(1))
  then show thesis using that ls(1) by blast
qed

lemma parallel_sound:
  assumes s: "sorts_by_time sortf" and ps: "\<forall>p\<in>set ps. typed_ops typed p" and it: "\<And>xs. set (iter xs) \<subseteq> set xs"
    and r: "checkParallel iter order kills model (map (makeEntries sortf) ps) computeInfo timeout = Some x"
  shows "\<exists>res info. x = Inr (res, info) \<and> answer_ok model sortf ps computeInfo timeout res info"
proof -
  let ?search = "\<lambda>i. checkSingle model (map (makeEntries sortf) ps ! i) computeInfo (\<lambda>_. False)"
  obtain r' where sel: "select_loop ?search (length ps) computeInfo timeout order [] True = Some r'"
    using r by (auto simp: checkParallel_def Let_def split: option.splits)
  obtain got ok t where a: "r' = Inr (got, ok, t)"
    "check_result ok t = Ok \<Longrightarrow> \<forall>p\<in>set ps. linearizable model p"
    "check_result ok t = Illegal \<Longrightarrow> \<exists>p\<in>set ps. \<not> linearizable model p"
    "check_result ok t = Unknown \<Longrightarrow> timeout > 0"
    using parallel_answer [OF s ps sel] by blast
  obtain ls where ls: "wait_all (\<lambda>i. checkSingle model (map (makeEntries sortf) ps ! i) computeInfo (if i \<in> set got then \<lambda>_. False else kills i)) [0..<length ps] = Some (Inr ls)"
    "list_all2 (\<lambda>p qs. \<forall>q\<in>set qs. runnable model p q) ps (map (partials_of iter) ls)"
    using parallel_waits [OF s ps it, where kills = "\<lambda>i. if i \<in> set got then \<lambda>_. False else kills i"] by blast
  have "x = Inr (check_result ok t, if computeInfo then \<lparr>i_history = map (makeEntries sortf) ps, partialLinearizations = map (partials_of iter) ls\<rparr>
      else \<lparr>i_history = [], partialLinearizations = []\<rparr>)"
    using r sel a(1) ls(1) by (auto simp: checkParallel_def Let_def split: if_splits)
  then show ?thesis using a(2-4) ls(2) by (simp add: answer_ok_def)
qed

lemma parallel_total:
  assumes s: "sorts_by_time sortf" and ps: "\<forall>p\<in>set ps. typed_ops typed p" and it: "\<And>xs. set (iter xs) \<subseteq> set xs"
    and ne: "ps \<noteq> []" and all: "Result ` {..<length ps} \<subseteq> set order"
  shows "\<exists>x. checkParallel iter order kills model (map (makeEntries sortf) ps) computeInfo timeout = Some x"
proof -
  let ?search = "\<lambda>i. checkSingle model (map (makeEntries sortf) ps ! i) computeInfo (\<lambda>_. False)"
  have "{..<length ps} \<subseteq> set [] \<union> {i. Result i \<in> set order}" using all by blast
  moreover have "set [] \<subseteq> {..<length ps}" "distinct ([] :: nat list)" "length ([] :: nat list) < length ps" using ne by simp_all
  ultimately have "\<exists>r. select_loop ?search (length ps) computeInfo timeout order [] True = Some r"
    using parallel_results [OF s ps, of _ computeInfo] by (intro select_loop_total [where res = "\<lambda>i. linearizable model (ps ! i)"]) blast+
  then obtain r where sel: "select_loop ?search (length ps) computeInfo timeout order [] True = Some r" ..
  obtain got ok t where a: "r = Inr (got, ok, t)" using parallel_answer [OF s ps sel] .
  obtain ls where "wait_all (\<lambda>i. checkSingle model (map (makeEntries sortf) ps ! i) computeInfo (if i \<in> set got then \<lambda>_. False else kills i)) [0..<length ps] = Some (Inr ls)"
    using parallel_waits [OF s ps it, where kills = "\<lambda>i. if i \<in> set got then \<lambda>_. False else kills i"] by blast
  then show ?thesis using sel a by (cases computeInfo) (simp_all add: checkParallel_def Let_def)
qed

end

section \<open>Termination\<close>

text \<open>C10: The search over a partition ends, whatever the kill flag does and whether or not partial linearizations are
  wanted, for every model whose step function does not panic on the operations and whose equality is equality.
\<close>

theorem search_terminates:
  assumes "sorts_by_time sortf" and "\<And>x. x \<in> set ops \<Longrightarrow> Call x \<le> Return x"
    and "\<And>x s. x \<in> set ops \<Longrightarrow> \<exists>r. Step model s (Input x) (Output x) = Inr r"
    and "\<And>s t. equal_states model s t = Inr (s = t)"
  shows "\<exists>b l. checkSingle model (makeEntries sortf ops) computePartial kill = Some (Inr (b, l))"
proof -
  let ?typed = "\<lambda>inp out. \<exists>x\<in>set ops. inp = Input x \<and> out = Output x"
  have m: "object_model model ?typed" using assms(3,4) by unfold_locales auto
  have "typed_ops ?typed ops" using assms(2) by (auto simp: typed_ops_def)
  from object_model.single_decides [OF m assms(1) this, of computePartial kill] show ?thesis by blast
qed

end
