(* ===== verification/Porcupine_Kv.thy ===== *)
theory Porcupine_Kv
  imports Porcupine "HOL-Library.List_Lexorder" "HOL-Library.Char_ord"
begin

text \<open>
  The model of a key/value store (\<^verbatim>\<open>models/kv.go\<close>) for the linearizability checker.  A history is
  split by key, and every part is checked against a single register.
\<close>

section \<open>The model\<close>

record KvInput =
  Op :: "8 word"
  Key :: string
  kv_Value :: string

record KvOutput =
  out_Value :: string

text \<open>What an interface value of an operation holds; the last is the nil interface.\<close>

datatype kv_value = KvIn KvInput | KvOut KvOutput | KvNil

fun as_KvInput :: "kv_value \<Rightarrow> KvInput go" where
  "as_KvInput (KvIn i) = Inr i"
| "as_KvInput (KvOut _) = Inl TypeAssertion"
| "as_KvInput KvNil = Inl TypeAssertion"

fun as_KvOutput :: "kv_value \<Rightarrow> KvOutput go" where
  "as_KvOutput (KvOut o') = Inr o'"
| "as_KvOutput (KvIn _) = Inl TypeAssertion"
| "as_KvOutput KvNil = Inl TypeAssertion"

fun kv_split :: "kv_value Operation list \<Rightarrow> (string \<times> kv_value Operation list) list \<Rightarrow> ((string \<times> kv_value Operation list) list) go" where
  "kv_split [] m = Inr m"
| "kv_split (v # history) m =
     go_bind (as_KvInput (Input v)) (\<lambda>inp.
       kv_split history (al_put (Key inp) ((case map_of m (Key inp) of None \<Rightarrow> [] | Some vs \<Rightarrow> vs) @ [v]) m))"

definition kv_Partition :: "kv_value Operation list \<Rightarrow> kv_value Operation list list go" where
  "kv_Partition history =
     go_bind (kv_split history []) (\<lambda>m. Inr (map (\<lambda>k. the (map_of m k)) (sort (map fst m))))"

definition kv_Step :: "string \<Rightarrow> kv_value \<Rightarrow> kv_value \<Rightarrow> (bool \<times> string) go" where
  "kv_Step st inp0 out0 =
     go_bind (as_KvInput inp0) (\<lambda>inp.
     go_bind (as_KvOutput out0) (\<lambda>out.
       Inr (if Op inp = 0 then (out_Value out = st, st)
            else if Op inp = 1 then (True, kv_Value inp)
            else (True, st @ kv_Value inp))))"

definition kv_DescribeOperation :: "kv_value \<Rightarrow> kv_value \<Rightarrow> string go" where
  "kv_DescribeOperation inp0 out0 =
     go_bind (as_KvInput inp0) (\<lambda>inp.
     go_bind (as_KvOutput out0) (\<lambda>out.
       Inr (if Op inp = 0 then ''get('' @ [CHR 0x27] @ Key inp @ [CHR 0x27] @ '') -> '' @ [CHR 0x27] @ out_Value out @ [CHR 0x27]
            else if Op inp = 1 then ''put('' @ [CHR 0x27] @ Key inp @ [CHR 0x27] @ '', '' @ [CHR 0x27] @ kv_Value inp @ [CHR 0x27] @ '')''
            else if Op inp = 2 then ''append('' @ [CHR 0x27] @ Key inp @ [CHR 0x27] @ '', '' @ [CHR 0x27] @ kv_Value inp @ [CHR 0x27] @ '')''
            else ''<invalid>'')))"

definition KvModel :: "(kv_value, string) Model" where
  "KvModel =
     \<lparr>Partition = Some kv_Partition, PartitionEvent = None, Init = '''', Step = kv_Step, Equal = None,
      DescribeOperation = Some kv_DescribeOperation, DescribeState = None\<rparr>"

section \<open>The contract\<close>

definition kv_typed :: "kv_value \<Rightarrow> kv_value \<Rightarrow> bool" where
  "kv_typed inp out \<longleftrightarrow> (\<exists>i o'. inp = KvIn i \<and> out = KvOut o')"

lemma fillDefault_sel [simp]:
  "Step (fillDefault fv fs m) = Step m" "Init (fillDefault fv fs m) = Init m"
  "Partition (fillDefault fv fs m) = Some (case Partition m of None \<Rightarrow> NoPartition | Some p \<Rightarrow> p)"
  "Equal (fillDefault fv fs m) = Some (case Equal m of None \<Rightarrow> ShallowEqual | Some e \<Rightarrow> e)"
  by (simp_all add: fillDefault_def Let_def split: option.splits)

lemma linearizable_cong:
  "Step m = Step m' \<Longrightarrow> Init m = Init m' \<Longrightarrow> linearizable m ops \<longleftrightarrow> linearizable m' ops"
  by (simp add: linearizable_def linearization_def)

lemma kv_Step_typed:
  assumes "kv_typed inp out"
  shows "\<exists>r. kv_Step s inp out = Inr r"
proof -
  obtain i o' where "inp = KvIn i" "out = KvOut o'" using assms by (auto simp: kv_typed_def)
  then show ?thesis unfolding kv_Step_def by simp
qed

interpretation kv: object_model "fillDefault fv fs KvModel" kv_typed for fv fs
proof unfold_locales
  show "\<exists>r. Step (fillDefault fv fs KvModel) s inp out = Inr r" if "kv_typed inp out" for inp out s
    using kv_Step_typed [OF that] by (simp add: KvModel_def)
qed (simp add: KvModel_def equal_states_def ShallowEqual_def)

section \<open>Partitions\<close>

definition on_key :: "string \<Rightarrow> kv_value Operation list \<Rightarrow> kv_value Operation list" where
  "on_key k history = filter (\<lambda>v. case Input v of KvIn i \<Rightarrow> Key i = k | _ \<Rightarrow> False) history"

lemma kv_split_map:
  assumes "\<forall>v\<in>set history. \<exists>i. Input v = KvIn i"
  shows "\<exists>m'. kv_split history m = Inr m' \<and>
    (\<forall>k. map_of m' k = (if map_of m k = None \<and> on_key k history = [] then None
                         else Some ((case map_of m k of None \<Rightarrow> [] | Some vs \<Rightarrow> vs) @ on_key k history))) \<and>
    (distinct (map fst m) \<longrightarrow> distinct (map fst m'))"
  using assms
proof (induction history arbitrary: m)
  case (Cons v history)
  then obtain i where i: "Input v = KvIn i" by auto
  let ?m = "al_put (Key i) ((case map_of m (Key i) of None \<Rightarrow> [] | Some vs \<Rightarrow> vs) @ [v]) m"
  obtain m' where m': "kv_split history ?m = Inr m'"
    "\<forall>k. map_of m' k = (if map_of ?m k = None \<and> on_key k history = [] then None
                         else Some ((case map_of ?m k of None \<Rightarrow> [] | Some vs \<Rightarrow> vs) @ on_key k history))"
    "distinct (map fst ?m) \<longrightarrow> distinct (map fst m')"
    using Cons.IH [of ?m] Cons.prems by auto
  have "\<forall>k. map_of m' k = (if map_of m k = None \<and> on_key k (v # history) = [] then None
                         else Some ((case map_of m k of None \<Rightarrow> [] | Some vs \<Rightarrow> vs) @ on_key k (v # history)))"
    unfolding m'(2) [rule_format] by (auto simp: on_key_def i)
  then show ?case using i m'(1,3) by auto
qed (auto simp: on_key_def split: option.splits)

lemma kv_Partition_keys:
  assumes "\<forall>v\<in>set history. \<exists>i. Input v = KvIn i"
  obtains ks where "kv_Partition history = Inr (map (\<lambda>k. on_key k history) ks)" "sorted ks" "distinct ks"
    "set ks = {k. on_key k history \<noteq> []}"
proof -
  obtain m where m: "kv_split history [] = Inr m"
    "\<And>k. map_of m k = (if on_key k history = [] then None else Some (on_key k history))" "distinct (map fst m)"
    using kv_split_map [OF assms, of "[]"] by auto
  have dom: "set (map fst m) = {k. on_key k history \<noteq> []}"
    using m(2) by (metis (mono_tags, lifting) Collect_cong dom_def dom_map_of_conv_image_fst list.set_map option.distinct(1))
  have "map (\<lambda>k. the (map_of m k)) (sort (map fst m)) = map (\<lambda>k. on_key k history) (sort (map fst m))"
    by (rule map_cong [OF refl]) (use dom m(2) in auto)
  then show thesis using that [of "sort (map fst m)"] m(1,3) dom by (simp add: kv_Partition_def)
qed

lemma typed_on_key: "typed_ops typed history \<Longrightarrow> typed_ops typed (on_key k history)"
  by (auto simp: typed_ops_def on_key_def)

lemma keys_le: "distinct ks \<Longrightarrow> set ks = {k. on_key k history \<noteq> []} \<Longrightarrow> length ks \<le> length history"
proof -
  assume ks: "distinct ks" "set ks = {k. on_key k history \<noteq> []}"
  have "set ks \<subseteq> (\<lambda>v. case Input v of KvIn i \<Rightarrow> Key i | _ \<Rightarrow> []) ` set history"
    unfolding ks(2) by (auto simp: on_key_def filter_empty_conv image_iff split: kv_value.splits) metis
  then have "card (set ks) \<le> length history" by (meson card_image_le card_length card_mono finite_imageI finite_set order_trans)
  then show ?thesis using ks(1) by (simp add: distinct_card)
qed

text \<open>The empty history is linearizable, so the keys without operations do not matter.\<close>

lemma linearizable_Nil: "linearizable model []"
  by (auto simp: linearizable_def linearization_def intro: exI [of _ "[]"])

lemma all_keys:
  assumes "set ks = {k. on_key k history \<noteq> []}"
  shows "(\<forall>p\<in>set (map (\<lambda>k. on_key k history) ks). linearizable model p) \<longleftrightarrow> (\<forall>k. linearizable model (on_key k history))"
proof -
  have "linearizable model (on_key k history)" if "on_key k history = []" for k using that linearizable_Nil by simp
  then show ?thesis unfolding set_map assms by blast
qed

section \<open>Checking a key/value history\<close>

text \<open>
  A runtime as the code relies on it: the sort is a sort by time, the iteration over a map yields its
  keys, and every search gets to send its result.
\<close>

definition runtime_ok :: "('v, 's) runtime \<Rightarrow> nat \<Rightarrow> bool" where
  "runtime_ok rt n \<longleftrightarrow> sorts_by_time (sort_entries rt) \<and> (\<forall>xs. set (map_order rt xs) \<subseteq> set xs) \<and>
     Result ` {..<n} \<subseteq> set (received rt)"

lemma kv_history_ok: "typed_ops kv_typed history \<Longrightarrow> \<forall>v\<in>set history. \<exists>i. Input v = KvIn i"
  by (auto simp: typed_ops_def kv_typed_def)

lemma kv_checkOperations:
  assumes h: "typed_ops kv_typed history" and rt: "runtime_ok rt (length history)" and ne: "history \<noteq> []"
  obtains ks res info where "set ks = {k. on_key k history \<noteq> []}" "distinct ks"
    "checkOperations rt KvModel history verbose timeout = Some (Inr (res, info))"
    "answer_ok (fillDefault (sprint_value rt) (sprint_state rt) KvModel) (sort_entries rt) (map (\<lambda>k. on_key k history) ks) verbose timeout res info"
proof -
  let ?m = "fillDefault (sprint_value rt) (sprint_state rt) KvModel"
  have r: "sorts_by_time (sort_entries rt)" "\<And>xs. set (map_order rt xs) \<subseteq> set xs" "Result ` {..<length history} \<subseteq> set (received rt)"
    using rt by (auto simp: runtime_ok_def)
  obtain ks where ks: "kv_Partition history = Inr (map (\<lambda>k. on_key k history) ks)" "sorted ks" "distinct ks"
    "set ks = {k. on_key k history \<noteq> []}" using kv_Partition_keys [OF kv_history_ok [OF h]] .
  let ?ps = "map (\<lambda>k. on_key k history) ks"
  have t: "\<forall>p\<in>set ?ps. typed_ops kv_typed p" using typed_on_key [OF h] by auto
  obtain v i where "v \<in> set history" "Input v = KvIn i" using ne kv_history_ok [OF h] by (metis last_in_set)
  then have "on_key (Key i) history \<noteq> []" by (auto simp: on_key_def filter_empty_conv intro!: bexI [of _ v])
  then have "?ps \<noteq> []" using ks(4) by auto
  moreover have "Result ` {..<length ?ps} \<subseteq> set (received rt)" using r(3) keys_le [OF ks(3,4)] by auto
  ultimately obtain x where x: "checkParallel (map_order rt) (received rt) (kill_reads rt) ?m (map (makeEntries (sort_entries rt)) ?ps) verbose timeout = Some x"
    using kv.parallel_total [OF r(1) t r(2)] by blast
  have c: "checkOperations rt KvModel history verbose timeout = Some x"
    using x ks(1) by (simp add: checkOperations_def KvModel_def Let_def o_def)
  from kv.parallel_sound [OF r(1) t r(2) x] c ks(3,4) that show thesis by blast
qed

text \<open>C4: On a non-empty history of key/value operations that return after they were called, whatever the order in
  which the results of the partitions arrive, CheckOperations returns, without a panic, and says whether the
  operations on every key are linearizable.
\<close>

theorem kv_check_decides:
  assumes "typed_ops kv_typed history" "runtime_ok rt (length history)" "history \<noteq> []"
  shows "CheckOperations rt KvModel history = Some (Inr (\<forall>k. linearizable KvModel (on_key k history)))"
proof -
  let ?m = "fillDefault (sprint_value rt) (sprint_state rt) KvModel"
  obtain ks res info where ks: "set ks = {k. on_key k history \<noteq> []}" and "distinct ks"
    and c: "checkOperations rt KvModel history False 0 = Some (Inr (res, info))"
    and a: "answer_ok ?m (sort_entries rt) (map (\<lambda>k. on_key k history) ks) False 0 res info"
    using kv_checkOperations [OF assms] by blast
  have "res = Ok \<longleftrightarrow> (\<forall>p\<in>set (map (\<lambda>k. on_key k history) ks). linearizable ?m p)"
    using a by (cases res) (simp_all add: answer_ok_def)
  also have "\<dots> \<longleftrightarrow> (\<forall>k. linearizable KvModel (on_key k history))"
    unfolding all_keys [OF ks] using linearizable_cong [of ?m KvModel] by simp
  finally show ?thesis using c by (simp add: CheckOperations_def)
qed

text \<open>C27: An answer under a timeout is never wrong: Ok means that the operations on every key are linearizable,
  Illegal that those on some key are not, and Unknown comes only with a timeout.
\<close>

theorem kv_timeout_sound:
  assumes "typed_ops kv_typed history" "runtime_ok rt (length history)" "history \<noteq> []"
  shows "\<exists>res. CheckOperationsTimeout rt KvModel history timeout = Some (Inr res) \<and>
    (case res of Ok \<Rightarrow> \<forall>k. linearizable KvModel (on_key k history)
               | Illegal \<Rightarrow> \<exists>k. \<not> linearizable KvModel (on_key k history)
               | Unknown \<Rightarrow> timeout > 0)"
proof -
  let ?m = "fillDefault (sprint_value rt) (sprint_state rt) KvModel"
  obtain ks res info where ks: "set ks = {k. on_key k history \<noteq> []}" and "distinct ks"
    and c: "checkOperations rt KvModel history False timeout = Some (Inr (res, info))"
    and a: "answer_ok ?m (sort_entries rt) (map (\<lambda>k. on_key k history) ks) False timeout res info"
    using kv_checkOperations [OF assms] by blast
  have "(\<forall>p\<in>set (map (\<lambda>k. on_key k history) ks). linearizable ?m p) \<longleftrightarrow> (\<forall>k. linearizable KvModel (on_key k history))"
    unfolding all_keys [OF ks] using linearizable_cong [of ?m KvModel] by simp
  then show ?thesis using a c by (cases res) (auto simp: answer_ok_def CheckOperationsTimeout_def)
qed

text \<open>A concrete runtime and two short histories.\<close>

definition time_sort :: "'v entry list \<Rightarrow> 'v entry list" where
  "time_sort = sort_key (\<lambda>e. 2 * e_time e + (if e_kind e then 1 else 0))"

lemma time_sort_ok: "sorts_by_time (time_sort :: 'v entry list \<Rightarrow> 'v entry list)"
proof -
  have "sorted_wrt (\<lambda>a b. \<not> byTime_Less b a) (time_sort xs)" for xs :: "'v entry list"
  proof -
    have "sorted_wrt (\<lambda>a b. 2 * e_time a + (if e_kind a then 1 else 0) \<le> 2 * e_time b + (if e_kind b then 1 else 0)) (time_sort xs)"
      using sorted_sort_key [of "\<lambda>e. 2 * e_time e + (if e_kind e then 1 else 0)" xs] by (simp add: time_sort_def sorted_map)
    then show ?thesis by (rule sorted_wrt_mono_rel [rotated]) (auto simp: byTime_Less_def split: if_splits)
  qed
  then show ?thesis by (simp add: sorts_by_time_def time_sort_def)
qed

definition kv_rt :: "(kv_value, string) runtime" where
  "kv_rt = \<lparr>sprint_value = (\<lambda>_. []), sprint_state = (\<lambda>s. s), sort_entries = time_sort, map_order = (\<lambda>xs. xs),
     received = [Result 1, TimeoutFired, Result 0], kill_reads = (\<lambda>_ _. False)\<rparr>"

definition kv_op :: "int \<Rightarrow> 8 word \<Rightarrow> string \<Rightarrow> int \<Rightarrow> string \<Rightarrow> int \<Rightarrow> kv_value Operation" where
  "kv_op client op v call out return =
     \<lparr>o_ClientId = client, Input = KvIn \<lparr>Op = op, Key = ''k'', kv_Value = v\<rparr>, Call = call,
      Output = KvOut \<lparr>out_Value = out\<rparr>, Return = return\<rparr>"

lemma kv_rt_ok: "n \<le> 2 \<Longrightarrow> runtime_ok kv_rt n"
  using time_sort_ok by (auto simp: runtime_ok_def kv_rt_def less_Suc_eq numeral_2_eq_2)

lemma on_key_kv_op: "on_key k (kv_op c op v call out return # history) = (if k = ''k'' then [kv_op c op v call out return] else []) @ on_key k history"
  by (simp add: on_key_def kv_op_def)

lemma on_key_Nil: "on_key k [] = []"
  by (simp add: on_key_def)

lemma put_get_linearizable:
  "linearizable KvModel (on_key k [kv_op 0 1 ''x'' 0 '''' 10, kv_op 1 0 '''' 5 ''x'' 15])"
proof -
  have "linearization KvModel [kv_op 0 1 ''x'' 0 '''' 10, kv_op 1 0 '''' 5 ''x'' 15] [0, 1]"
    by (auto simp: linearization_def kv_op_def KvModel_def kv_Step_def less_Suc_eq numeral_2_eq_2)
  then show ?thesis using linearizable_Nil by (auto simp: on_key_kv_op on_key_Nil linearizable_def)
qed

lemma stale_get_not_linearizable: "\<not> linearizable KvModel (on_key ''k'' [kv_op 1 0 '''' 5 ''x'' 15])"
proof
  assume "linearizable KvModel (on_key ''k'' [kv_op 1 0 '''' 5 ''x'' 15])"
  then obtain xs where x: "linearization KvModel [kv_op 1 0 '''' 5 ''x'' 15] xs"
    by (auto simp: linearizable_def on_key_kv_op on_key_Nil)
  then have "set xs = {0}" by (simp add: linearization_def lessThan_Suc)
  then obtain ys where "xs = 0 # ys" by (cases xs) simp_all
  then show False using x by (simp add: linearization_def kv_op_def KvModel_def kv_Step_def)
qed

lemma kv_op_typed: "typed_ops kv_typed [kv_op 0 1 ''x'' 0 '''' 10, kv_op 1 0 '''' 5 ''x'' 15]" "typed_ops kv_typed [kv_op 1 0 '''' 5 ''x'' 15]"
  by (simp_all add: typed_ops_def kv_typed_def kv_op_def)

theorem search_terminates_witness:
  "\<exists>b l. checkSingle (fillDefault (\<lambda>_. []) (\<lambda>s. s) KvModel) (makeEntries time_sort [kv_op 0 1 ''x'' 0 [] 10, kv_op 1 0 [] 5 ''x'' 15]) True
     (\<lambda>j. j = 100) = Some (Inr (b, l))"
proof (rule search_terminates [OF time_sort_ok])
  show "\<exists>r. Step (fillDefault (\<lambda>_. []) (\<lambda>s. s) KvModel) s (Input x) (Output x) = Inr r"
    if "x \<in> set [kv_op 0 1 ''x'' 0 [] 10, kv_op 1 0 [] 5 ''x'' 15]" for x s
    using that kv_op_typed(1) by (intro kv.step_total) (auto simp: typed_ops_def)
qed (auto simp: kv_op_def kv.equal_exact)

theorem kv_check_decides_witness:
  "CheckOperations kv_rt KvModel [kv_op 0 1 ''x'' 0 '''' 10, kv_op 1 0 '''' 5 ''x'' 15] = Some (Inr True) \<and>
   CheckOperations kv_rt KvModel [kv_op 1 0 '''' 5 ''x'' 15] = Some (Inr False)"
  using kv_check_decides [OF kv_op_typed(1) kv_rt_ok] kv_check_decides [OF kv_op_typed(2) kv_rt_ok]
    put_get_linearizable stale_get_not_linearizable by auto

theorem kv_timeout_sound_witness:
  "\<exists>res. CheckOperationsTimeout kv_rt KvModel [kv_op 1 0 '''' 5 ''x'' 15] 0 = Some (Inr res) \<and> res = Illegal"
proof -
  obtain res where r: "CheckOperationsTimeout kv_rt KvModel [kv_op 1 0 [] 5 ''x'' 15] 0 = Some (Inr res)"
    "case res of Ok \<Rightarrow> \<forall>k. linearizable KvModel (on_key k [kv_op 1 0 [] 5 ''x'' 15])
               | Illegal \<Rightarrow> \<exists>k. \<not> linearizable KvModel (on_key k [kv_op 1 0 [] 5 ''x'' 15])
               | Unknown \<Rightarrow> (0::int) > 0"
    using kv_timeout_sound [OF kv_op_typed(2) kv_rt_ok, of 0] by auto
  then have "res = Illegal" using stale_get_not_linearizable by (cases res) auto
  then show ?thesis using r(1) by simp
qed

text \<open>A history without operations has no partitions, so no search sends a result and the check waits for ever, with or
  without verbose output, unless a timeout is set.
\<close>

theorem empty_history_blocks:
  "CheckOperations rt KvModel [] = None \<and> checkOperations rt KvModel [] verbose 0 = None"
proof -
  have "select_loop search 0 verbose 0 rs got ok = None" for search verbose rs got ok
    by (induction rs) (simp, metis (full_types) le0 less_irrefl recv.exhaust select_loop.simps(2) select_loop_skip)
  then have "checkOperations rt KvModel [] v 0 = None" for v
    by (simp add: checkOperations_def KvModel_def kv_Partition_def checkParallel_def Let_def)
  then show ?thesis by (simp add: CheckOperations_def)
qed

end
