(* ===== verification/Porcupine_Visual.thy ===== *)
theory Porcupine_Visual
  imports Porcupine_Kv
begin

text \<open>
  The data for the visualization of a check (\<^verbatim>\<open>porcupine/visualization.go\<close>).  The code replays every
  partial linearization and panics when the model does not accept one of its steps; the main result is
  that this does not happen with the information that the checker returns.
\<close>

section \<open>The data\<close>

record historyElement =
  h_ClientId :: int
  Start :: int
  End :: int
  Description :: string

record linearizationStep =
  Index :: int
  StateDescription :: string

record partitionVisualizationData =
  History :: "historyElement list"
  PartialLinearizations :: "linearizationStep list list"
  Largest :: "(int \<times> nat) list"

text \<open>A map of interface values; a missing key yields the nil interface \<open>nilv\<close>.\<close>

definition lookup_value :: "'v \<Rightarrow> (int \<times> 'v) list \<Rightarrow> int \<Rightarrow> 'v" where
  "lookup_value nilv m k = (case map_of m k of None \<Rightarrow> nilv | Some v \<Rightarrow> v)"

definition describe_operation :: "('v, 's) Model \<Rightarrow> 'v \<Rightarrow> 'v \<Rightarrow> string go" where
  "describe_operation model inp out = (case DescribeOperation model of None \<Rightarrow> Inl NilDereference | Some f \<Rightarrow> f inp out)"

definition describe_state :: "('v, 's) Model \<Rightarrow> 's \<Rightarrow> string go" where
  "describe_state model s = (case DescribeState model of None \<Rightarrow> Inl NilDereference | Some f \<Rightarrow> Inr (f s))"

fun vis_history ::
  "('v, 's) Model \<Rightarrow> 'v \<Rightarrow> 'v entry list \<Rightarrow> historyElement list \<Rightarrow> (int \<times> 'v) list \<Rightarrow> (int \<times> 'v) list \<Rightarrow>
   (historyElement list \<times> (int \<times> 'v) list \<times> (int \<times> 'v) list) go" where
  "vis_history model nilv [] history callValue returnValue = Inr (history, callValue, returnValue)"
| "vis_history model nilv (elem # es) history callValue returnValue =
     go_bind (slice_get history (e_id elem)) (\<lambda>h.
       if e_kind elem = callEntry then
         go_bind (slice_set history (e_id elem) (h\<lparr>h_ClientId := e_clientId elem, Start := e_time elem\<rparr>)) (\<lambda>history'.
           vis_history model nilv es history' (al_put (e_id elem) (e_value elem) callValue) returnValue)
       else
         go_bind (describe_operation model (lookup_value nilv callValue (e_id elem)) (e_value elem)) (\<lambda>d.
         go_bind (slice_set history (e_id elem) (h\<lparr>End := e_time elem, Description := d\<rparr>)) (\<lambda>history'.
           vis_history model nilv es history' callValue (al_put (e_id elem) (e_value elem) returnValue))))"

definition count_of :: "(int \<times> nat) list \<Rightarrow> int \<Rightarrow> nat" where
  "count_of m k = (case map_of m k of None \<Rightarrow> 0 | Some v \<Rightarrow> v)"

fun vis_partial ::
  "('v, 's) Model \<Rightarrow> 'v \<Rightarrow> (int \<times> 'v) list \<Rightarrow> (int \<times> 'v) list \<Rightarrow> nat \<Rightarrow> nat \<Rightarrow> int list \<Rightarrow> 's \<Rightarrow> linearizationStep list \<Rightarrow>
   (int \<times> nat) list \<Rightarrow> (int \<times> nat) list \<Rightarrow> (linearizationStep list \<times> (int \<times> nat) list \<times> (int \<times> nat) list) go" where
  "vis_partial model nilv callValue returnValue i len [] state steps largestIndex largestSize =
     Inr (steps, largestIndex, largestSize)"
| "vis_partial model nilv callValue returnValue i len (histId # partial) state steps largestIndex largestSize =
     go_bind (Step model state (lookup_value nilv callValue histId) (lookup_value nilv returnValue histId)) (\<lambda>(ok, state').
       if \<not> ok then Inl (Panic ''valid partial linearization returned non-ok result from model step'')
       else
         go_bind (describe_state model state') (\<lambda>stateDesc.
           let steps' = steps @ [\<lparr>Index = histId, StateDescription = stateDesc\<rparr>] in
           if count_of largestSize histId < len
           then vis_partial model nilv callValue returnValue i len partial state' steps'
                  (al_put histId i largestIndex) (al_put histId len largestSize)
           else vis_partial model nilv callValue returnValue i len partial state' steps' largestIndex largestSize))"

fun vis_partials ::
  "('v, 's) Model \<Rightarrow> 'v \<Rightarrow> (int \<times> 'v) list \<Rightarrow> (int \<times> 'v) list \<Rightarrow> nat \<Rightarrow> int list list \<Rightarrow> linearizationStep list list \<Rightarrow>
   (int \<times> nat) list \<Rightarrow> (int \<times> nat) list \<Rightarrow> (linearizationStep list list \<times> (int \<times> nat) list) go" where
  "vis_partials model nilv callValue returnValue i [] linearizations largestIndex largestSize = Inr (linearizations, largestIndex)"
| "vis_partials model nilv callValue returnValue i (partial # partials) linearizations largestIndex largestSize =
     go_bind (vis_partial model nilv callValue returnValue i (length partial) partial (Init model) [] largestIndex largestSize)
       (\<lambda>(steps, largestIndex', largestSize').
          vis_partials model nilv callValue returnValue (i + 1) partials (linearizations @ [steps]) largestIndex' largestSize')"

text \<open>\<open>sort_partials\<close> is \<^verbatim>\<open>sort.Slice\<close> by decreasing length; it sorts the slice of the caller.\<close>

definition vis_partition ::
  "(int list list \<Rightarrow> int list list) \<Rightarrow> ('v, 's) Model \<Rightarrow> 'v \<Rightarrow> 'v entry list \<Rightarrow> int list list \<Rightarrow> partitionVisualizationData go" where
  "vis_partition sort_partials model nilv es partials0 =
     go_bind (vis_history model nilv es (replicate (length es div 2) \<lparr>h_ClientId = 0, Start = 0, End = 0, Description = []\<rparr>) [] [])
       (\<lambda>(history, callValue, returnValue).
     go_bind (vis_partials model nilv callValue returnValue 0 (sort_partials partials0) [] [] []) (\<lambda>(linearizations, largestIndex).
       Inr \<lparr>History = history, PartialLinearizations = linearizations, Largest = largestIndex\<rparr>))"

fun vis_loop ::
  "(int list list \<Rightarrow> int list list) \<Rightarrow> ('v, 's) Model \<Rightarrow> 'v \<Rightarrow> 'v entry list list \<Rightarrow> int list list list \<Rightarrow> partitionVisualizationData list go" where
  "vis_loop sort_partials model nilv [] pls = Inr []"
| "vis_loop sort_partials model nilv (es # hist) [] = Inl IndexOutOfRange"
| "vis_loop sort_partials model nilv (es # hist) (partials # pls) =
     go_bind (vis_partition sort_partials model nilv es partials) (\<lambda>d.
     go_bind (vis_loop sort_partials model nilv hist pls) (\<lambda>ds. Inr (d # ds)))"

definition computeVisualizationData ::
  "(int list list \<Rightarrow> int list list) \<Rightarrow> 'v \<Rightarrow> ('v, 's) runtime \<Rightarrow> ('v, 's) Model \<Rightarrow> 'v linearizationInfo \<Rightarrow> partitionVisualizationData list go" where
  "computeVisualizationData sort_partials nilv rt model0 info =
     (let model = fillDefault (sprint_value rt) (sprint_state rt) model0
      in vis_loop sort_partials model nilv (i_history info) (partialLinearizations info))"

section \<open>The history of a partition\<close>

text \<open>Every return comes after its call, given the calls \<open>D\<close> seen before.\<close>

fun calls_first :: "int set \<Rightarrow> 'v entry list \<Rightarrow> bool" where
  "calls_first D [] \<longleftrightarrow> True"
| "calls_first D (e # es) \<longleftrightarrow> (if e_kind e then e_id e \<in> D \<and> calls_first D es else calls_first (insert (e_id e) D) es)"

lemma calls_firstI:
  "(\<And>p. p < length es \<Longrightarrow> e_kind (es ! p) \<Longrightarrow> e_id (es ! p) \<in> D \<or> (\<exists>q<p. \<not> e_kind (es ! q) \<and> e_id (es ! q) = e_id (es ! p))) \<Longrightarrow>
   calls_first D es"
proof (induction es arbitrary: D)
  case (Cons e es)
  have step: "e_id (es ! p) \<in> (if e_kind e then D else insert (e_id e) D) \<or> (\<exists>q<p. \<not> e_kind (es ! q) \<and> e_id (es ! q) = e_id (es ! p))"
    if "p < length es" "e_kind (es ! p)" for p
    using Cons.prems [of "Suc p"] that by (auto simp: less_Suc_eq_0_disj)
  show ?case
  proof (cases "e_kind e")
    case True
    then show ?thesis using Cons.prems [of 0] Cons.IH [of D] step by simp
  next
    case False
    then show ?thesis using Cons.IH [of "insert (e_id e) D"] step by simp
  qed
qed simp

definition holds_values :: "(int \<times> 'v) list \<Rightarrow> (int \<Rightarrow> 'v) \<Rightarrow> int set \<Rightarrow> bool" where
  "holds_values m f D \<longleftrightarrow> dom (map_of m) = D \<and> (\<forall>k\<in>D. map_of m k = Some (f k))"

lemma holds_values_put: "holds_values m f D \<Longrightarrow> holds_values (al_put k (f k) m) f (insert k D)"
  by (auto simp: holds_values_def)

lemma holds_values_lookup: "holds_values m f D \<Longrightarrow> k \<in> D \<Longrightarrow> lookup_value nilv m k = f k"
  by (auto simp: holds_values_def lookup_value_def)

lemma vis_history_ok:
  assumes "\<And>e. e \<in> set es \<Longrightarrow> 0 \<le> e_id e \<and> nat (e_id e) < n \<and> e_value e = (if e_kind e then rv (e_id e) else cv (e_id e))"
    and d: "\<And>i. 0 \<le> i \<Longrightarrow> nat i < n \<Longrightarrow> \<exists>d. describe_operation model (cv i) (rv i) = Inr d"
  shows "calls_first D es \<Longrightarrow> length history = n \<Longrightarrow> holds_values call cv D \<Longrightarrow> holds_values ret rv R \<Longrightarrow>
    \<exists>history' call' ret'. vis_history model nilv es history call ret = Inr (history', call', ret') \<and> length history' = n \<and>
      holds_values call' cv (D \<union> e_id ` {e \<in> set es. \<not> e_kind e}) \<and> holds_values ret' rv (R \<union> e_id ` {e \<in> set es. e_kind e})"
  using assms(1)
proof (induction es arbitrary: history call ret D R)
  case (Cons e es)
  have r: "in_range history (e_id e)" using Cons.prems(2) Cons.prems(5) [of e] by (auto simp: in_range_def nat_less_iff)
  have mem: "\<And>x. x \<in> set es \<Longrightarrow> 0 \<le> e_id x \<and> nat (e_id x) < n \<and> e_value x = (if e_kind x then rv (e_id x) else cv (e_id x))"
    using Cons.prems(5) by simp
  show ?case
  proof (cases "e_kind e")
    case False
    let ?h = "history[nat (e_id e) := (history ! nat (e_id e))\<lparr>h_ClientId := e_clientId e, Start := e_time e\<rparr>]"
    have "e_value e = cv (e_id e)" using Cons.prems(5) [of e] False by simp
    then have c: "holds_values (al_put (e_id e) (e_value e) call) cv (insert (e_id e) D)" using holds_values_put [OF Cons.prems(3)] by simp
    have s: "{x \<in> set (e # es). \<not> e_kind x} = insert e {x \<in> set es. \<not> e_kind x}" "{x \<in> set (e # es). e_kind x} = {x \<in> set es. e_kind x}"
      using False by auto
    from Cons.IH [where history = ?h, OF _ _ c Cons.prems(4) mem] show ?thesis
      using Cons.prems(1,2) r False unfolding s by auto
  next
    case True
    have ev: "e_value e = rv (e_id e)" using Cons.prems(5) [of e] True by simp
    then have c: "holds_values (al_put (e_id e) (e_value e) ret) rv (insert (e_id e) R)" using holds_values_put [OF Cons.prems(4)] by simp
    obtain t where t: "describe_operation model (lookup_value nilv call (e_id e)) (e_value e) = Inr t"
      using d [of "e_id e"] Cons.prems(5) [of e] holds_values_lookup [OF Cons.prems(3)] Cons.prems(1) True ev by auto
    let ?h = "history[nat (e_id e) := (history ! nat (e_id e))\<lparr>End := e_time e, Description := t\<rparr>]"
    have s: "{x \<in> set (e # es). e_kind x} = insert e {x \<in> set es. e_kind x}" "{x \<in> set (e # es). \<not> e_kind x} = {x \<in> set es. \<not> e_kind x}"
      using True by auto
    from Cons.IH [where history = ?h, OF _ _ Cons.prems(3) c mem] show ?thesis
      using Cons.prems(1,2) r True t unfolding s by auto
  qed
qed simp

section \<open>Replaying partial linearizations\<close>

lemma vis_partial_ok:
  assumes "holds_values call cv (int ` {..<n})" "holds_values ret rv (int ` {..<n})" "\<And>s. \<exists>d. describe_state model s = Inr d"
  shows "set xs \<subseteq> {..<n} \<Longrightarrow> run_seq (Step model) (\<lambda>i. cv (int i)) (\<lambda>i. rv (int i)) s xs \<Longrightarrow>
    \<exists>r. vis_partial model nilv call ret i len (map int xs) s steps largestIndex largestSize = Inr r"
proof (induction xs arbitrary: s steps largestIndex largestSize)
  case (Cons x xs)
  obtain s' where s': "Step model s (cv (int x)) (rv (int x)) = Inr (True, s')" "run_seq (Step model) (\<lambda>i. cv (int i)) (\<lambda>i. rv (int i)) s' xs"
    using Cons.prems(2) by (auto split: sum.splits)
  have lk: "lookup_value nilv call (int x) = cv (int x)" "lookup_value nilv ret (int x) = rv (int x)"
    using holds_values_lookup [OF assms(1)] holds_values_lookup [OF assms(2)] Cons.prems(1) by auto
  obtain d where "describe_state model s' = Inr d" using assms(3) by blast
  then show ?case using s'(1) lk Cons.IH [OF _ s'(2)] Cons.prems(1) by (simp add: Let_def del: go_bind_Inr_conv)
qed simp

lemma vis_partials_ok:
  assumes "\<And>q i len largestIndex largestSize. q \<in> set qs \<Longrightarrow>
    \<exists>r. vis_partial model nilv call ret i len q (Init model) [] largestIndex largestSize = Inr r"
  shows "\<exists>r. vis_partials model nilv call ret i qs ls largestIndex largestSize = Inr r"
  using assms
proof (induction qs arbitrary: i ls largestIndex largestSize)
  case (Cons q qs)
  obtain a b c where "vis_partial model nilv call ret i (length q) q (Init model) [] largestIndex largestSize = Inr (a, b, c)"
    using Cons.prems [of q i "length q" largestIndex largestSize] by auto
  then show ?case using Cons by (simp del: go_bind_Inr_conv)
qed simp

lemma makeEntries_calls_first:
  assumes s: "sorts_by_time sortf" and t: "\<And>i. i < length ops \<Longrightarrow> Call (ops ! i) \<le> Return (ops ! i)"
  shows "calls_first {} (makeEntries sortf ops)"
proof (rule calls_firstI)
  let ?es = "makeEntries sortf ops" and ?n = "2 * length ops"
  obtain ca ra where w: "wf_history ?es (length ops) ca ra" by (rule makeEntries_wf [OF s t]) simp_all
  have len: "length ?es = ?n" using w by (simp add: wf_history_def)
  have ent: "ent ?es a = ?es ! (?n - Suc a)" if "a < ?n" for a using that len by (simp add: ent_def rev_nth)
  fix p assume p: "p < length ?es" "e_kind (?es ! p)"
  have pa: "?es ! p = ent ?es (?n - Suc p)" "?n - Suc p < ?n" using p(1) len ent [of "?n - Suc p"] by simp_all
  obtain i where i: "i < length ops" "?n - Suc p = ra i"
  proof (rule wf_history_cases [OF w pa(2)])
    fix j assume "j < length ops" "?n - Suc p = ca j"
    then show thesis using p(2) pa(1) wf_historyD(3) [OF w, of j] by simp
  qed
  note d = wf_historyD [OF w i(1)]
  have "?n - Suc (ca i) < p" using d(1,2) i(2) p(1) len by linarith
  moreover have "\<not> e_kind (?es ! (?n - Suc (ca i))) \<and> e_id (?es ! (?n - Suc (ca i))) = e_id (?es ! p)"
    using d pa(1) i(2) ent [OF d(1)] by simp
  ultimately show "e_id (?es ! p) \<in> {} \<or> (\<exists>q<p. \<not> e_kind (?es ! q) \<and> e_id (?es ! q) = e_id (?es ! p))" by blast
qed

text \<open>A partition of the checker is visualized without a panic.\<close>

lemma vis_partition_ok:
  assumes s: "sorts_by_time sortf" and t: "\<And>x. x \<in> set ops \<Longrightarrow> Call x \<le> Return x"
    and d: "\<And>x. x \<in> set ops \<Longrightarrow> \<exists>d. describe_operation model (Input x) (Output x) = Inr d" "\<And>s. \<exists>d. describe_state model s = Inr d"
    and q: "\<And>q. q \<in> set (sort_partials qs) \<Longrightarrow> runnable model ops q"
  shows "\<exists>r. vis_partition sort_partials model nilv (makeEntries sortf ops) qs = Inr r"
proof -
  let ?n = "length ops" and ?es = "makeEntries sortf ops"
  let ?cv = "\<lambda>k. Input (ops ! nat k)" and ?rv = "\<lambda>k. Output (ops ! nat k)"
  let ?h0 = "replicate ?n \<lparr>h_ClientId = 0, Start = 0, End = 0, Description = []\<rparr>"
  have e: "0 \<le> e_id e \<and> nat (e_id e) < ?n \<and> e_value e = (if e_kind e then ?rv (e_id e) else ?cv (e_id e))" if "e \<in> set ?es" for e
    using that unfolding entries_set(1) [OF s] by auto
  have cf: "calls_first {} ?es" by (rule makeEntries_calls_first [OF s]) (simp add: t)
  have dd: "\<exists>d. describe_operation model (?cv i) (?rv i) = Inr d" if "0 \<le> i" "nat i < ?n" for i :: int using d(1) that by simp
  obtain h c r where v: "vis_history model nilv ?es ?h0 [] [] = Inr (h, c, r)"
    "holds_values c ?cv ({} \<union> e_id ` {e \<in> set ?es. \<not> e_kind e})" "holds_values r ?rv ({} \<union> e_id ` {e \<in> set ?es. e_kind e})"
    using vis_history_ok [where cv = ?cv and rv = ?rv and history = ?h0 and call = "[]" and ret = "[]" and R = "{}" and nilv = nilv,
        OF e dd cf] by (auto simp: holds_values_def)
  have ids: "e_id ` {e \<in> set ?es. \<not> e_kind e} = int ` {..<?n}" "e_id ` {e \<in> set ?es. e_kind e} = int ` {..<?n}"
    unfolding entries_set(1) [OF s] by (force simp: image_iff)+
  have "\<exists>r'. vis_partials model nilv c r 0 (sort_partials qs) [] [] [] = Inr r'"
  proof (rule vis_partials_ok)
    fix q i len largestIndex largestSize assume "q \<in> set (sort_partials qs)"
    then obtain xs where x: "q = map int xs" "set xs \<subseteq> {..<?n}" "run_seq (Step model) (\<lambda>i. Input (ops ! i)) (\<lambda>i. Output (ops ! i)) (Init model) xs"
      using q unfolding runnable_def by blast
    then show "\<exists>r'. vis_partial model nilv c r i len q (Init model) [] largestIndex largestSize = Inr r'"
      using vis_partial_ok [OF v(2,3) [unfolded ids, simplified] d(2) x(2)] by simp
  qed
  then show ?thesis using v(1) entries_set(2) [OF s, of ops] by (auto simp: vis_partition_def)
qed

lemma vis_loop_ok:
  assumes "list_all2 (\<lambda>es qs. \<exists>r. vis_partition sort_partials model nilv es qs = Inr r) hist pls"
  shows "\<exists>ds. vis_loop sort_partials model nilv hist pls = Inr ds \<and> length ds = length hist"
  using assms by (induction rule: list_all2_induct) (auto simp del: go_bind_Inr_conv)

lemma kv_describe:
  assumes "kv_typed inp out"
  shows "\<exists>d. describe_operation (fillDefault fv fs KvModel) inp out = Inr d"
proof -
  have "DescribeOperation (fillDefault fv fs KvModel) = Some kv_DescribeOperation"
    by (simp add: fillDefault_def KvModel_def Let_def)
  moreover obtain i o' where "inp = KvIn i" "out = KvOut o'" using assms by (auto simp: kv_typed_def)
  ultimately show ?thesis unfolding describe_operation_def kv_DescribeOperation_def by simp
qed

text \<open>C28: With a verbose check of a non-empty key/value history, under any timeout and schedule, the visualization of
  the information it returns does not panic: every partial linearization replays on the model, and there is one
  element of data for every key.
\<close>

theorem kv_visualization_safe:
  assumes "typed_ops kv_typed history" "runtime_ok rt (length history)" "history \<noteq> []"
    and sp: "\<And>xs. mset (sort_partials xs) = mset xs"
  shows "\<exists>res info data. CheckOperationsVerbose rt KvModel history timeout = Some (Inr (res, info)) \<and>
    computeVisualizationData sort_partials KvNil rt KvModel info = Inr data \<and> length data = card {k. on_key k history \<noteq> []}"
proof -
  let ?m = "fillDefault (sprint_value rt) (sprint_state rt) KvModel" and ?s = "sort_entries rt"
  obtain ks res info where ks: "set ks = {k. on_key k history \<noteq> []}" "distinct ks"
    and c: "checkOperations rt KvModel history True timeout = Some (Inr (res, info))"
    and a: "answer_ok ?m ?s (map (\<lambda>k. on_key k history) ks) True timeout res info"
    using kv_checkOperations [OF assms(1-3)] by blast
  have part: "\<exists>r. vis_partition sort_partials ?m KvNil (makeEntries ?s p) qs = Inr r"
    if p: "p \<in> set (map (\<lambda>k. on_key k history) ks)" and q: "\<forall>q\<in>set qs. runnable ?m p q" for p qs
  proof (rule vis_partition_ok)
    have t: "typed_ops kv_typed p" using p typed_on_key [OF assms(1)] by auto
    then show "\<And>x. x \<in> set p \<Longrightarrow> Call x \<le> Return x" by (auto simp: typed_ops_def)
    show "\<exists>d. describe_operation ?m (Input x) (Output x) = Inr d" if "x \<in> set p" for x
      by (rule kv_describe) (use t that in \<open>auto simp: typed_ops_def\<close>)
    show "\<exists>d. describe_state ?m s = Inr d" for s by (simp add: describe_state_def fillDefault_def KvModel_def Let_def)
    show "runnable ?m p q'" if "q' \<in> set (sort_partials qs)" for q' using that q mset_eq_setD [OF sp] by blast
  qed (use assms(2) in \<open>simp add: runtime_ok_def\<close>)
  have i: "i_history info = map (makeEntries ?s) (map (\<lambda>k. on_key k history) ks)"
    "list_all2 (\<lambda>p qs. \<forall>q\<in>set qs. runnable ?m p q) (map (\<lambda>k. on_key k history) ks) (partialLinearizations info)"
    using a by (simp_all add: answer_ok_def)
  have "list_all2 (\<lambda>es qs. \<exists>r. vis_partition sort_partials ?m KvNil es qs = Inr r) (i_history info) (partialLinearizations info)"
    unfolding i(1) list_all2_map1 [of _ "makeEntries ?s"] by (rule list.rel_mono_strong [OF i(2)]) (rule part)
  from vis_loop_ok [OF this] obtain ds where "vis_loop sort_partials ?m KvNil (i_history info) (partialLinearizations info) = Inr ds"
    "length ds = length (i_history info)" by blast
  moreover have "length (i_history info) = card {k. on_key k history \<noteq> []}" using ks i(1) distinct_card [OF ks(2)] by simp
  ultimately show ?thesis using c by (auto simp: CheckOperationsVerbose_def computeVisualizationData_def Let_def)
qed

theorem kv_visualization_safe_witness:
  "\<exists>res info data. CheckOperationsVerbose kv_rt KvModel [kv_op 0 1 ''x'' 0 [] 10, kv_op 1 0 [] 5 ''x'' 15] 7 = Some (Inr (res, info)) \<and>
     computeVisualizationData (\<lambda>xs. xs) KvNil kv_rt KvModel info = Inr data \<and> length data = 1"
proof -
  have "{k. on_key k [kv_op 0 1 ''x'' 0 [] 10, kv_op 1 0 [] 5 ''x'' 15] \<noteq> []} = {''k''}"
    by (auto simp: on_key_kv_op on_key_Nil)
  then show ?thesis using kv_visualization_safe [OF kv_op_typed(1) kv_rt_ok, of "\<lambda>xs. xs" 7] by simp
qed

end
