(* ===== verification/Labrpc.thy ===== *)
theory Labrpc
  imports Prelude
begin

text \<open>
  The simulated network of the labs (\<^verbatim>\<open>labrpc/labrpc.go\<close>).  Pointers to servers are addresses in a
  list of servers, the nil pointer is \<open>None\<close>.  A handler is a function from the state of the
  application and the encoded arguments to the new state and the encoded reply: the reflective call with
  the decoding and the encoding by \<^verbatim>\<open>labgob\<close> is behind it.  A call in flight is a value that records how
  far the goroutines of \<^verbatim>\<open>processReq\<close> have come; their steps and those of the network's owner interleave.
\<close>

section \<open>Services and servers\<close>

type_synonym bytes = "8 word list"

record reqMsg =
  endname :: string
  svcMeth :: string
  args :: bytes

record replyMsg =
  rep_ok :: bool
  rep_reply :: bytes

type_synonym 'st handler = "'st \<Rightarrow> bytes \<Rightarrow> 'st \<times> bytes"

text \<open>What reflection tells about a method: whether it is exported, its parameters and its results.\<close>

record 'st RpcMethod =
  PkgPath :: string
  NumIn :: nat
  In2_isPtr :: bool
  NumOut :: nat
  Func :: "'st handler"

record 'st Service =
  svc_name :: string
  methods :: "string \<Rightarrow> 'st RpcMethod option"

definition suitable :: "'st RpcMethod \<Rightarrow> bool" where
  "suitable m \<longleftrightarrow> \<not> (PkgPath m \<noteq> [] \<or> NumIn m \<noteq> 3 \<or> \<not> In2_isPtr m \<or> NumOut m \<noteq> 0)"

definition MakeService :: "string \<Rightarrow> (string \<times> 'st RpcMethod) list \<Rightarrow> 'st Service" where
  "MakeService name typ =
     \<lparr>svc_name = name,
      methods = foldl (\<lambda>ms (mname, m). if suitable m then ms(mname := Some m) else ms) (\<lambda>_. None) typ\<rparr>"

record 'st Server =
  services :: "string \<Rightarrow> 'st Service option"
  srv_count :: int

definition MakeServer :: "'st Server" where
  "MakeServer = \<lparr>services = (\<lambda>_. None), srv_count = 0\<rparr>"

definition AddService :: "'st Service \<Rightarrow> 'st Server \<Rightarrow> 'st Server" where
  "AddService svc rs = rs\<lparr>services := (services rs)(svc_name svc := Some svc)\<rparr>"

text \<open>\<^verbatim>\<open>strings.LastIndex\<close> for one character.\<close>

fun LastIndex :: "string \<Rightarrow> char \<Rightarrow> int" where
  "LastIndex [] c = - 1"
| "LastIndex (x # xs) c = (let i = LastIndex xs c in if i \<ge> 0 then i + 1 else if x = c then 0 else - 1)"

definition service_dispatch :: "'st Service \<Rightarrow> string \<Rightarrow> reqMsg \<Rightarrow> 'st \<Rightarrow> ('st \<times> replyMsg) go" where
  "service_dispatch svc methname req st =
     (case methods svc methname of
        Some m \<Rightarrow> (case Func m st (args req) of (st', rb) \<Rightarrow> Inr (st', \<lparr>rep_ok = True, rep_reply = rb\<rparr>))
      | None \<Rightarrow> Inl (Fatal ''labrpc.Service.dispatch(): unknown method''))"

definition server_dispatch :: "'st Server \<Rightarrow> reqMsg \<Rightarrow> 'st \<Rightarrow> ('st Server \<times> 'st \<times> replyMsg) go" where
  "server_dispatch rs req st =
     (let rs' = rs\<lparr>srv_count := srv_count rs + 1\<rparr>; dot = LastIndex (svcMeth req) CHR ''.'' in
      if dot < 0 then Inl IndexOutOfRange
      else
        let serviceName = take (nat dot) (svcMeth req); methodName = drop (nat dot + 1) (svcMeth req) in
        case services rs' serviceName of
          Some service \<Rightarrow> go_bind (service_dispatch service methodName req st) (\<lambda>(st', r). Inr (rs', st', r))
        | None \<Rightarrow> Inl (Fatal ''labrpc.Server.dispatch(): unknown service''))"

section \<open>The network\<close>

record Network =
  reliable :: bool
  longDelays :: bool
  longReordering :: bool
  ends :: "string set"
  enabled :: "string \<Rightarrow> bool"
  servers :: "int \<Rightarrow> nat option"
  connections :: "string \<Rightarrow> int option"
  net_done :: bool
  net_count :: "32 word"
  net_bytes :: "64 word"

definition MakeNetwork :: Network where
  "MakeNetwork =
     \<lparr>reliable = True, longDelays = False, longReordering = False, ends = {}, enabled = (\<lambda>_. False), servers = (\<lambda>_. None),
      connections = (\<lambda>_. None), net_done = False, net_count = 0, net_bytes = 0\<rparr>"

text \<open>Closing a closed channel panics.\<close>

definition Cleanup :: "Network \<Rightarrow> Network go" where
  "Cleanup rn = (if net_done rn then Inl (Panic ''close of closed channel'') else Inr (rn\<lparr>net_done := True\<rparr>))"

definition Reliable :: "bool \<Rightarrow> Network \<Rightarrow> Network" where
  "Reliable yes rn = rn\<lparr>reliable := yes\<rparr>"

definition LongReordering :: "bool \<Rightarrow> Network \<Rightarrow> Network" where
  "LongReordering yes rn = rn\<lparr>longReordering := yes\<rparr>"

definition LongDelays :: "bool \<Rightarrow> Network \<Rightarrow> Network" where
  "LongDelays yes rn = rn\<lparr>longDelays := yes\<rparr>"

definition readEndnameInfo :: "string \<Rightarrow> Network \<Rightarrow> bool \<times> int option \<times> nat option \<times> bool \<times> bool" where
  "readEndnameInfo e rn =
     (enabled rn e, connections rn e,
      (case connections rn e of None \<Rightarrow> None | Some sn \<Rightarrow> servers rn sn), reliable rn, longReordering rn)"

definition isServerDead :: "string \<Rightarrow> int \<Rightarrow> nat \<Rightarrow> Network \<Rightarrow> bool" where
  "isServerDead e servername server rn \<longleftrightarrow> \<not> enabled rn e \<or> servers rn servername \<noteq> Some server"

definition MakeEnd :: "string \<Rightarrow> Network \<Rightarrow> Network go" where
  "MakeEnd e rn =
     (if e \<in> ends rn then Inl (Fatal ''MakeEnd: already exists'')
      else Inr (rn\<lparr>ends := insert e (ends rn), enabled := (enabled rn)(e := False), connections := (connections rn)(e := None)\<rparr>))"

definition AddServer :: "int \<Rightarrow> nat \<Rightarrow> Network \<Rightarrow> Network" where
  "AddServer servername rs rn = rn\<lparr>servers := (servers rn)(servername := Some rs)\<rparr>"

definition DeleteServer :: "int \<Rightarrow> Network \<Rightarrow> Network" where
  "DeleteServer servername rn = rn\<lparr>servers := (servers rn)(servername := None)\<rparr>"

definition Connect :: "string \<Rightarrow> int \<Rightarrow> Network \<Rightarrow> Network" where
  "Connect e servername rn = rn\<lparr>connections := (connections rn)(e := Some servername)\<rparr>"

definition Enable :: "string \<Rightarrow> bool \<Rightarrow> Network \<Rightarrow> Network" where
  "Enable e b rn = rn\<lparr>enabled := (enabled rn)(e := b)\<rparr>"

definition GetCount :: "int \<Rightarrow> 'st Server list \<Rightarrow> Network \<Rightarrow> int go" where
  "GetCount servername hp rn =
     (case servers rn servername of None \<Rightarrow> Inl NilDereference | Some a \<Rightarrow> Inr (srv_count (hp ! a)))"

definition GetTotalCount :: "Network \<Rightarrow> int" where
  "GetTotalCount rn = sint (net_count rn)"

definition GetTotalBytes :: "Network \<Rightarrow> 64 word" where
  "GetTotalBytes rn = net_bytes rn"

section \<open>Calls in flight\<close>

text \<open>
  The phases of a call: accepted by the network; waiting for the handler of a server, with the
  settings read before; out of the waiting loop, with or without a reply; to be answered by a timer;
  answered.  \<open>c_todo\<close> says that the handler's goroutine has not run yet, \<open>c_result\<close> is its reply before it is
  received, and \<open>c_log\<close>, which the code does not have, lists the replies the handler has produced.
\<close>

datatype phase =
    Accepted
  | Waiting int nat bool bool
  | Leaving int nat bool bool "replyMsg option"
  | Timer replyMsg
  | Answered replyMsg

record flight =
  c_req :: reqMsg
  c_phase :: phase
  c_todo :: "nat option"
  c_result :: "replyMsg option"
  c_log :: "replyMsg list"

record 'st net_state =
  network :: Network
  server_heap :: "'st Server list"
  app :: 'st
  calls :: "flight list"

definition failed :: replyMsg where
  "failed = \<lparr>rep_ok = False, rep_reply = []\<rparr>"

text \<open>\<^verbatim>\<open>Call\<close> up to the wait, and the goroutine of \<^verbatim>\<open>MakeNetwork\<close> that accepts the request; after
  \<^verbatim>\<open>Cleanup\<close> the call returns false.\<close>

definition call_request :: "reqMsg \<Rightarrow> 'st net_state \<Rightarrow> 'st net_state" where
  "call_request req s =
     (let rn = network s in
      if net_done rn
      then s\<lparr>calls := calls s @ [\<lparr>c_req = req, c_phase = Answered failed, c_todo = None, c_result = None, c_log = []\<rparr>]\<rparr>
      else s\<lparr>network := rn\<lparr>net_count := net_count rn + 1, net_bytes := net_bytes rn + of_nat (length (args req))\<rparr>,
             calls := calls s @ [\<lparr>c_req = req, c_phase = Accepted, c_todo = None, c_result = None, c_log = []\<rparr>]\<rparr>)"

text \<open>\<^verbatim>\<open>processReq\<close>: \<open>dropReq\<close>, \<open>dropReply\<close> and \<open>delay\<close> are the random choices.\<close>

definition begin_req :: "bool \<Rightarrow> Network \<Rightarrow> flight \<Rightarrow> flight" where
  "begin_req dropReq rn c =
     (case readEndnameInfo (endname (c_req c)) rn of
        (True, Some servername, Some server, rel, longre) \<Rightarrow>
          if \<not> rel \<and> dropReq then c\<lparr>c_phase := Answered failed\<rparr>
          else c\<lparr>c_phase := Waiting servername server rel longre, c_todo := Some server\<rparr>
      | _ \<Rightarrow> c\<lparr>c_phase := Timer failed\<rparr>)"

definition run_handler :: "flight \<Rightarrow> nat \<Rightarrow> 'st Server list \<Rightarrow> 'st \<Rightarrow> ('st Server list \<times> 'st \<times> flight) go" where
  "run_handler c server hp st =
     go_bind (server_dispatch (hp ! server) (c_req c) st) (\<lambda>(rs', st', r).
       Inr (hp[server := rs'], st', c\<lparr>c_todo := None, c_result := Some r, c_log := c_log c @ [r]\<rparr>))"

definition receive_reply :: "flight \<Rightarrow> flight" where
  "receive_reply c =
     (case (c_phase c, c_result c) of
        (Waiting sn a rel longre, Some r) \<Rightarrow> c\<lparr>c_phase := Leaving sn a rel longre (Some r), c_result := None\<rparr>
      | _ \<Rightarrow> c)"

definition poll_server :: "Network \<Rightarrow> flight \<Rightarrow> flight" where
  "poll_server rn c =
     (case c_phase c of
        Waiting sn a rel longre \<Rightarrow>
          if isServerDead (endname (c_req c)) sn a rn then c\<lparr>c_phase := Leaving sn a rel longre None\<rparr> else c
      | _ \<Rightarrow> c)"

definition answer :: "replyMsg \<Rightarrow> flight \<Rightarrow> Network \<Rightarrow> flight \<times> Network" where
  "answer r c rn = (c\<lparr>c_phase := Answered r\<rparr>, rn\<lparr>net_bytes := net_bytes rn + of_nat (length (rep_reply r))\<rparr>)"

definition finish_req :: "bool \<Rightarrow> bool \<Rightarrow> Network \<Rightarrow> flight \<Rightarrow> flight \<times> Network" where
  "finish_req dropReply delay rn c =
     (case c_phase c of
        Leaving sn a rel longre rep \<Rightarrow>
          (case rep of
             None \<Rightarrow> (c\<lparr>c_phase := Answered failed\<rparr>, rn)
           | Some r \<Rightarrow>
               if isServerDead (endname (c_req c)) sn a rn then (c\<lparr>c_phase := Answered failed\<rparr>, rn)
               else if \<not> rel \<and> dropReply then (c\<lparr>c_phase := Answered failed\<rparr>, rn)
               else if longre \<and> delay then (c\<lparr>c_phase := Timer r\<rparr>, rn)
               else answer r c rn)
      | _ \<Rightarrow> (c, rn))"

definition fire_timer :: "Network \<Rightarrow> flight \<Rightarrow> flight \<times> Network" where
  "fire_timer rn c =
     (case c_phase c of
        Timer r \<Rightarrow> if rep_ok r then answer r c rn else (c\<lparr>c_phase := Answered r\<rparr>, rn)
      | _ \<Rightarrow> (c, rn))"

section \<open>The network as a transition system\<close>

datatype 'st net_event =
    ECall reqMsg
  | EBegin nat bool
  | EHandle nat
  | EReceive nat
  | EPoll nat
  | EFinish nat bool bool
  | EFire nat
  | EMakeEnd string
  | EConnect string int
  | EEnable string bool
  | EAddServer int "'st Server"
  | EDeleteServer int
  | EReliable bool
  | ELongReordering bool
  | ELongDelays bool
  | ECleanup

definition upd_call :: "nat \<Rightarrow> (flight \<Rightarrow> flight) \<Rightarrow> 'st net_state \<Rightarrow> 'st net_state" where
  "upd_call i f s = s\<lparr>calls := (calls s)[i := f (calls s ! i)]\<rparr>"

definition upd_both :: "nat \<Rightarrow> (Network \<Rightarrow> flight \<Rightarrow> flight \<times> Network) \<Rightarrow> 'st net_state \<Rightarrow> 'st net_state" where
  "upd_both i f s = (case f (network s) (calls s ! i) of (c, rn) \<Rightarrow> s\<lparr>network := rn, calls := (calls s)[i := c]\<rparr>)"

text \<open>When a goroutine can take its step.\<close>

fun net_enabled :: "'st net_event \<Rightarrow> 'st net_state \<Rightarrow> bool" where
  "net_enabled (EBegin i _) s \<longleftrightarrow> i < length (calls s) \<and> c_phase (calls s ! i) = Accepted"
| "net_enabled (EHandle i) s \<longleftrightarrow> i < length (calls s) \<and> c_todo (calls s ! i) \<noteq> None"
| "net_enabled (EReceive i) s \<longleftrightarrow> i < length (calls s) \<and> c_result (calls s ! i) \<noteq> None \<and>
     (case c_phase (calls s ! i) of Waiting _ _ _ _ \<Rightarrow> True | _ \<Rightarrow> False)"
| "net_enabled (EPoll i) s \<longleftrightarrow> i < length (calls s) \<and> (case c_phase (calls s ! i) of Waiting _ _ _ _ \<Rightarrow> True | _ \<Rightarrow> False)"
| "net_enabled (EFinish i _ _) s \<longleftrightarrow> i < length (calls s) \<and> (case c_phase (calls s ! i) of Leaving _ _ _ _ _ \<Rightarrow> True | _ \<Rightarrow> False)"
| "net_enabled (EFire i) s \<longleftrightarrow> i < length (calls s) \<and> (case c_phase (calls s ! i) of Timer _ \<Rightarrow> True | _ \<Rightarrow> False)"
| "net_enabled _ s \<longleftrightarrow> True"

fun net_exec :: "'st net_event \<Rightarrow> 'st net_state \<Rightarrow> 'st net_state go" where
  "net_exec (ECall req) s = Inr (call_request req s)"
| "net_exec (EBegin i dropReq) s = Inr (upd_call i (begin_req dropReq (network s)) s)"
| "net_exec (EHandle i) s =
     go_bind (run_handler (calls s ! i) (the (c_todo (calls s ! i))) (server_heap s) (app s)) (\<lambda>(hp, st, c).
       Inr (s\<lparr>server_heap := hp, app := st, calls := (calls s)[i := c]\<rparr>))"
| "net_exec (EReceive i) s = Inr (upd_call i receive_reply s)"
| "net_exec (EPoll i) s = Inr (upd_call i (poll_server (network s)) s)"
| "net_exec (EFinish i dropReply delay) s = Inr (upd_both i (finish_req dropReply delay) s)"
| "net_exec (EFire i) s = Inr (upd_both i fire_timer s)"
| "net_exec (EMakeEnd e) s = go_bind (MakeEnd e (network s)) (\<lambda>rn. Inr (s\<lparr>network := rn\<rparr>))"
| "net_exec (EConnect e sn) s = Inr (s\<lparr>network := Connect e sn (network s)\<rparr>)"
| "net_exec (EEnable e b) s = Inr (s\<lparr>network := Enable e b (network s)\<rparr>)"
| "net_exec (EAddServer sn srv) s =
     Inr (s\<lparr>network := AddServer sn (length (server_heap s)) (network s), server_heap := server_heap s @ [srv]\<rparr>)"
| "net_exec (EDeleteServer sn) s = Inr (s\<lparr>network := DeleteServer sn (network s)\<rparr>)"
| "net_exec (EReliable b) s = Inr (s\<lparr>network := Reliable b (network s)\<rparr>)"
| "net_exec (ELongReordering b) s = Inr (s\<lparr>network := LongReordering b (network s)\<rparr>)"
| "net_exec (ELongDelays b) s = Inr (s\<lparr>network := LongDelays b (network s)\<rparr>)"
| "net_exec ECleanup s = go_bind (Cleanup (network s)) (\<lambda>rn. Inr (s\<lparr>network := rn\<rparr>))"

definition net_step :: "'st net_state \<Rightarrow> 'st net_event \<Rightarrow> 'st net_state \<Rightarrow> bool" where
  "net_step s e t \<longleftrightarrow> net_enabled e s \<and> net_exec e s = Inr t"

definition net_init :: "'st net_state \<Rightarrow> bool" where
  "net_init s \<longleftrightarrow> network s = MakeNetwork \<and> server_heap s = [] \<and> calls s = []"

section \<open>At most one execution\<close>

text \<open>The handler's goroutine of a call that waits for server \<open>a\<close>: it has not run, or its reply is there.\<close>

definition pending :: "nat \<Rightarrow> flight \<Rightarrow> bool" where
  "pending a c \<longleftrightarrow> c_todo c = Some a \<and> c_result c = None \<and> c_log c = [] \<or>
     (\<exists>r. c_todo c = None \<and> c_result c = Some r \<and> c_log c = [r] \<and> rep_ok r)"

fun phase_ok :: "nat \<Rightarrow> flight \<Rightarrow> phase \<Rightarrow> bool" where
  "phase_ok n c Accepted \<longleftrightarrow> c_todo c = None \<and> c_result c = None \<and> c_log c = []"
| "phase_ok n c (Waiting sn a rel longre) \<longleftrightarrow> a < n \<and> pending a c"
| "phase_ok n c (Leaving sn a rel longre None) \<longleftrightarrow> a < n \<and> pending a c"
| "phase_ok n c (Leaving sn a rel longre (Some r)) \<longleftrightarrow> a < n \<and> c_todo c = None \<and> c_log c = [r] \<and> rep_ok r"
| "phase_ok n c (Timer r) \<longleftrightarrow> c_todo c = None \<and> (if rep_ok r then c_log c = [r] else c_log c = [])"
| "phase_ok n c (Answered r) \<longleftrightarrow>
     (if rep_ok r then c_todo c = None \<and> c_log c = [r]
      else (case c_todo c of None \<Rightarrow> length (c_log c) \<le> 1 | Some a \<Rightarrow> a < n \<and> c_log c = []))"

abbreviation flight_ok :: "nat \<Rightarrow> flight \<Rightarrow> bool" where
  "flight_ok n c \<equiv> phase_ok n c (c_phase c)"

definition net_inv :: "'st net_state \<Rightarrow> bool" where
  "net_inv s \<longleftrightarrow> (\<forall>sn a. servers (network s) sn = Some a \<longrightarrow> a < length (server_heap s)) \<and>
     (\<forall>c\<in>set (calls s). flight_ok (length (server_heap s)) c)"

lemma failed_ok [simp]: "\<not> rep_ok failed"
  by (simp add: failed_def)

lemma flight_ok_mono: "phase_ok n c ph \<Longrightarrow> n \<le> m \<Longrightarrow> phase_ok m c ph"
  by (induction n c ph rule: phase_ok.induct) (auto split: option.splits)

lemma begin_req_ok:
  assumes "c_phase c = Accepted" "flight_ok n c" "\<And>sn a. servers rn sn = Some a \<Longrightarrow> a < n"
  shows "flight_ok n (begin_req dropReq rn c)"
  using assms by (auto simp: begin_req_def readEndnameInfo_def pending_def split: option.splits bool.splits)

lemma receive_reply_ok: "flight_ok n c \<Longrightarrow> flight_ok n (receive_reply c)"
  by (auto simp: receive_reply_def pending_def split: phase.splits option.splits)

lemma poll_server_ok: "flight_ok n c \<Longrightarrow> flight_ok n (poll_server rn c)"
  by (auto simp: poll_server_def pending_def split: phase.splits)

lemma finish_req_ok: "flight_ok n c \<Longrightarrow> flight_ok n (fst (finish_req dropReply delay rn c))"
  by (auto simp: finish_req_def pending_def answer_def split: phase.splits option.splits)

lemma fire_timer_ok: "flight_ok n c \<Longrightarrow> flight_ok n (fst (fire_timer rn c))"
  by (auto simp: fire_timer_def answer_def split: phase.splits option.splits)

lemma server_dispatch_ok: "server_dispatch rs req st = Inr (rs', st', r) \<Longrightarrow> rep_ok r"
  by (auto simp: server_dispatch_def service_dispatch_def Let_def split: option.splits if_splits prod.splits)

lemma run_handler_ok:
  assumes "run_handler c a hp st = Inr (hp', st', c')" "c_todo c = Some a" "flight_ok n c"
  shows "flight_ok n c'" "length hp' = length hp"
proof -
  obtain rs' r where r: "server_dispatch (hp ! a) (c_req c) st = Inr (rs', st', r)"
      "hp' = hp[a := rs']" "c' = c\<lparr>c_todo := None, c_result := Some r, c_log := c_log c @ [r]\<rparr>"
    using assms(1) by (auto simp: run_handler_def)
  show "length hp' = length hp" by (simp add: r(2))
  show "flight_ok n c'"
    using assms(2,3) server_dispatch_ok [OF r(1)]
    by (cases "(n, c, c_phase c)" rule: phase_ok.cases; auto simp: r(3) pending_def split: option.splits if_splits)
qed

lemma network_servers [simp]:
  "servers (snd (finish_req dropReply delay rn c)) = servers rn" "servers (snd (fire_timer rn c)) = servers rn"
  "enabled (snd (finish_req dropReply delay rn c)) = enabled rn" "enabled (snd (fire_timer rn c)) = enabled rn"
  by (auto simp: finish_req_def fire_timer_def answer_def split: phase.splits option.splits)

lemma net_inv_servers: "net_inv s \<Longrightarrow> servers (network s) sn = Some a \<Longrightarrow> a < length (server_heap s)"
  by (simp add: net_inv_def)

lemma net_inv_flight: "net_inv s \<Longrightarrow> i < length (calls s) \<Longrightarrow> flight_ok (length (server_heap s)) (calls s ! i)"
  by (simp add: net_inv_def)

lemma net_inv_update:
  assumes "net_inv s" "length hp = length (server_heap s)" "servers rn = servers (network s)" "flight_ok (length (server_heap s)) c"
  shows "net_inv (s\<lparr>network := rn, server_heap := hp, app := st, calls := (calls s)[i := c]\<rparr>)"
  using assms set_update_subset_insert [of "calls s" i c] by (auto simp: net_inv_def)

lemma net_inv_upd_call:
  "net_inv s \<Longrightarrow> flight_ok (length (server_heap s)) (f (calls s ! i)) \<Longrightarrow> net_inv (upd_call i f s)"
  using net_inv_update [of s "server_heap s" "network s" "f (calls s ! i)" i "app s"] by (simp add: upd_call_def)

lemma net_inv_upd_both:
  assumes "net_inv s" "flight_ok (length (server_heap s)) (fst (f (network s) (calls s ! i)))" "servers (snd (f (network s) (calls s ! i))) = servers (network s)"
  shows "net_inv (upd_both i f s)"
  using net_inv_update [OF assms(1) refl assms(3,2), of i "app s"] by (simp add: upd_both_def case_prod_beta)

lemmas net_settings = MakeEnd_def Connect_def Enable_def Reliable_def LongReordering_def LongDelays_def Cleanup_def

lemma net_inv_network:
  "net_inv s \<Longrightarrow> servers rn = servers (network s) \<Longrightarrow> net_inv (s\<lparr>network := rn\<rparr>)"
  by (simp add: net_inv_def)

lemma net_inv_step:
  assumes inv: "net_inv s" and step: "net_step s e t"
  shows "net_inv t"
proof (cases e)
  case (ECall req)
  have "t = call_request req s" using step ECall by (simp add: net_step_def)
  then show ?thesis using inv by (auto simp: call_request_def net_inv_def Let_def)
next
  case (EBegin i d)
  then have i: "i < length (calls s)" "c_phase (calls s ! i) = Accepted" "t = upd_call i (begin_req d (network s)) s"
    using step by (auto simp: net_step_def)
  have "flight_ok (length (server_heap s)) (begin_req d (network s) (calls s ! i))"
    by (rule begin_req_ok [OF i(2) net_inv_flight [OF inv i(1)] net_inv_servers [OF inv]])
  then show ?thesis unfolding i(3) by (rule net_inv_upd_call [OF inv])
next
  case (EHandle i)
  then obtain a where a: "i < length (calls s)" "c_todo (calls s ! i) = Some a" using step by (auto simp: net_step_def)
  then obtain hp st c where r: "run_handler (calls s ! i) a (server_heap s) (app s) = Inr (hp, st, c)"
      "t = s\<lparr>server_heap := hp, app := st, calls := (calls s)[i := c]\<rparr>"
    using step EHandle by (auto simp: net_step_def)
  note ok = run_handler_ok [OF r(1) a(2) net_inv_flight [OF inv a(1)]]
  show ?thesis using net_inv_update [OF inv ok(2) refl ok(1), of i st] r(2) by simp
next
  case (EReceive i)
  then show ?thesis using step net_inv_upd_call [OF inv] receive_reply_ok net_inv_flight [OF inv] by (auto simp: net_step_def)
next
  case (EPoll i)
  then show ?thesis using step net_inv_upd_call [OF inv] poll_server_ok net_inv_flight [OF inv] by (auto simp: net_step_def)
next
  case (EFinish i dr dl)
  then show ?thesis using step net_inv_upd_both [OF inv finish_req_ok] net_inv_flight [OF inv] by (auto simp: net_step_def)
next
  case (EFire i)
  then show ?thesis using step net_inv_upd_both [OF inv fire_timer_ok] net_inv_flight [OF inv] by (auto simp: net_step_def)
next
  case (EAddServer sn srv)
  then have "t = s\<lparr>network := AddServer sn (length (server_heap s)) (network s), server_heap := server_heap s @ [srv]\<rparr>"
    using step by (simp add: net_step_def)
  then show ?thesis using inv flight_ok_mono [of "length (server_heap s)"]
    by (auto simp: net_inv_def AddServer_def less_Suc_eq split: if_splits)
next
  case (EDeleteServer sn)
  then show ?thesis using step inv by (auto simp: net_step_def net_inv_def DeleteServer_def split: if_splits)
qed (use step in
  \<open>auto simp: net_step_def net_settings split: if_splits intro!: net_inv_network [OF inv]\<close>)

interpretation net: invariant_system net_init net_step net_inv
  by unfold_locales (simp add: net_init_def net_inv_def MakeNetwork_def, rule net_inv_step)

lemma flight_ok_log: "flight_ok n c \<Longrightarrow> length (c_log c) \<le> 1"
  by (cases "(n, c, c_phase c)" rule: phase_ok.cases) (auto simp: pending_def split: if_splits option.splits)

text \<open>C12: Whatever the losses, delays, deletions and replacements of servers, the handler of a call runs at most once, and a
  call that succeeds has had its handler run exactly once and gets the reply that this run produced.\<close>

theorem at_most_once:
  assumes "reach net_init net_step s" "i < length (calls s)"
  shows "length (c_log (calls s ! i)) \<le> 1 \<and>
    (\<forall>r. c_phase (calls s ! i) = Answered r \<and> rep_ok r \<longrightarrow> c_log (calls s ! i) = [r] \<and> c_todo (calls s ! i) = None)"
  using net_inv_flight [OF net.reach_inv [OF assms(1)] assms(2)] flight_ok_log by auto

section \<open>Deleted servers\<close>

text \<open>
  The code checks the server once more before it answers, so that a client gets no positive reply from
  a server whose persisted state has been superseded.  A call that is bound to a server which is no longer
  registered stays without success; a new server under the same name is another pointer.
\<close>

definition cut_off :: "int \<Rightarrow> nat \<Rightarrow> nat \<Rightarrow> 'st net_state \<Rightarrow> bool" where
  "cut_off sn a i s \<longleftrightarrow> i < length (calls s) \<and> a < length (server_heap s) \<and> servers (network s) sn \<noteq> Some a \<and>
     (case c_phase (calls s ! i) of
        Waiting sn' a' _ _ \<Rightarrow> sn' = sn \<and> a' = a
      | Leaving sn' a' _ _ _ \<Rightarrow> sn' = sn \<and> a' = a
      | Answered r \<Rightarrow> \<not> rep_ok r
      | _ \<Rightarrow> False)"

lemma cut_off_same:
  assumes "cut_off sn a i s" "i < length (calls t)" "calls t ! i = calls s ! i" "length (server_heap s) \<le> length (server_heap t)"
    "servers (network t) sn \<noteq> Some a"
  shows "cut_off sn a i t"
  using assms by (simp add: cut_off_def)

lemma cut_off_calls:
  assumes "cut_off sn a i s" "calls t = (calls s)[j := c]" "length (server_heap t) = length (server_heap s)"
    "servers (network t) = servers (network s)" "j = i \<Longrightarrow> cut_off sn a i (s\<lparr>calls := (calls s)[i := c]\<rparr>)"
  shows "cut_off sn a i t"
  using assms by (cases "j = i") (auto simp: cut_off_def)

lemma cut_off_phase:
  assumes "cut_off sn a i s" "c_phase c = c_phase (calls s ! i)"
  shows "cut_off sn a i (s\<lparr>calls := (calls s)[i := c]\<rparr>)"
  using assms by (auto simp: cut_off_def)

lemma cut_off_poll: "cut_off sn a i s \<Longrightarrow> cut_off sn a i (s\<lparr>calls := (calls s)[i := poll_server rn (calls s ! i)]\<rparr>)"
  by (auto simp: cut_off_def poll_server_def split: phase.splits)

lemma cut_off_receive: "cut_off sn a i s \<Longrightarrow> cut_off sn a i (s\<lparr>calls := (calls s)[i := receive_reply (calls s ! i)]\<rparr>)"
  by (auto simp: cut_off_def receive_reply_def split: phase.splits option.splits)

lemma cut_off_finish:
  "cut_off sn a i s \<Longrightarrow> cut_off sn a i (s\<lparr>calls := (calls s)[i := fst (finish_req dropReply delay (network s) (calls s ! i))]\<rparr>)"
  by (auto simp: cut_off_def finish_req_def isServerDead_def split: phase.splits option.splits)

lemma cut_off_step:
  assumes cut: "cut_off sn a i s" and step: "net_step s e t"
  shows "cut_off sn a i t"
proof (cases e)
  case (ECall req)
  have t: "t = call_request req s" using step ECall by (simp add: net_step_def)
  have "i < length (calls s)" "servers (network s) sn \<noteq> Some a" using cut by (auto simp: cut_off_def)
  then show ?thesis unfolding t by (intro cut_off_same [OF cut]) (simp_all add: call_request_def Let_def nth_append)
next
  case (EBegin j d)
  then have j: "c_phase (calls s ! j) = Accepted" "t = upd_call j (begin_req d (network s)) s" using step by (auto simp: net_step_def)
  then have "j \<noteq> i" using cut by (auto simp: cut_off_def)
  then show ?thesis using cut_off_calls [OF cut, of t j] j(2) by (simp add: upd_call_def)
next
  case (EHandle j)
  then obtain b where b: "c_todo (calls s ! j) = Some b" using step by (auto simp: net_step_def)
  then obtain hp st c where r: "run_handler (calls s ! j) b (server_heap s) (app s) = Inr (hp, st, c)"
      "t = s\<lparr>server_heap := hp, app := st, calls := (calls s)[j := c]\<rparr>"
    using step EHandle by (auto simp: net_step_def)
  have "c_phase c = c_phase (calls s ! j)" "length hp = length (server_heap s)" using r(1) by (auto simp: run_handler_def)
  then show ?thesis using cut_off_calls [OF cut, of t j c] cut_off_phase [OF cut, of c] r(2) by auto
next
  case (EReceive j)
  then show ?thesis using step cut_off_calls [OF cut, of t j] cut_off_receive [OF cut] by (auto simp: net_step_def upd_call_def)
next
  case (EPoll j)
  then show ?thesis using step cut_off_calls [OF cut, of t j] cut_off_poll [OF cut] by (auto simp: net_step_def upd_call_def)
next
  case (EFinish j dr dl)
  then show ?thesis using step cut_off_calls [OF cut, of t j] cut_off_finish [OF cut]
    by (auto simp: net_step_def upd_both_def case_prod_beta)
next
  case (EFire j)
  then have "j \<noteq> i" using cut step by (auto simp: net_step_def cut_off_def split: phase.splits)
  then show ?thesis using step EFire cut_off_calls [OF cut, of t j] by (auto simp: net_step_def upd_both_def case_prod_beta)
next
  case (EAddServer sn' srv)
  have "i < length (calls s)" "servers (network s) sn \<noteq> Some a" "a < length (server_heap s)" using cut by (auto simp: cut_off_def)
  then show ?thesis using step EAddServer by (intro cut_off_same [OF cut]) (auto simp: net_step_def AddServer_def split: if_splits)
next
  case (EDeleteServer sn')
  have "i < length (calls s)" "servers (network s) sn \<noteq> Some a" using cut by (auto simp: cut_off_def)
  then show ?thesis using step EDeleteServer by (intro cut_off_same [OF cut]) (auto simp: net_step_def DeleteServer_def split: if_splits)
qed (use step cut in \<open>auto simp: net_step_def net_settings cut_off_def split: if_splits\<close>)

text \<open>C16: A call that waits for a server when the server is deleted or replaced never succeeds afterwards, whatever happens on the
  network, even if a new server is registered under the same name.\<close>

theorem no_success_after_delete:
  assumes "reach net_init net_step s" "i < length (calls s)" "c_phase (calls s ! i) = Waiting sn a rel longre"
    and "net_exec (EDeleteServer sn) s = Inr s'" "run_of net_step s' es t" "c_phase (calls t ! i) = Answered r"
  shows "\<not> rep_ok r"
proof -
  have "a < length (server_heap s)" using net_inv_flight [OF net.reach_inv [OF assms(1)] assms(2)] assms(3) by simp
  then have "cut_off sn a i s'" using assms(2-4) by (auto simp: cut_off_def DeleteServer_def)
  with assms(5) have "cut_off sn a i t" by (induction rule: run_of.induct) (auto intro: cut_off_step)
  then show ?thesis using assms(6) by (simp add: cut_off_def)
qed

section \<open>A call over a reliable network\<close>

definition call_events :: "reqMsg \<Rightarrow> nat \<Rightarrow> 'st net_event list" where
  "call_events req i = [ECall req, EBegin i False, EHandle i, EReceive i, EFinish i False False]"

lemma net_stepI: "net_enabled e s \<Longrightarrow> net_exec e s = Inr t \<Longrightarrow> net_step s e t"
  by (simp add: net_step_def)

lemma reliable_call:
  assumes "enabled (network s) (endname req)" "connections (network s) (endname req) = Some sn" "servers (network s) sn = Some a"
    and "\<not> net_done (network s)" "server_dispatch (server_heap s ! a) req (app s) = Inr (rs', st', r)"
    and "\<not> longReordering (network s)" "reliable (network s)"
  shows "\<exists>t. run_of net_step s (call_events req (length (calls s))) t \<and> app t = st' \<and> c_phase (calls t ! length (calls s)) = Answered r \<and>
    length (calls t) = Suc (length (calls s))"
proof -
  let ?i = "length (calls s)"
  let ?rn = "(network s)\<lparr>net_count := net_count (network s) + 1, net_bytes := net_bytes (network s) + of_nat (length (args req))\<rparr>"
  let ?c = "\<lambda>ph todo res log. \<lparr>c_req = req, c_phase = ph, c_todo = todo, c_result = res, c_log = log\<rparr>"
  let ?s = "\<lambda>c. s\<lparr>network := ?rn, calls := calls s @ [c]\<rparr>"
  let ?t = "\<lambda>c. s\<lparr>network := ?rn, server_heap := (server_heap s)[a := rs'], app := st', calls := calls s @ [c]\<rparr>"
  have "net_step s (ECall req) (?s (?c Accepted None None []))"
    using assms by (simp add: net_step_def call_request_def Let_def)
  moreover have "net_step (?s (?c Accepted None None [])) (EBegin ?i False) (?s (?c (Waiting sn a True False) (Some a) None []))"
    using assms by (simp add: net_step_def upd_call_def begin_req_def readEndnameInfo_def list_update_append)
  moreover have "net_step (?s (?c (Waiting sn a True False) (Some a) None [])) (EHandle ?i) (?t (?c (Waiting sn a True False) None (Some r) [r]))"
    using assms by (simp add: net_step_def run_handler_def list_update_append)
  moreover have "net_step (?t (?c (Waiting sn a True False) None (Some r) [r])) (EReceive ?i) (?t (?c (Leaving sn a True False (Some r)) None None [r]))"
    by (simp add: net_step_def upd_call_def receive_reply_def list_update_append)
  moreover have "\<exists>t. net_step (?t (?c (Leaving sn a True False (Some r)) None None [r])) (EFinish ?i False False) t \<and> app t = st' \<and>
      c_phase (calls t ! ?i) = Answered r \<and> length (calls t) = Suc ?i"
    using assms by (simp add: net_step_def upd_both_def finish_req_def isServerDead_def answer_def)
  ultimately show ?thesis unfolding call_events_def run_of_Cons run_of_Nil by blast
qed

text \<open>A network with one client end and one server that echoes its arguments and counts its calls.\<close>

definition echo_server :: "nat Server" where
  "echo_server = AddService (MakeService ''Echo''
     [(''Echo'', \<lparr>PkgPath = [], NumIn = 3, In2_isPtr = True, NumOut = 0, Func = (\<lambda>n b. (n + 1, b))\<rparr>)]) MakeServer"

definition echo_req :: reqMsg where
  "echo_req = \<lparr>endname = ''e'', svcMeth = ''Echo.Echo'', args = [7]\<rparr>"

definition echo_start :: "nat net_state" where
  "echo_start = \<lparr>network = MakeNetwork, server_heap = [], app = 0, calls = []\<rparr>"

definition echo_setup :: "nat net_event list" where
  "echo_setup = [EAddServer 1 echo_server, EMakeEnd ''e'', EConnect ''e'' 1, EEnable ''e'' True]"

text \<open>Execution of a list of events.\<close>

fun net_run :: "'st net_event list \<Rightarrow> 'st net_state \<Rightarrow> 'st net_state option" where
  "net_run [] s = Some s"
| "net_run (e # es) s = (if net_enabled e s then (case net_exec e s of Inl _ \<Rightarrow> None | Inr t \<Rightarrow> net_run es t) else None)"

lemma net_run_of: "net_run es s = Some t \<Longrightarrow> run_of net_step s es t"
  by (induction es s rule: net_run.induct) (auto simp: run_of_Cons net_step_def split: if_splits sum.splits)

lemma echo_reach: "net_run es echo_start = Some t \<Longrightarrow> reach net_init net_step t"
  using reach_run [OF net_run_of reach_init [of net_init echo_start]] by (auto simp: net_init_def echo_start_def)

lemma echo_answered:
  "case net_run (echo_setup @ call_events echo_req 0) echo_start of
     None \<Rightarrow> False | Some t \<Rightarrow> length (calls t) = 1 \<and> c_phase (calls t ! 0) = Answered \<lparr>rep_ok = True, rep_reply = [7]\<rparr> \<and> app t = 1"
  by code_simp

theorem at_most_once_witness:
  "\<exists>s. reach net_init net_step s \<and> length (calls s) = 1 \<and> app s = (1 :: nat) \<and> c_log (calls s ! 0) = [\<lparr>rep_ok = True, rep_reply = [7]\<rparr>]"
proof -
  obtain t where t: "net_run (echo_setup @ call_events echo_req 0) echo_start = Some t" "length (calls t) = 1"
      "c_phase (calls t ! 0) = Answered \<lparr>rep_ok = True, rep_reply = [7]\<rparr>" "app t = 1"
    using echo_answered by (auto split: option.splits)
  then show ?thesis using at_most_once [OF echo_reach [OF t(1)], of 0] echo_reach [OF t(1)] by auto
qed

lemma echo_waiting:
  "case net_run (echo_setup @ [ECall echo_req, EBegin 0 False]) echo_start of
     None \<Rightarrow> False | Some s \<Rightarrow> length (calls s) = 1 \<and> c_phase (calls s ! 0) = Waiting 1 0 True False \<and>
       (case net_exec (EDeleteServer 1) s of Inl _ \<Rightarrow> False | Inr s' \<Rightarrow>
          (case net_run [EHandle 0, EAddServer 1 echo_server, EReceive 0, EFinish 0 False False] s' of
             None \<Rightarrow> False | Some t \<Rightarrow> c_phase (calls t ! 0) = Answered failed \<and> app t = 1))"
  by code_simp

theorem no_success_after_delete_witness:
  "\<exists>s s' t r. reach net_init net_step s \<and> c_phase (calls s ! 0) = Waiting 1 0 True False \<and> net_exec (EDeleteServer 1) s = Inr s' \<and>
     run_of net_step s' [EHandle 0, EAddServer 1 echo_server, EReceive 0, EFinish 0 False False] t \<and> app t = (1 :: nat) \<and>
     c_phase (calls t ! 0) = Answered r \<and> \<not> rep_ok r"
proof -
  obtain s s' t where s: "net_run (echo_setup @ [ECall echo_req, EBegin 0 False]) echo_start = Some s" "length (calls s) = 1"
      "c_phase (calls s ! 0) = Waiting 1 0 True False" "net_exec (EDeleteServer 1) s = Inr s'"
      "net_run [EHandle 0, EAddServer 1 echo_server, EReceive 0, EFinish 0 False False] s' = Some t"
      "c_phase (calls t ! 0) = Answered failed" "app t = 1"
    using echo_waiting by (auto split: option.splits sum.splits)
  have "\<not> rep_ok failed"
    using no_success_after_delete [OF echo_reach [OF s(1)] _ s(3,4) net_run_of [OF s(5)] s(6)] s(2) by simp
  then show ?thesis using echo_reach [OF s(1)] s(3,4,6,7) net_run_of [OF s(5)] by blast
qed

end
