(* ===== verification/Raft_Config.thy ===== *)
theory Raft_Config
  imports Raft Labrpc
begin

text \<open>
  The test configuration of the Raft lab (\<^verbatim>\<open>raft/config.go\<close>): a cluster on the simulated network whose
  servers are started, crashed, connected and disconnected, and the checks of what the servers commit.
  Commands are values of any type; the random names of client ends and the decoder of snapshots are
  parameters.  \<^verbatim>\<open>t.Fatal\<close> and \<^verbatim>\<open>log.Fatal\<close> end the run and are failures.
\<close>

section \<open>State\<close>

record 'v ApplyMsg =
  CommandValid :: bool
  am_Command :: 'v
  CommandIndex :: int
  SnapshotValid :: bool
  am_Snapshot :: "string option"
  SnapshotTerm :: int
  SnapshotIndex :: int

record 'v config =
  cfg_net :: Network
  cfg_n :: nat
  cfg_rafts :: "Raft option list"
  applyErr :: "string list"
  connected :: "bool list"
  saved :: "Persister option list"
  endnames :: "string list option list"
  logs :: "(int \<Rightarrow> 'v option) list"
  cfg_lastApplied :: "int list"
  maxIndex :: int
  finished :: bool
  next_server :: nat

text \<open>Indexing a nil slice fails like any other index out of range.\<close>

definition end_name :: "'v config \<Rightarrow> nat \<Rightarrow> nat \<Rightarrow> string go" where
  "end_name cfg i j =
     go_bind (slice_get (endnames cfg) (int i)) (\<lambda>es. case es of None \<Rightarrow> Inl IndexOutOfRange | Some names \<Rightarrow> slice_get names (int j))"

definition set_link :: "bool \<Rightarrow> nat \<Rightarrow> nat \<Rightarrow> 'v config \<Rightarrow> 'v config go" where
  "set_link b i j cfg = go_bind (end_name cfg i j) (\<lambda>e. Inr (cfg\<lparr>cfg_net := Enable e b (cfg_net cfg)\<rparr>))"

section \<open>Connections\<close>

fun connect_loop :: "(nat \<Rightarrow> nat \<times> nat) \<Rightarrow> nat list \<Rightarrow> 'v config \<Rightarrow> 'v config go" where
  "connect_loop link [] cfg = Inr cfg"
| "connect_loop link (j # js) cfg =
     go_bind (slice_get (connected cfg) (int j)) (\<lambda>c.
       if c then go_bind (set_link True (fst (link j)) (snd (link j)) cfg) (connect_loop link js)
       else connect_loop link js cfg)"

definition connect :: "nat \<Rightarrow> 'v config \<Rightarrow> 'v config go" where
  "connect i cfg =
     go_bind (slice_set (connected cfg) (int i) True) (\<lambda>cs.
     go_bind (connect_loop (\<lambda>j. (i, j)) [0..<cfg_n cfg] (cfg\<lparr>connected := cs\<rparr>))
       (connect_loop (\<lambda>j. (j, i)) [0..<cfg_n cfg]))"

fun disconnect_loop :: "(nat \<Rightarrow> nat \<times> nat) \<Rightarrow> nat list \<Rightarrow> 'v config \<Rightarrow> 'v config go" where
  "disconnect_loop link [] cfg = Inr cfg"
| "disconnect_loop link (j # js) cfg =
     go_bind (slice_get (endnames cfg) (int (fst (link j)))) (\<lambda>es.
       if es \<noteq> None then go_bind (set_link False (fst (link j)) (snd (link j)) cfg) (disconnect_loop link js)
       else disconnect_loop link js cfg)"

definition disconnect :: "nat \<Rightarrow> 'v config \<Rightarrow> 'v config go" where
  "disconnect i cfg =
     go_bind (slice_set (connected cfg) (int i) False) (\<lambda>cs.
     go_bind (disconnect_loop (\<lambda>j. (i, j)) [0..<cfg_n cfg] (cfg\<lparr>connected := cs\<rparr>))
       (disconnect_loop (\<lambda>j. (j, i)) [0..<cfg_n cfg]))"

section \<open>Starting and crashing servers\<close>

definition crash1 :: "nat \<Rightarrow> 'v config \<Rightarrow> 'v config go" where
  "crash1 i cfg0 =
     go_bind (disconnect i cfg0) (\<lambda>cfg1.
     let cfg2 = cfg1\<lparr>cfg_net := DeleteServer (int i) (cfg_net cfg1)\<rparr> in
     go_bind (slice_get (saved cfg2) (int i)) (\<lambda>ps.
     go_bind (slice_set (cfg_rafts cfg2) (int i) None) (\<lambda>rs.
     go_bind (slice_set (saved cfg2) (int i)
                (case ps of None \<Rightarrow> None
                 | Some p \<Rightarrow> (let q = Copy p in Some (Save MakePersister (ReadRaftState q) (ReadSnapshot q))))) (\<lambda>ss.
       Inr (cfg2\<lparr>saved := ss, cfg_rafts := rs\<rparr>)))))"

fun make_ends :: "(string \<times> nat) list \<Rightarrow> Network \<Rightarrow> Network go" where
  "make_ends [] rn = Inr rn"
| "make_ends ((e, j) # es) rn = go_bind (MakeEnd e rn) (\<lambda>rn'. make_ends es (Connect e (int j) rn'))"

fun xlog_map :: "int \<Rightarrow> 'v list \<Rightarrow> (int \<Rightarrow> 'v option) \<Rightarrow> int \<Rightarrow> 'v option" where
  "xlog_map j [] m = m"
| "xlog_map j (v # vs) m = xlog_map (j + 1) vs (m(j := Some v))"

text \<open>The error string, empty for success, and the new state; \<open>decode\<close> is the decoder of snapshots.\<close>

definition ingestSnap ::
  "(string \<Rightarrow> (int \<times> 'v list) option) \<Rightarrow> nat \<Rightarrow> string option \<Rightarrow> int \<Rightarrow> 'v config \<Rightarrow> (string \<times> 'v config) go" where
  "ingestSnap decode i snapshot0 index cfg =
     (case snapshot0 of
        None \<Rightarrow> Inl (Fatal ''nil snapshot'')
      | Some s \<Rightarrow>
          (case decode s of
             None \<Rightarrow> Inl (Fatal ''snapshot decode error'')
           | Some (lastIncludedIndex, xlog) \<Rightarrow>
               if index \<noteq> - 1 \<and> index \<noteq> lastIncludedIndex
               then Inr (''server '' @ Itoa (int i) @ '' snapshot doesn't match m.SnapshotIndex'', cfg)
               else
                 go_bind (slice_set (logs cfg) (int i) (xlog_map 0 xlog (\<lambda>_. None))) (\<lambda>ls.
                 go_bind (slice_set (cfg_lastApplied cfg) (int i) lastIncludedIndex) (\<lambda>la.
                   Inr ([], cfg\<lparr>logs := ls, cfg_lastApplied := la\<rparr>)))))"

definition restore_saved ::
  "(string \<Rightarrow> (int \<times> 'v list) option) \<Rightarrow> nat \<Rightarrow> 'v config \<Rightarrow> 'v config go" where
  "restore_saved decode i cfg =
     go_bind (slice_get (saved cfg) (int i)) (\<lambda>ps.
       case ps of
         None \<Rightarrow> go_bind (slice_set (saved cfg) (int i) (Some MakePersister)) (\<lambda>ss. Inr (cfg\<lparr>saved := ss\<rparr>))
       | Some p \<Rightarrow>
           go_bind (slice_set (saved cfg) (int i) (Some (Copy p))) (\<lambda>ss.
             let cfg1 = cfg\<lparr>saved := ss\<rparr>; snap = ReadSnapshot (Copy p) in
             if length snap > 0 then
               go_bind (ingestSnap decode i (Some snap) (- 1) cfg1) (\<lambda>(err, cfg2).
                 if err \<noteq> [] then Inl (Fatal err) else Inr cfg2)
             else Inr cfg1))"

text \<open>\<open>names\<close> are the random strings for the new client ends.\<close>

definition start1 ::
  "(string \<Rightarrow> (int \<times> 'v list) option) \<Rightarrow> (nat \<Rightarrow> string) \<Rightarrow> nat \<Rightarrow> 'v config \<Rightarrow> 'v config go" where
  "start1 decode names i cfg0 =
     go_bind (crash1 i cfg0) (\<lambda>cfg1.
     go_bind (slice_set (endnames cfg1) (int i) (Some (map names [0..<cfg_n cfg1]))) (\<lambda>es.
     go_bind (make_ends (map (\<lambda>j. (names j, j)) [0..<cfg_n cfg1]) (cfg_net cfg1)) (\<lambda>rn.
     go_bind (slice_set (cfg_lastApplied cfg1) (int i) 0) (\<lambda>la.
     go_bind (restore_saved decode i (cfg1\<lparr>endnames := es, cfg_net := rn, cfg_lastApplied := la\<rparr>)) (\<lambda>cfg2.
     go_bind (slice_get (saved cfg2) (int i)) (\<lambda>ps.
     go_bind (slice_set (cfg_rafts cfg2) (int i) (Some (Make (cfg_n cfg2) (int i) (the ps)))) (\<lambda>rs.
       Inr (cfg2\<lparr>cfg_rafts := rs, cfg_net := AddServer (int i) (next_server cfg2) (cfg_net cfg2),
                 next_server := next_server cfg2 + 1\<rparr>))))))))"

fun for_servers :: "(nat \<Rightarrow> 'v config \<Rightarrow> 'v config go) \<Rightarrow> nat list \<Rightarrow> 'v config \<Rightarrow> 'v config go" where
  "for_servers f [] cfg = Inr cfg"
| "for_servers f (i # is) cfg = go_bind (f i cfg) (for_servers f is)"

definition empty_config :: "nat \<Rightarrow> 'v config" where
  "empty_config n =
     \<lparr>cfg_net = MakeNetwork, cfg_n = n, cfg_rafts = replicate n None, applyErr = replicate n [], connected = replicate n False,
      saved = replicate n None, endnames = replicate n None, logs = replicate n (\<lambda>_. None), cfg_lastApplied = replicate n 0,
      maxIndex = 0, finished = False, next_server = 0\<rparr>"

definition make_config ::
  "(string \<Rightarrow> (int \<times> 'v list) option) \<Rightarrow> (nat \<Rightarrow> nat \<Rightarrow> string) \<Rightarrow> nat \<Rightarrow> bool \<Rightarrow> 'v config go" where
  "make_config decode names n unreliable =
     (let cfg = empty_config n; rn = LongDelays True (Reliable (\<not> unreliable) (cfg_net cfg)) in
      go_bind (for_servers (\<lambda>i. start1 decode (names i) i) [0..<n] (cfg\<lparr>cfg_net := rn\<rparr>)) (for_servers connect [0..<n]))"

text \<open>\<open>t_failed\<close> and \<open>since\<close> are the test's failure flag and the nanoseconds since the configuration was made.\<close>

definition checkTimeout :: "bool \<Rightarrow> int \<Rightarrow> unit go" where
  "checkTimeout t_failed since =
     (if \<not> t_failed \<and> since > 120 * 1000000000 then Inl (Fatal ''test took longer than 120 seconds'') else Inr ())"

definition checkFinished :: "'v config \<Rightarrow> bool" where
  "checkFinished cfg = finished cfg"

definition cleanup :: "bool \<Rightarrow> int \<Rightarrow> 'v config \<Rightarrow> 'v config go" where
  "cleanup t_failed since cfg =
     go_bind (Cleanup (cfg_net cfg)) (\<lambda>rn.
     go_bind (checkTimeout t_failed since) (\<lambda>_.
       Inr (cfg\<lparr>finished := True, cfg_rafts := map (map_option Kill) (cfg_rafts cfg), cfg_net := rn\<rparr>)))"

definition setunreliable :: "bool \<Rightarrow> 'v config \<Rightarrow> 'v config" where
  "setunreliable unrel cfg = cfg\<lparr>cfg_net := Reliable (\<not> unrel) (cfg_net cfg)\<rparr>"

definition setlongreordering :: "bool \<Rightarrow> 'v config \<Rightarrow> 'v config" where
  "setlongreordering longrel cfg = cfg\<lparr>cfg_net := LongReordering longrel (cfg_net cfg)\<rparr>"

section \<open>Committed entries\<close>

text \<open>\<open>fmtv\<close> is what \<^verbatim>\<open>%v\<close> prints for a command.\<close>

fun check_logs_loop ::
  "('v \<Rightarrow> string) \<Rightarrow> nat \<Rightarrow> 'v ApplyMsg \<Rightarrow> nat \<Rightarrow> (int \<Rightarrow> 'v option) list \<Rightarrow> string \<Rightarrow> string" where
  "check_logs_loop fmtv i m j [] err_msg = err_msg"
| "check_logs_loop fmtv i m j (lg # ls) err_msg =
     check_logs_loop fmtv i m (Suc j) ls
       (case lg (CommandIndex m) of
          None \<Rightarrow> err_msg
        | Some old \<Rightarrow>
            if old \<noteq> am_Command m
            then ''commit index='' @ Itoa (CommandIndex m) @ '' server='' @ Itoa (int i) @ '' '' @ fmtv (am_Command m) @
                 '' != server='' @ Itoa (int j) @ '' '' @ fmtv old
            else err_msg)"

definition checkLogs :: "('v \<Rightarrow> string) \<Rightarrow> nat \<Rightarrow> 'v ApplyMsg \<Rightarrow> 'v config \<Rightarrow> (string \<times> bool \<times> 'v config) go" where
  "checkLogs fmtv i m cfg =
     (let err_msg = check_logs_loop fmtv i m 0 (logs cfg) [] in
      go_bind (slice_get (logs cfg) (int i)) (\<lambda>lg.
      let prevok = (lg (CommandIndex m - 1) \<noteq> None) in
      go_bind (slice_set (logs cfg) (int i) (lg(CommandIndex m := Some (am_Command m)))) (\<lambda>ls.
        Inr (err_msg, prevok,
             cfg\<lparr>logs := ls, maxIndex := (if CommandIndex m > maxIndex cfg then CommandIndex m else maxIndex cfg)\<rparr>))))"

definition out_of_order :: "nat \<Rightarrow> 'v ApplyMsg \<Rightarrow> bool \<Rightarrow> string \<Rightarrow> string" where
  "out_of_order i m prevok err_msg =
     (if CommandIndex m > 1 \<and> prevok = False then ''server '' @ Itoa (int i) @ '' apply out of order '' @ Itoa (CommandIndex m)
      else err_msg)"

text \<open>One message of the apply channel; \<^verbatim>\<open>log.Fatalf\<close> ends the process, so that the assignment to \<open>applyErr\<close> after it is dead.\<close>

definition applier :: "('v \<Rightarrow> string) \<Rightarrow> nat \<Rightarrow> 'v ApplyMsg \<Rightarrow> 'v config \<Rightarrow> 'v config go" where
  "applier fmtv i m cfg =
     (if CommandValid m = False then Inr cfg
      else
        go_bind (checkLogs fmtv i m cfg) (\<lambda>(err_msg0, prevok, cfg1).
          let err_msg = out_of_order i m prevok err_msg0 in
          if err_msg \<noteq> [] then Inl (Fatal (''apply error: '' @ err_msg)) else Inr cfg1))"

text \<open>
  The reader of the snapshot tests.  Every tenth entry it calls \<^verbatim>\<open>Snapshot\<close> of the peer, which has an empty body in
  \<^verbatim>\<open>raft.go\<close>, with an encoding of the log; the call leaves the state unchanged.
\<close>

definition applierSnap ::
  "(string \<Rightarrow> (int \<times> 'v list) option) \<Rightarrow> ('v \<Rightarrow> string) \<Rightarrow> nat \<Rightarrow> 'v ApplyMsg \<Rightarrow> 'v config \<Rightarrow> 'v config go" where
  "applierSnap decode fmtv i m cfg =
     go_bind
       (if SnapshotValid m then ingestSnap decode i (am_Snapshot m) (SnapshotIndex m) cfg
        else if CommandValid m then
          go_bind (slice_get (cfg_lastApplied cfg) (int i)) (\<lambda>la.
          go_bind (if CommandIndex m \<noteq> la + 1
                   then Inr (''server '' @ Itoa (int i) @ '' apply out of order, expected index '' @ Itoa (la + 1) @
                             '', got '' @ Itoa (CommandIndex m), cfg)
                   else go_bind (checkLogs fmtv i m cfg) (\<lambda>(err_msg, prevok, cfg1). Inr (out_of_order i m prevok err_msg, cfg1)))
            (\<lambda>(err_msg, cfg1).
              go_bind (slice_set (cfg_lastApplied cfg1) (int i) (CommandIndex m)) (\<lambda>las.
                Inr (err_msg, cfg1\<lparr>cfg_lastApplied := las\<rparr>))))
        else Inr ([], cfg))
       (\<lambda>(err_msg, cfg'). if err_msg \<noteq> [] then Inl (Fatal (''apply error: '' @ err_msg)) else Inr cfg')"

section \<open>Checks of the tests\<close>

text \<open>The message about two different values names the index only.\<close>

fun n_committed_loop :: "'v config \<Rightarrow> int \<Rightarrow> nat list \<Rightarrow> int \<Rightarrow> 'v option \<Rightarrow> (int \<times> 'v option) go" where
  "n_committed_loop cfg index [] n_seen cmd = Inr (n_seen, cmd)"
| "n_committed_loop cfg index (i # is) n_seen cmd =
     go_bind (slice_get (applyErr cfg) (int i)) (\<lambda>ae.
       if ae \<noteq> [] then Inl (Fatal ae)
       else
         go_bind (slice_get (logs cfg) (int i)) (\<lambda>lg.
           case lg index of
             None \<Rightarrow> n_committed_loop cfg index is n_seen cmd
           | Some cmd1 \<Rightarrow>
               if n_seen > 0 \<and> cmd \<noteq> Some cmd1 then Inl (Fatal (''committed values do not match: index '' @ Itoa index))
               else n_committed_loop cfg index is (n_seen + 1) (Some cmd1)))"

definition nCommitted :: "int \<Rightarrow> 'v config \<Rightarrow> (int \<times> 'v option) go" where
  "nCommitted index cfg = n_committed_loop cfg index [0..<length (cfg_rafts cfg)] 0 None"

definition raft_state :: "'v config \<Rightarrow> nat \<Rightarrow> (int \<times> bool) go" where
  "raft_state cfg i =
     go_bind (slice_get (cfg_rafts cfg) (int i)) (\<lambda>rf. case rf of None \<Rightarrow> Inl NilDereference | Some r \<Rightarrow> Inr (GetState r))"

fun collect_leaders :: "'v config \<Rightarrow> nat list \<Rightarrow> (int \<times> nat list) list \<Rightarrow> (int \<times> nat list) list go" where
  "collect_leaders cfg [] leaders = Inr leaders"
| "collect_leaders cfg (i # is) leaders =
     go_bind (slice_get (connected cfg) (int i)) (\<lambda>c.
       if c then
         go_bind (raft_state cfg i) (\<lambda>(term, leader).
           if leader
           then collect_leaders cfg is (al_put term ((case map_of leaders term of None \<Rightarrow> [] | Some ls \<Rightarrow> ls) @ [i]) leaders)
           else collect_leaders cfg is leaders)
       else collect_leaders cfg is leaders)"

fun last_term_loop :: "(int \<times> nat list) list \<Rightarrow> int \<Rightarrow> int go" where
  "last_term_loop [] lastTermWithLeader = Inr lastTermWithLeader"
| "last_term_loop ((term, ls) # rest) lastTermWithLeader =
     (if length ls > 1
      then Inl (Fatal (''term '' @ Itoa term @ '' has '' @ Itoa (int (length ls)) @ '' (>1) leaders''))
      else last_term_loop rest (if term > lastTermWithLeader then term else lastTermWithLeader))"

definition one_leader_round :: "'v config \<Rightarrow> nat option go" where
  "one_leader_round cfg =
     go_bind (collect_leaders cfg [0..<cfg_n cfg] []) (\<lambda>leaders.
     go_bind (last_term_loop leaders (- 1)) (\<lambda>lastTermWithLeader.
       if length leaders \<noteq> 0
       then go_bind (slice_get (case map_of leaders lastTermWithLeader of None \<Rightarrow> [] | Some ls \<Rightarrow> ls) 0) (\<lambda>l. Inr (Some l))
       else Inr None))"

text \<open>The rounds see the configuration at ten successive instants.\<close>

fun one_leader_rounds :: "'v config list \<Rightarrow> nat go" where
  "one_leader_rounds [] = Inl (Fatal ''expected one leader, got none'')"
| "one_leader_rounds (cfg # cfgs) =
     go_bind (one_leader_round cfg) (\<lambda>r. case r of Some l \<Rightarrow> Inr l | None \<Rightarrow> one_leader_rounds cfgs)"

definition checkOneLeader :: "(nat \<Rightarrow> 'v config) \<Rightarrow> nat go" where
  "checkOneLeader instants = one_leader_rounds (map instants [0..<10])"

fun check_terms_loop :: "'v config \<Rightarrow> nat list \<Rightarrow> int \<Rightarrow> int go" where
  "check_terms_loop cfg [] term = Inr term"
| "check_terms_loop cfg (i # is) term =
     go_bind (slice_get (connected cfg) (int i)) (\<lambda>c.
       if c then
         go_bind (raft_state cfg i) (\<lambda>(xterm, _).
           if term = - 1 then check_terms_loop cfg is xterm
           else if term \<noteq> xterm then Inl (Fatal ''servers disagree on term'')
           else check_terms_loop cfg is term)
       else check_terms_loop cfg is term)"

definition checkTerms :: "'v config \<Rightarrow> int go" where
  "checkTerms cfg = check_terms_loop cfg [0..<cfg_n cfg] (- 1)"

fun no_leader_loop :: "'v config \<Rightarrow> nat list \<Rightarrow> unit go" where
  "no_leader_loop cfg [] = Inr ()"
| "no_leader_loop cfg (i # is) =
     go_bind (slice_get (connected cfg) (int i)) (\<lambda>c.
       if c then
         go_bind (raft_state cfg i) (\<lambda>(_, is_leader).
           if is_leader
           then Inl (Fatal (''expected no leader among connected servers, but '' @ Itoa (int i) @ '' claims to be leader''))
           else no_leader_loop cfg is)
       else no_leader_loop cfg is)"

definition checkNoLeader :: "'v config \<Rightarrow> unit go" where
  "checkNoLeader cfg = no_leader_loop cfg [0..<cfg_n cfg]"

fun log_size_loop :: "'v config \<Rightarrow> nat list \<Rightarrow> nat \<Rightarrow> nat go" where
  "log_size_loop cfg [] logsize = Inr logsize"
| "log_size_loop cfg (i # is) logsize =
     go_bind (slice_get (saved cfg) (int i)) (\<lambda>ps.
       case ps of
         None \<Rightarrow> Inl NilDereference
       | Some p \<Rightarrow> log_size_loop cfg is (if RaftStateSize p > logsize then RaftStateSize p else logsize))"

definition LogSize :: "'v config \<Rightarrow> nat go" where
  "LogSize cfg = log_size_loop cfg [0..<cfg_n cfg] 0"

text \<open>
  Each iteration of the wait reads the committed entries at one instant and the peers' terms at another, after the
  sleep; the last count is taken at the instant \<open>final\<close>.  A peer that has moved on ends the wait with \<open>- 1\<close>.
\<close>

datatype 'v waited = MovedOn | Decided "'v option"

fun moved_on :: "int \<Rightarrow> Raft option list \<Rightarrow> bool go" where
  "moved_on startTerm [] = Inr False"
| "moved_on startTerm (r # rs) =
     (case r of
        None \<Rightarrow> Inl NilDereference
      | Some rf \<Rightarrow> if fst (GetState rf) > startTerm then Inr True else moved_on startTerm rs)"

fun await_loop :: "int \<Rightarrow> int \<Rightarrow> int \<Rightarrow> ('v config \<times> 'v config) list \<Rightarrow> bool go" where
  "await_loop index n startTerm [] = Inr False"
| "await_loop index n startTerm ((before, after) # iters) =
     go_bind (nCommitted index before) (\<lambda>(nd, _).
       if nd \<ge> n then Inr False
       else
         go_bind (if startTerm > - 1 then moved_on startTerm (cfg_rafts after) else Inr False) (\<lambda>moved.
           if moved then Inr True else await_loop index n startTerm iters))"

definition wait ::
  "int \<Rightarrow> int \<Rightarrow> int \<Rightarrow> (nat \<Rightarrow> 'v config \<times> 'v config) \<Rightarrow> 'v config \<Rightarrow> 'v waited go" where
  "wait index n startTerm instants final =
     go_bind (await_loop index n startTerm (map instants [0..<30])) (\<lambda>moved.
       if moved then Inr MovedOn
       else
         go_bind (nCommitted index final) (\<lambda>(nd, cmd).
           if nd < n
           then Inl (Fatal (''only '' @ Itoa nd @ '' decided for index '' @ Itoa index @ ''; wanted '' @ Itoa n))
           else Inr (Decided cmd)))"

section \<open>The configuration as a transition system\<close>

datatype 'v cfg_event = CConnect nat | CDisconnect nat | CCrash nat | CStart "nat \<Rightarrow> string" nat | CApply nat "'v ApplyMsg"
  | CUnreliable bool | CReordering bool | CRaft nat Raft

text \<open>
  A peer changes its own state between the operations of the tester.  The flag \<open>snap\<close> selects the reader of the
  apply channels, as the last argument of \<^verbatim>\<open>make_config\<close> does.  An operation that fails ends the run.
\<close>

fun cfg_exec ::
  "(string \<Rightarrow> (int \<times> 'v list) option) \<Rightarrow> ('v \<Rightarrow> string) \<Rightarrow> bool \<Rightarrow> 'v cfg_event \<Rightarrow> 'v config \<Rightarrow> 'v config go" where
  "cfg_exec decode fmtv snap (CConnect i) cfg = connect i cfg"
| "cfg_exec decode fmtv snap (CDisconnect i) cfg = disconnect i cfg"
| "cfg_exec decode fmtv snap (CCrash i) cfg = crash1 i cfg"
| "cfg_exec decode fmtv snap (CStart names i) cfg = start1 decode names i cfg"
| "cfg_exec decode fmtv snap (CApply i m) cfg = (if snap then applierSnap decode fmtv i m cfg else applier fmtv i m cfg)"
| "cfg_exec decode fmtv snap (CUnreliable b) cfg = Inr (setunreliable b cfg)"
| "cfg_exec decode fmtv snap (CReordering b) cfg = Inr (setlongreordering b cfg)"
| "cfg_exec decode fmtv snap (CRaft i rf) cfg =
     go_bind (slice_get (cfg_rafts cfg) (int i)) (\<lambda>r.
       if r = None then Inr cfg else go_bind (slice_set (cfg_rafts cfg) (int i) (Some rf)) (\<lambda>rs. Inr (cfg\<lparr>cfg_rafts := rs\<rparr>)))"

definition cfg_step ::
  "(string \<Rightarrow> (int \<times> 'v list) option) \<Rightarrow> ('v \<Rightarrow> string) \<Rightarrow> bool \<Rightarrow> 'v config \<Rightarrow> 'v cfg_event \<Rightarrow> 'v config \<Rightarrow> bool" where
  "cfg_step decode fmtv snap s e t \<longleftrightarrow> cfg_exec decode fmtv snap e s = Inr t"

definition cfg_init :: "'v config \<Rightarrow> bool" where
  "cfg_init s \<longleftrightarrow> (\<exists>n b. s = empty_config n\<lparr>cfg_net := LongDelays True (Reliable b MakeNetwork)\<rparr>)"

definition links :: "'v config \<Rightarrow> string \<Rightarrow> bool" where
  "links cfg e \<longleftrightarrow> (\<exists>i j. i < cfg_n cfg \<and> j < cfg_n cfg \<and> connected cfg ! i \<and> connected cfg ! j \<and> end_name cfg i j = Inr e)"

definition cfg_inv :: "'v config \<Rightarrow> bool" where
  "cfg_inv cfg \<longleftrightarrow>
     length (connected cfg) = cfg_n cfg \<and> length (endnames cfg) = cfg_n cfg \<and>
     (\<forall>i j e. end_name cfg i j = Inr e \<longrightarrow> e \<in> ends (cfg_net cfg) \<and> connections (cfg_net cfg) e = Some (int j)) \<and>
     (\<forall>i j k l e. end_name cfg i j = Inr e \<longrightarrow> end_name cfg k l = Inr e \<longrightarrow> i = k \<and> j = l) \<and>
     (\<forall>e. enabled (cfg_net cfg) e \<longleftrightarrow> links cfg e)"

lemma end_name_cong: "endnames c = endnames d \<Longrightarrow> end_name c = end_name d"
  by (simp add: end_name_def fun_eq_iff)

lemma end_name_update [simp]:
  "end_name (cfg\<lparr>cfg_net := rn\<rparr>) = end_name cfg" "end_name (cfg\<lparr>connected := cs\<rparr>) = end_name cfg"
  by (rule end_name_cong, simp)+

lemma connect_loop_effect:
  "connect_loop link js cfg = Inr cfg' \<Longrightarrow>
     cfg' = cfg\<lparr>cfg_net := (cfg_net cfg)\<lparr>enabled :=
       (\<lambda>e. enabled (cfg_net cfg) e \<or> (\<exists>j \<in> set js. connected cfg ! j \<and> end_name cfg (fst (link j)) (snd (link j)) = Inr e))\<rparr>\<rparr>"
proof (induction link js cfg arbitrary: cfg' rule: connect_loop.induct)
  case (2 link j js cfg)
  show ?case
  proof (cases "connected cfg ! j")
    case True
    then obtain e where e: "end_name cfg (fst (link j)) (snd (link j)) = Inr e" "j < length (connected cfg)"
        "connect_loop link js (cfg\<lparr>cfg_net := Enable e True (cfg_net cfg)\<rparr>) = Inr cfg'"
      using "2.prems" by (auto simp: go_simps set_link_def)
    show ?thesis using "2.IH"(1) [OF True e(3)] e True
      by (auto simp: set_link_def Enable_def fun_eq_iff)
  next
    case False
    then show ?thesis using "2.prems" "2.IH"(2) by (auto simp: go_simps)
  qed
qed simp

lemma disconnect_loop_effect:
  "disconnect_loop link js cfg = Inr cfg' \<Longrightarrow>
     cfg' = cfg\<lparr>cfg_net := (cfg_net cfg)\<lparr>enabled :=
       (\<lambda>e. enabled (cfg_net cfg) e \<and> (\<forall>j \<in> set js. end_name cfg (fst (link j)) (snd (link j)) \<noteq> Inr e))\<rparr>\<rparr>"
proof (induction link js cfg arbitrary: cfg' rule: disconnect_loop.induct)
  case (2 link j js cfg)
  show ?case
  proof (cases "endnames cfg ! fst (link j) = None")
    case True
    then have "end_name cfg (fst (link j)) (snd (link j)) \<noteq> Inr e" for e by (auto simp: end_name_def go_simps)
    then show ?thesis using "2.prems" "2.IH"(2) True by (auto simp: go_simps)
  next
    case False
    then obtain e where e: "end_name cfg (fst (link j)) (snd (link j)) = Inr e" "fst (link j) < length (endnames cfg)"
        "disconnect_loop link js (cfg\<lparr>cfg_net := Enable e False (cfg_net cfg)\<rparr>) = Inr cfg'"
      using "2.prems" by (auto simp: go_simps set_link_def)
    show ?thesis using "2.IH"(1) [OF False e(3)] e False
      by (auto simp: set_link_def Enable_def fun_eq_iff)
  qed
qed simp

lemma connect_effect:
  assumes "connect i cfg = Inr cfg'"
  obtains f where "i < length (connected cfg)"
    "cfg' = cfg\<lparr>connected := (connected cfg)[i := True], cfg_net := (cfg_net cfg)\<lparr>enabled := f\<rparr>\<rparr>"
    "\<And>e. f e \<longleftrightarrow> enabled (cfg_net cfg) e \<or>
       (\<exists>j<cfg_n cfg. (connected cfg)[i := True] ! j \<and> (end_name cfg i j = Inr e \<or> end_name cfg j i = Inr e))"
proof
  show "i < length (connected cfg)" using assms by (auto simp: connect_def go_simps)
  show "cfg' = cfg\<lparr>connected := (connected cfg)[i := True], cfg_net := (cfg_net cfg)\<lparr>enabled := enabled (cfg_net cfg')\<rparr>\<rparr>"
    using assms by (auto simp: connect_def go_simps dest!: connect_loop_effect)
  show "enabled (cfg_net cfg') e \<longleftrightarrow> enabled (cfg_net cfg) e \<or>
       (\<exists>j<cfg_n cfg. (connected cfg)[i := True] ! j \<and> (end_name cfg i j = Inr e \<or> end_name cfg j i = Inr e))" for e
    using assms by (auto simp: connect_def go_simps Bex_def dest!: connect_loop_effect)
qed

lemma disconnect_effect:
  assumes "disconnect i cfg = Inr cfg'"
  obtains f where "i < length (connected cfg)"
    "cfg' = cfg\<lparr>connected := (connected cfg)[i := False], cfg_net := (cfg_net cfg)\<lparr>enabled := f\<rparr>\<rparr>"
    "\<And>e. f e \<longleftrightarrow> enabled (cfg_net cfg) e \<and> (\<forall>j<cfg_n cfg. end_name cfg i j \<noteq> Inr e \<and> end_name cfg j i \<noteq> Inr e)"
proof
  show "i < length (connected cfg)" using assms by (auto simp: disconnect_def go_simps)
  show "cfg' = cfg\<lparr>connected := (connected cfg)[i := False], cfg_net := (cfg_net cfg)\<lparr>enabled := enabled (cfg_net cfg')\<rparr>\<rparr>"
    using assms by (auto simp: disconnect_def go_simps dest!: disconnect_loop_effect)
  show "enabled (cfg_net cfg') e \<longleftrightarrow>
      enabled (cfg_net cfg) e \<and> (\<forall>j<cfg_n cfg. end_name cfg i j \<noteq> Inr e \<and> end_name cfg j i \<noteq> Inr e)" for e
    using assms by (auto simp: disconnect_def go_simps dest!: disconnect_loop_effect)
qed

lemma cfg_invI:
  assumes "length (connected cfg) = cfg_n cfg" "length (endnames cfg) = cfg_n cfg"
    and "\<And>i j e. end_name cfg i j = Inr e \<Longrightarrow> e \<in> ends (cfg_net cfg) \<and> connections (cfg_net cfg) e = Some (int j)"
    and "\<And>i j k l e. end_name cfg i j = Inr e \<Longrightarrow> end_name cfg k l = Inr e \<Longrightarrow> i = k \<and> j = l"
    and "\<And>e. enabled (cfg_net cfg) e \<longleftrightarrow> links cfg e"
  shows "cfg_inv cfg"
  using assms unfolding cfg_inv_def by blast

lemma cfg_invD:
  assumes "cfg_inv cfg"
  shows "length (connected cfg) = cfg_n cfg" "length (endnames cfg) = cfg_n cfg"
    "end_name cfg i j = Inr e \<Longrightarrow> e \<in> ends (cfg_net cfg) \<and> connections (cfg_net cfg) e = Some (int j)"
    "end_name cfg i j = Inr e \<Longrightarrow> end_name cfg k l = Inr e \<Longrightarrow> i = k \<and> j = l"
    "enabled (cfg_net cfg) e \<longleftrightarrow> links cfg e"
  using assms unfolding cfg_inv_def by blast+

lemma connect_inv:
  assumes inv: "cfg_inv cfg" and c: "connect i cfg = Inr cfg'"
  shows "cfg_inv cfg'"
proof -
  obtain f where f: "i < length (connected cfg)"
      "cfg' = cfg\<lparr>connected := (connected cfg)[i := True], cfg_net := (cfg_net cfg)\<lparr>enabled := f\<rparr>\<rparr>"
      "\<And>e. f e \<longleftrightarrow> enabled (cfg_net cfg) e \<or>
         (\<exists>j<cfg_n cfg. (connected cfg)[i := True] ! j \<and> (end_name cfg i j = Inr e \<or> end_name cfg j i = Inr e))"
    using connect_effect [OF c] by blast
  have n: "i < cfg_n cfg" using f(1) cfg_invD(1) [OF inv] by simp
  have on: "(connected cfg)[i := True] ! j \<longleftrightarrow> j = i \<or> connected cfg ! j" for j
    using f(1) by (simp add: nth_list_update)
  have "f e \<longleftrightarrow> links cfg' e" for e
    unfolding f(3) on cfg_invD(5) [OF inv] using n by (auto simp: links_def f(2) on)
  then show ?thesis using cfg_invD [OF inv] unfolding f(2) by (intro cfg_invI) auto
qed

lemma disconnect_inv:
  assumes inv: "cfg_inv cfg" and c: "disconnect i cfg = Inr cfg'"
  shows "cfg_inv cfg'"
proof -
  obtain f where f: "i < length (connected cfg)"
      "cfg' = cfg\<lparr>connected := (connected cfg)[i := False], cfg_net := (cfg_net cfg)\<lparr>enabled := f\<rparr>\<rparr>"
      "\<And>e. f e \<longleftrightarrow> enabled (cfg_net cfg) e \<and> (\<forall>j<cfg_n cfg. end_name cfg i j \<noteq> Inr e \<and> end_name cfg j i \<noteq> Inr e)"
    using disconnect_effect [OF c] by blast
  have n: "i < cfg_n cfg" using f(1) cfg_invD(1) [OF inv] by simp
  have on: "(connected cfg)[i := False] ! j \<longleftrightarrow> j \<noteq> i \<and> connected cfg ! j" for j
    using f(1) by (simp add: nth_list_update)
  have links': "links cfg' e \<longleftrightarrow> (\<exists>a b. a < cfg_n cfg \<and> b < cfg_n cfg \<and> a \<noteq> i \<and> connected cfg ! a \<and> b \<noteq> i \<and> connected cfg ! b \<and>
      end_name cfg a b = Inr e)" for e
    by (simp add: links_def f(2) on)
  have "f e \<longleftrightarrow> links cfg' e" for e
  proof
    assume fe: "f e"
    then obtain a b where ab: "a < cfg_n cfg" "b < cfg_n cfg" "connected cfg ! a" "connected cfg ! b" "end_name cfg a b = Inr e"
      unfolding f(3) cfg_invD(5) [OF inv] links_def by blast
    then have "a \<noteq> i" "b \<noteq> i" using fe unfolding f(3) by blast+
    then show "links cfg' e" unfolding links' using ab by blast
  next
    assume "links cfg' e"
    then obtain a b where ab: "a < cfg_n cfg" "b < cfg_n cfg" "a \<noteq> i" "connected cfg ! a" "b \<noteq> i" "connected cfg ! b"
        "end_name cfg a b = Inr e"
      unfolding links' by blast
    then have "end_name cfg i j \<noteq> Inr e \<and> end_name cfg j i \<noteq> Inr e" for j using cfg_invD(4) [OF inv ab(7)] by blast
    then show "f e" unfolding f(3) cfg_invD(5) [OF inv] links_def using ab by blast
  qed
  then show ?thesis using cfg_invD [OF inv] unfolding f(2) by (intro cfg_invI) auto
qed

text \<open>The parts of the state that the network does not see.\<close>

lemma links_cong:
  "cfg_n c = cfg_n d \<Longrightarrow> connected c = connected d \<Longrightarrow> endnames c = endnames d \<Longrightarrow> links c = links d"
  by (simp add: links_def end_name_cong [of c d] fun_eq_iff)

lemma cfg_inv_cong:
  assumes "cfg_inv d" "cfg_n c = cfg_n d" "connected c = connected d" "endnames c = endnames d"
    "ends (cfg_net c) = ends (cfg_net d)" "enabled (cfg_net c) = enabled (cfg_net d)"
    "connections (cfg_net c) = connections (cfg_net d)"
  shows "cfg_inv c"
  using assms links_cong [of c d] end_name_cong [of c d] by (simp add: cfg_inv_def)

lemma Save_Copy: "Save MakePersister (ReadRaftState (Copy p)) (ReadSnapshot (Copy p)) = p"
  by (simp add: Save_def MakePersister_def Copy_def ReadRaftState_def ReadSnapshot_def)

lemma crash1_effect:
  assumes "crash1 i cfg = Inr cfg'"
  obtains cfg1 where "disconnect i cfg = Inr cfg1" "i < length (saved cfg1)"
    "cfg' = cfg1\<lparr>cfg_net := DeleteServer (int i) (cfg_net cfg1), cfg_rafts := (cfg_rafts cfg1)[i := None]\<rparr>"
proof -
  obtain cfg1 where c: "disconnect i cfg = Inr cfg1" using assms by (auto simp: crash1_def)
  have same: "(saved cfg1)[i := (case saved cfg1 ! i of None \<Rightarrow> None
      | Some p \<Rightarrow> (let q = Copy p in Some (Save MakePersister (ReadRaftState q) (ReadSnapshot q))))] = saved cfg1"
    by (cases "saved cfg1 ! i") (metis list_update_id option.simps(4), metis Save_Copy list_update_id option.simps(5))
  have "i < length (saved cfg1)" "cfg' = cfg1\<lparr>cfg_net := DeleteServer (int i) (cfg_net cfg1), saved := saved cfg1,
      cfg_rafts := (cfg_rafts cfg1)[i := None]\<rparr>"
    using assms unfolding crash1_def c by (auto simp: go_simps Let_def [of "cfg1\<lparr>cfg_net := r\<rparr>" for r] same)
  then show ?thesis by (intro that [OF c]) simp_all
qed

lemma crash1_inv:
  assumes "cfg_inv cfg" "crash1 i cfg = Inr cfg'"
  shows "cfg_inv cfg'" "\<not> connected cfg' ! i" "i < cfg_n cfg'"
proof -
  obtain cfg1 where c: "disconnect i cfg = Inr cfg1" "i < length (saved cfg1)"
      "cfg' = cfg1\<lparr>cfg_net := DeleteServer (int i) (cfg_net cfg1), cfg_rafts := (cfg_rafts cfg1)[i := None]\<rparr>"
    using crash1_effect [OF assms(2)] by blast
  show inv: "cfg_inv cfg'" unfolding c(3) by (rule cfg_inv_cong [OF disconnect_inv [OF assms(1) c(1)]]) (simp_all add: DeleteServer_def)
  show "\<not> connected cfg' ! i" using disconnect_effect [OF c(1)] unfolding c(3) by fastforce
  show "i < cfg_n cfg'" using disconnect_effect [OF c(1)] cfg_invD(1) [OF assms(1)] unfolding c(3) by fastforce
qed

lemma make_ends_effect:
  "make_ends es rn = Inr rn' \<Longrightarrow>
     distinct (map fst es) \<and> fst ` set es \<inter> ends rn = {} \<and> ends rn' = ends rn \<union> fst ` set es \<and>
     (\<forall>e. enabled rn' e \<longleftrightarrow> enabled rn e \<and> e \<notin> fst ` set es) \<and>
     (\<forall>e. e \<notin> fst ` set es \<longrightarrow> connections rn' e = connections rn e) \<and>
     (\<forall>(e, j) \<in> set es. connections rn' e = Some (int j))"
proof (induction es rn rule: make_ends.induct)
  case (2 e j es rn)
  define r where "r = rn\<lparr>ends := insert e (ends rn), enabled := (enabled rn)(e := False), connections := (connections rn)(e := None)\<rparr>"
  have f: "e \<notin> ends rn" "make_ends es (Connect e (int j) r) = Inr rn'"
    using "2.prems" by (auto simp: MakeEnd_def r_def split: if_splits)
  have c: "ends (Connect e (int j) r) = insert e (ends rn)" "enabled (Connect e (int j) r) = (enabled rn)(e := False)"
    "connections (Connect e (int j) r) = (connections rn)(e := Some (int j))"
    by (simp_all add: Connect_def r_def)
  show ?case using "2.IH" [OF f(2)] f(1) unfolding c by (auto simp: image_iff)
qed simp

lemma restore_saved_frame:
  assumes "restore_saved decode i cfg = Inr cfg'"
  shows "cfg_n cfg' = cfg_n cfg \<and> connected cfg' = connected cfg \<and> endnames cfg' = endnames cfg \<and> cfg_net cfg' = cfg_net cfg \<and>
    applyErr cfg' = applyErr cfg \<and> cfg_rafts cfg' = cfg_rafts cfg"
  using assms by (auto simp: restore_saved_def ingestSnap_def go_simps Let_def split: option.splits if_splits)

lemma end_name_replaced:
  assumes "i < length (endnames cfg)"
  shows "end_name (cfg\<lparr>endnames := (endnames cfg)[i := Some (map names [0..<n])], cfg_net := rn, cfg_lastApplied := la\<rparr>) a b =
    (if a = i then if b < n then Inr (names b) else Inl IndexOutOfRange else end_name cfg a b)"
  using assms by (auto simp: end_name_def slice_get_def in_range_def)

lemma fresh_names_inv:
  assumes inv: "cfg_inv cfg" and i: "\<not> connected cfg ! i" "i < cfg_n cfg"
    and rn: "make_ends (map (\<lambda>j. (names j, j)) [0..<cfg_n cfg]) (cfg_net cfg) = Inr rn"
  shows "cfg_inv (cfg\<lparr>endnames := (endnames cfg)[i := Some (map names [0..<cfg_n cfg])], cfg_net := rn, cfg_lastApplied := la\<rparr>)"
    (is "cfg_inv ?c")
proof -
  have name: "end_name ?c a b = (if a = i then if b < cfg_n cfg then Inr (names b) else Inl IndexOutOfRange else end_name cfg a b)" for a b
    by (rule end_name_replaced) (use i cfg_invD(2) [OF inv] in simp)
  have fst_eq: "fst ` set (map (\<lambda>j. (names j, j)) [0..<cfg_n cfg]) = names ` {..<cfg_n cfg}"
    "map fst (map (\<lambda>j. (names j, j)) [0..<cfg_n cfg]) = map names [0..<cfg_n cfg]"
    by (auto simp: image_def)
  note eff = make_ends_effect [OF rn, unfolded fst_eq]
  have conn: "j < cfg_n cfg \<Longrightarrow> connections rn (names j) = Some (int j)" for j using eff by auto
  have inj: "names a = names b \<Longrightarrow> a < cfg_n cfg \<Longrightarrow> b < cfg_n cfg \<Longrightarrow> a = b" for a b
    using eff by (auto simp: distinct_map inj_on_def)
  have fresh: "a < cfg_n cfg \<Longrightarrow> end_name cfg k l \<noteq> Inr (names a)" for a k l
    using eff cfg_invD(3) [OF inv, of k l "names a"] by blast
  have kept: "end_name cfg a b = Inr e \<Longrightarrow> connections rn e = Some (int b)" for a b e
    using eff cfg_invD(3) [OF inv, of a b e] by (metis IntI empty_iff)
  have links: "links ?c e \<longleftrightarrow> links cfg e" for e
    unfolding links_def name using i by (auto split: if_splits)
  have known: "links cfg e \<Longrightarrow> e \<notin> names ` {..<cfg_n cfg}" for e
    unfolding links_def using fresh by blast
  show ?thesis
  proof (rule cfg_invI)
    show "end_name ?c a b = Inr e \<Longrightarrow> e \<in> ends (cfg_net ?c) \<and> connections (cfg_net ?c) e = Some (int b)" for a b e
      using eff conn [of b] kept [of a b e] cfg_invD(3) [OF inv, of a b e] by (auto simp: name split: if_splits)
    show "end_name ?c a b = Inr e \<Longrightarrow> end_name ?c k l = Inr e \<Longrightarrow> a = k \<and> b = l" for a b k l e
      using inj [of b l] fresh [of b k l] fresh [of l a b] cfg_invD(4) [OF inv, of a b e k l] by (auto simp: name split: if_splits)
    show "enabled (cfg_net ?c) e \<longleftrightarrow> links ?c e" for e
      unfolding links using eff known [of e] cfg_invD(5) [OF inv, of e] by auto
  qed (use cfg_invD(1,2) [OF inv] in simp_all)
qed

lemma start1_effect:
  assumes "start1 decode names i cfg = Inr cfg'"
  obtains cfg1 rn cfg2 where "crash1 i cfg = Inr cfg1"
    "make_ends (map (\<lambda>j. (names j, j)) [0..<cfg_n cfg1]) (cfg_net cfg1) = Inr rn"
    "restore_saved decode i (cfg1\<lparr>endnames := (endnames cfg1)[i := Some (map names [0..<cfg_n cfg1])], cfg_net := rn,
       cfg_lastApplied := (cfg_lastApplied cfg1)[i := 0]\<rparr>) = Inr cfg2"
    "cfg' = cfg2\<lparr>cfg_rafts := (cfg_rafts cfg2)[i := Some (Make (cfg_n cfg2) (int i) (the (saved cfg2 ! i)))],
       cfg_net := AddServer (int i) (next_server cfg2) (cfg_net cfg2), next_server := next_server cfg2 + 1\<rparr>"
  using assms by (auto simp: start1_def go_simps)

lemma start1_inv:
  assumes inv: "cfg_inv cfg" and s: "start1 decode names i cfg = Inr cfg'"
  shows "cfg_inv cfg'"
proof -
  obtain cfg1 rn cfg2 where e: "crash1 i cfg = Inr cfg1"
    "make_ends (map (\<lambda>j. (names j, j)) [0..<cfg_n cfg1]) (cfg_net cfg1) = Inr rn"
    "restore_saved decode i (cfg1\<lparr>endnames := (endnames cfg1)[i := Some (map names [0..<cfg_n cfg1])], cfg_net := rn,
       cfg_lastApplied := (cfg_lastApplied cfg1)[i := 0]\<rparr>) = Inr cfg2"
    "cfg' = cfg2\<lparr>cfg_rafts := (cfg_rafts cfg2)[i := Some (Make (cfg_n cfg2) (int i) (the (saved cfg2 ! i)))],
       cfg_net := AddServer (int i) (next_server cfg2) (cfg_net cfg2), next_server := next_server cfg2 + 1\<rparr>"
    by (rule start1_effect [OF s])
  note frame = restore_saved_frame [OF e(3)]
  note inv2 = fresh_names_inv [OF crash1_inv [OF inv e(1)] e(2)]
  show ?thesis by (rule cfg_inv_cong [OF inv2]) (use frame in \<open>simp_all add: e(4) AddServer_def\<close>)
qed

lemma checkLogs_frame:
  assumes "checkLogs fmtv i m cfg = Inr (err, prevok, cfg')"
  shows "i < length (logs cfg)" "err = check_logs_loop fmtv i m 0 (logs cfg) []"
    "cfg' = cfg\<lparr>logs := (logs cfg)[i := (logs cfg ! i)(CommandIndex m := Some (am_Command m))],
       maxIndex := (if CommandIndex m > maxIndex cfg then CommandIndex m else maxIndex cfg)\<rparr>"
  using assms by (auto simp: checkLogs_def Let_def go_simps)

lemma applier_effect:
  assumes "applier fmtv i m cfg = Inr cfg'" "CommandValid m"
  obtains prevok where "checkLogs fmtv i m cfg = Inr ([], prevok, cfg')" "out_of_order i m prevok [] = []"
  using assms by (fastforce simp: applier_def Let_def out_of_order_def split: if_splits)

lemma apply_frame:
  assumes "cfg_exec decode fmtv snap (CApply i m) cfg = Inr cfg'"
  shows "cfg_n cfg' = cfg_n cfg \<and> connected cfg' = connected cfg \<and> endnames cfg' = endnames cfg \<and> cfg_net cfg' = cfg_net cfg"
  using assms
  by (auto simp: applier_def applierSnap_def checkLogs_def ingestSnap_def go_simps Let_def split: if_splits option.splits)

lemma raft_frame:
  assumes "cfg_exec decode fmtv snap (CRaft i rf) cfg = Inr cfg'"
  shows "\<exists>rs. cfg' = cfg\<lparr>cfg_rafts := rs\<rparr> \<and> length rs = length (cfg_rafts cfg)"
proof (cases "cfg_rafts cfg ! i = None")
  case True
  then have "cfg' = cfg\<lparr>cfg_rafts := cfg_rafts cfg\<rparr>" using assms by (auto simp: go_simps)
  then show ?thesis by blast
qed (use assms in \<open>auto simp: go_simps\<close>)

lemma cfg_inv_step:
  assumes inv: "cfg_inv s" and step: "cfg_step decode fmtv snap s e t"
  shows "cfg_inv t"
proof -
  have ex: "cfg_exec decode fmtv snap e s = Inr t" using step by (simp add: cfg_step_def)
  show ?thesis
  proof (cases e)
    case (CApply i m)
    then show ?thesis using cfg_inv_cong [OF inv, of t] apply_frame [of decode fmtv snap i m s t] ex by simp
  next
    case (CRaft i rf)
    then show ?thesis using cfg_inv_cong [OF inv, of t] raft_frame [of decode fmtv snap i rf s t] ex by auto
  next
    case (CUnreliable b)
    then show ?thesis using cfg_inv_cong [OF inv, of t] ex by (auto simp: setunreliable_def Reliable_def)
  next
    case (CReordering b)
    then show ?thesis using cfg_inv_cong [OF inv, of t] ex by (auto simp: setlongreordering_def LongReordering_def)
  qed (use ex connect_inv [OF inv] disconnect_inv [OF inv] crash1_inv(1) [OF inv] start1_inv [OF inv] in simp_all)
qed

lemma end_name_empty: "end_name (empty_config n) i j \<noteq> Inr e"
  by (auto simp: end_name_def empty_config_def slice_get_def in_range_def)

lemma cfg_inv_init:
  assumes "cfg_init s"
  shows "cfg_inv s"
proof -
  obtain n b where s: "s = empty_config n\<lparr>cfg_net := LongDelays True (Reliable b MakeNetwork)\<rparr>"
    using assms by (auto simp: cfg_init_def)
  show ?thesis
    unfolding s by (rule cfg_invI) (simp_all add: end_name_empty links_def, simp_all add: empty_config_def LongDelays_def Reliable_def MakeNetwork_def)
qed

interpretation tester: invariant_system cfg_init "cfg_step decode fmtv snap" cfg_inv for decode fmtv snap
  by unfold_locales (fact cfg_inv_init, fact cfg_inv_step)

text \<open>\<^verbatim>\<open>make_config\<close> only takes steps of the system.\<close>

lemma for_servers_reach:
  assumes "\<And>i c d. f i c = Inr d \<Longrightarrow> \<exists>e. cfg_step decode fmtv snap c e d"
  shows "for_servers f is cfg = Inr cfg' \<Longrightarrow> reach cfg_init (cfg_step decode fmtv snap) cfg \<Longrightarrow> reach cfg_init (cfg_step decode fmtv snap) cfg'"
proof (induction "is" arbitrary: cfg)
  case (Cons i "is")
  then obtain c where c: "f i cfg = Inr c" "for_servers f is c = Inr cfg'" by auto
  then show ?case using Cons assms reach_step by metis
qed simp

lemma make_config_reach:
  fixes cfg :: "'v config"
  assumes "make_config decode names n unreliable = Inr cfg"
  shows "reach cfg_init (cfg_step decode fmtv snap) cfg"
proof -
  define c0 :: "'v config" where "c0 = empty_config n\<lparr>cfg_net := LongDelays True (Reliable (\<not> unreliable) MakeNetwork)\<rparr>"
  have init: "reach cfg_init (cfg_step decode fmtv snap) c0" by (rule reach_init) (auto simp: cfg_init_def c0_def)
  obtain c1 where c1: "for_servers (\<lambda>i. start1 decode (names i) i) [0..<n] c0 = Inr c1" "for_servers connect [0..<n] c1 = Inr cfg"
    using assms by (auto simp: make_config_def c0_def empty_config_def Let_def)
  have "\<exists>e. cfg_step decode fmtv snap c e d" if "start1 decode (names i) i c = Inr d" for i c d
    using that cfg_exec.simps(4) unfolding cfg_step_def by metis
  then have "reach cfg_init (cfg_step decode fmtv snap) c1" using for_servers_reach [OF _ c1(1) init] by blast
  moreover have "\<exists>e. cfg_step decode fmtv snap c e d" if "connect i c = Inr d" for i c d
    using that cfg_exec.simps(1) unfolding cfg_step_def by metis
  ultimately show ?thesis using for_servers_reach [OF _ c1(2)] by blast
qed

section \<open>What is connected\<close>

text \<open>C18: In every configuration that starting, crashing, connecting and disconnecting servers in any order can produce, a client
  end of the network is enabled exactly when it is the current end from one connected server to another, and it then leads to
  that server: the ends of a crashed instance and of a disconnected server carry nothing.\<close>

theorem links_follow_connected:
  assumes "reach cfg_init (cfg_step decode fmtv snap) s"
  shows "enabled (cfg_net s) e \<longleftrightarrow>
    (\<exists>i<cfg_n s. \<exists>j<cfg_n s. connected s ! i \<and> connected s ! j \<and> end_name s i j = Inr e \<and> connections (cfg_net s) e = Some (int j))"
  using cfg_invD(3,5) [OF tester.reach_inv [OF assms]] unfolding links_def by blast

section \<open>What is committed\<close>

definition agree_inv :: "'v config \<Rightarrow> bool" where
  "agree_inv cfg \<longleftrightarrow>
     length (logs cfg) = cfg_n cfg \<and> length (cfg_rafts cfg) = cfg_n cfg \<and> applyErr cfg = replicate (cfg_n cfg) [] \<and>
     (\<forall>p. Some p \<in> set (saved cfg) \<longrightarrow> snapshot p = []) \<and>
     (\<forall>i<cfg_n cfg. \<forall>j<cfg_n cfg. \<forall>idx v w. (logs cfg ! i) idx = Some v \<longrightarrow> (logs cfg ! j) idx = Some w \<longrightarrow> v = w)"

lemma agree_inv_cong:
  assumes "agree_inv d" "cfg_n c = cfg_n d" "logs c = logs d" "applyErr c = applyErr d" "length (cfg_rafts c) = length (cfg_rafts d)"
    "\<And>p. Some p \<in> set (saved c) \<Longrightarrow> Some p \<in> set (saved d) \<or> snapshot p = []"
  shows "agree_inv c"
  using assms unfolding agree_inv_def by metis

lemma check_logs_loop_nil:
  "check_logs_loop fmtv i m j ls err = [] \<longleftrightarrow>
     (if \<forall>lg \<in> set ls. lg (CommandIndex m) = None \<or> lg (CommandIndex m) = Some (am_Command m) then err = [] else False)"
  by (induction fmtv i m j ls err rule: check_logs_loop.induct) (auto split: option.splits)

lemma applier_agree:
  assumes inv: "agree_inv cfg" and a: "applier fmtv i m cfg = Inr cfg'"
  shows "agree_inv cfg'"
proof (cases "CommandValid m")
  case True
  let ?lg = "(logs cfg ! i)(CommandIndex m := Some (am_Command m))"
  obtain prevok where c: "checkLogs fmtv i m cfg = Inr ([], prevok, cfg')" using applier_effect [OF a True] by blast
  note f = checkLogs_frame [OF c]
  have len: "length (logs cfg) = cfg_n cfg" using inv by (simp add: agree_inv_def)
  have old: "k < cfg_n cfg \<Longrightarrow> (logs cfg ! k) (CommandIndex m) = None \<or> (logs cfg ! k) (CommandIndex m) = Some (am_Command m)" for k
    using check_logs_loop_nil [of fmtv i m 0 "logs cfg" "[]"] f(2) len nth_mem [of k "logs cfg"] by (metis (no_types, lifting))
  have nth: "(logs cfg)[i := ?lg] ! k = (if k = i then ?lg else logs cfg ! k)" for k
    using f(1) by (simp add: nth_list_update)
  have "v = w" if "k < cfg_n cfg" "l < cfg_n cfg" "((logs cfg)[i := ?lg] ! k) idx = Some v" "((logs cfg)[i := ?lg] ! l) idx = Some w" for k l idx v w
  proof (cases "idx = CommandIndex m")
    case True
    then show ?thesis using that old [of k] old [of l] unfolding nth by (auto split: if_splits)
  next
    case False
    then have "(logs cfg ! k) idx = Some v" "(logs cfg ! l) idx = Some w" using that unfolding nth by (auto split: if_splits)
    then show ?thesis using inv that(1,2) unfolding agree_inv_def by blast
  qed
  then show ?thesis using inv unfolding f(3) agree_inv_def by simp
qed (use assms in \<open>simp add: applier_def\<close>)

lemma restore_saved_agree:
  assumes "restore_saved decode i cfg = Inr cfg'" "\<And>p. Some p \<in> set (saved cfg) \<Longrightarrow> snapshot p = []"
  shows "logs cfg' = logs cfg" "Some p \<in> set (saved cfg') \<Longrightarrow> Some p \<in> set (saved cfg) \<or> snapshot p = []"
proof -
  have i: "i < length (saved cfg)" using assms(1) by (auto simp: restore_saved_def go_simps)
  have "\<exists>p. cfg' = cfg\<lparr>saved := (saved cfg)[i := Some p]\<rparr> \<and> snapshot p = []"
  proof (cases "saved cfg ! i")
    case None
    then show ?thesis using assms(1) i by (auto simp: restore_saved_def MakePersister_def)
  next
    case (Some q)
    then have "snapshot q = []" using assms(2) i by (metis nth_mem)
    then show ?thesis using assms(1) i Some by (auto simp: restore_saved_def Let_def ReadSnapshot_def Copy_def)
  qed
  then obtain q where q: "cfg' = cfg\<lparr>saved := (saved cfg)[i := Some q]\<rparr>" "snapshot q = []" by blast
  then show "logs cfg' = logs cfg" by simp
  show "Some p \<in> set (saved cfg') \<Longrightarrow> Some p \<in> set (saved cfg) \<or> snapshot p = []"
    using set_update_subset_insert [of "saved cfg" i "Some q"] q by auto
qed

lemma disconnect_agree:
  assumes "agree_inv cfg" "disconnect i cfg = Inr cfg'"
  shows "agree_inv cfg'"
proof -
  obtain f where "cfg' = cfg\<lparr>connected := (connected cfg)[i := False], cfg_net := (cfg_net cfg)\<lparr>enabled := f\<rparr>\<rparr>"
    using disconnect_effect [OF assms(2)] by blast
  then show ?thesis by (intro agree_inv_cong [OF assms(1)]) simp_all
qed

lemma connect_agree:
  assumes "agree_inv cfg" "connect i cfg = Inr cfg'"
  shows "agree_inv cfg'"
proof -
  obtain f where "cfg' = cfg\<lparr>connected := (connected cfg)[i := True], cfg_net := (cfg_net cfg)\<lparr>enabled := f\<rparr>\<rparr>"
    using connect_effect [OF assms(2)] by blast
  then show ?thesis by (intro agree_inv_cong [OF assms(1)]) simp_all
qed

lemma crash1_agree:
  assumes "agree_inv cfg" "crash1 i cfg = Inr cfg'"
  shows "agree_inv cfg'"
proof -
  obtain cfg1 where c: "disconnect i cfg = Inr cfg1" "i < length (saved cfg1)"
      "cfg' = cfg1\<lparr>cfg_net := DeleteServer (int i) (cfg_net cfg1), cfg_rafts := (cfg_rafts cfg1)[i := None]\<rparr>"
    using crash1_effect [OF assms(2)] by blast
  show ?thesis by (rule agree_inv_cong [OF disconnect_agree [OF assms(1) c(1)]]) (simp_all add: c(3))
qed

lemma start1_agree:
  assumes inv: "agree_inv cfg" and s: "start1 decode names i cfg = Inr cfg'"
  shows "agree_inv cfg'"
proof -
  obtain cfg1 rn cfg2 where e: "crash1 i cfg = Inr cfg1"
    "make_ends (map (\<lambda>j. (names j, j)) [0..<cfg_n cfg1]) (cfg_net cfg1) = Inr rn"
    "restore_saved decode i (cfg1\<lparr>endnames := (endnames cfg1)[i := Some (map names [0..<cfg_n cfg1])], cfg_net := rn,
       cfg_lastApplied := (cfg_lastApplied cfg1)[i := 0]\<rparr>) = Inr cfg2"
    "cfg' = cfg2\<lparr>cfg_rafts := (cfg_rafts cfg2)[i := Some (Make (cfg_n cfg2) (int i) (the (saved cfg2 ! i)))],
       cfg_net := AddServer (int i) (next_server cfg2) (cfg_net cfg2), next_server := next_server cfg2 + 1\<rparr>"
    by (rule start1_effect [OF s])
  note inv1 = crash1_agree [OF inv e(1)]
  note frame = restore_saved_frame [OF e(3)]
  have empty: "Some p \<in> set (saved cfg1) \<Longrightarrow> snapshot p = []" for p using inv1 by (simp add: agree_inv_def)
  show ?thesis
    by (rule agree_inv_cong [OF inv1]) (use frame restore_saved_agree [OF e(3)] empty in \<open>auto simp: e(4)\<close>)
qed

lemma agree_inv_step:
  assumes inv: "agree_inv s" and step: "cfg_step decode fmtv False s e t"
  shows "agree_inv t"
proof -
  have ex: "cfg_exec decode fmtv False e s = Inr t" using step by (simp add: cfg_step_def)
  show ?thesis
  proof (cases e)
    case (CRaft i rf)
    then show ?thesis using agree_inv_cong [OF inv, of t] raft_frame [of decode fmtv False i rf s t] ex by auto
  next
    case (CUnreliable b)
    then show ?thesis using agree_inv_cong [OF inv, of t] ex by (auto simp: setunreliable_def)
  next
    case (CReordering b)
    then show ?thesis using agree_inv_cong [OF inv, of t] ex by (auto simp: setlongreordering_def)
  qed (use ex connect_agree [OF inv] disconnect_agree [OF inv] crash1_agree [OF inv] start1_agree [OF inv] applier_agree [OF inv] in simp_all)
qed

lemma agree_inv_init:
  assumes "cfg_init s"
  shows "agree_inv s"
  using assms by (auto simp: cfg_init_def agree_inv_def empty_config_def)

interpretation commits: invariant_system cfg_init "cfg_step decode fmtv False" agree_inv for decode fmtv
  by unfold_locales (fact agree_inv_init, fact agree_inv_step)

lemma n_committed_loop_agree:
  assumes "0 \<le> k" "0 < k \<longrightarrow> cmd = Some c"
    "\<And>i. i \<in> set js \<Longrightarrow> i < length (applyErr cfg) \<and> applyErr cfg ! i = [] \<and> i < length (logs cfg) \<and>
       ((logs cfg ! i) index = None \<or> (logs cfg ! i) index = Some c)"
  shows "n_committed_loop cfg index js k cmd =
    Inr (k + int (length (filter (\<lambda>i. (logs cfg ! i) index \<noteq> None) js)), if \<forall>i \<in> set js. (logs cfg ! i) index = None then cmd else Some c)"
  using assms
proof (induction js arbitrary: k cmd)
  case (Cons j js)
  have j: "j < length (applyErr cfg)" "applyErr cfg ! j = []" "j < length (logs cfg)"
    "(logs cfg ! j) index = None \<or> (logs cfg ! j) index = Some c" using Cons.prems(3) by auto
  show ?case
  proof (cases "(logs cfg ! j) index")
    case None
    then show ?thesis using Cons.IH [OF Cons.prems(1,2)] Cons.prems(3) j by simp
  next
    case (Some v)
    then show ?thesis using Cons.IH [of "k + 1" "Some c"] Cons.prems j by auto
  qed
qed simp

lemma agreed_command:
  assumes "agree_inv cfg"
  obtains c where "\<And>i. i < cfg_n cfg \<Longrightarrow> (logs cfg ! i) index = None \<or> (logs cfg ! i) index = Some c"
  using assms unfolding agree_inv_def by (metis not_None_eq)

lemma nCommitted_agree:
  assumes inv: "agree_inv cfg"
  shows "\<exists>cmd. nCommitted index cfg = Inr (int (card {i. i < cfg_n cfg \<and> (logs cfg ! i) index \<noteq> None}), cmd) \<and>
    (\<forall>i<cfg_n cfg. (logs cfg ! i) index = None \<or> (logs cfg ! i) index = cmd)"
proof -
  obtain c where c: "\<And>i. i < cfg_n cfg \<Longrightarrow> (logs cfg ! i) index = None \<or> (logs cfg ! i) index = Some c"
    using agreed_command [OF inv] by blast
  have card: "length (filter (\<lambda>i. (logs cfg ! i) index \<noteq> None) [0..<cfg_n cfg]) = card {i. i < cfg_n cfg \<and> (logs cfg ! i) index \<noteq> None}"
    by (subst distinct_card [symmetric]) (auto intro!: arg_cong [where f = card])
  have "nCommitted index cfg = Inr (0 + int (length (filter (\<lambda>i. (logs cfg ! i) index \<noteq> None) [0..<cfg_n cfg])),
      if \<forall>i \<in> set [0..<cfg_n cfg]. (logs cfg ! i) index = None then None else Some c)"
    unfolding nCommitted_def using inv c by (subst n_committed_loop_agree [where c = c]) (auto simp: agree_inv_def)
  then show ?thesis unfolding card using c by (auto split: if_splits)
qed


lemma wait_decided:
  assumes "wait index n startTerm instants final = Inr (Decided cmd)" "reach cfg_init (cfg_step decode fmtv False) final"
  shows "n \<le> int (card {i. i < cfg_n final \<and> (logs final ! i) index = cmd}) \<or> cmd = None"
proof -
  obtain c where c: "nCommitted index final = Inr (int (card {i. i < cfg_n final \<and> (logs final ! i) index \<noteq> None}), c)"
      "\<forall>i<cfg_n final. (logs final ! i) index = None \<or> (logs final ! i) index = c"
    using nCommitted_agree [OF commits.reach_inv [OF assms(2)]] by blast
  then have le: "n \<le> int (card {i. i < cfg_n final \<and> (logs final ! i) index \<noteq> None})" "c = cmd"
    using assms(1) by (auto simp: wait_def split: if_splits)
  have "card {i. i < cfg_n final \<and> (logs final ! i) index \<noteq> None} \<le> card {i. i < cfg_n final \<and> (logs final ! i) index = cmd}"
    using c(2) le(2) by (intro card_mono) auto
  then show ?thesis using le by linarith
qed

section \<open>The leader that the tests see\<close>

definition leaders_of :: "(int \<times> nat list) list \<Rightarrow> int \<Rightarrow> nat list" where
  "leaders_of leaders term = (case map_of leaders term of None \<Rightarrow> [] | Some ls \<Rightarrow> ls)"

lemma collect_leaders_spec:
  "collect_leaders cfg js leaders = Inr leaders' \<Longrightarrow>
     leaders_of leaders' t = leaders_of leaders t @ filter (\<lambda>i. connected cfg ! i \<and> raft_state cfg i = Inr (t, True)) js"
proof (induction js arbitrary: leaders)
  case (Cons i js)
  have i: "i < length (connected cfg)" using Cons.prems by (auto simp: go_simps)
  define add where "add t = al_put t (leaders_of leaders t @ [i]) leaders" for t
  have add: "leaders_of (add t) u = (if u = t then leaders_of leaders t @ [i] else leaders_of leaders u)" for t u
    by (simp add: add_def leaders_of_def)
  consider (off) "\<not> connected cfg ! i" "collect_leaders cfg js leaders = Inr leaders'"
    | (follower) t where "raft_state cfg i = Inr (t, False)" "collect_leaders cfg js leaders = Inr leaders'"
    | (leader) t where "connected cfg ! i" "raft_state cfg i = Inr (t, True)" "collect_leaders cfg js (add t) = Inr leaders'"
    using Cons.prems i by (cases "connected cfg ! i") (auto simp: add_def leaders_of_def split: if_splits)
  then show ?case
  proof cases
    case (leader t)
    then show ?thesis using Cons.IH [OF leader(3)] by (simp add: add)
  qed (use Cons.IH in simp_all)
qed simp

lemma last_term_loop_spec:
  "last_term_loop leaders l0 = Inr l \<Longrightarrow> l0 \<le> l \<and> (\<forall>(t, ls) \<in> set leaders. length ls \<le> 1 \<and> t \<le> l)"
  by (induction leaders l0 rule: last_term_loop.induct) (fastforce split: if_splits)+

definition latest_leader :: "'v config \<Rightarrow> nat \<Rightarrow> bool" where
  "latest_leader cfg l \<longleftrightarrow>
     (\<exists>T. l < cfg_n cfg \<and> connected cfg ! l \<and> raft_state cfg l = Inr (T, True) \<and>
       (\<forall>i t. i < cfg_n cfg \<and> connected cfg ! i \<and> raft_state cfg i = Inr (t, True) \<and> i \<noteq> l \<longrightarrow> t < T))"

lemma one_leader_round_latest:
  assumes "one_leader_round cfg = Inr (Some l)"
  shows "latest_leader cfg l"
proof -
  obtain L T where L: "collect_leaders cfg [0..<cfg_n cfg] [] = Inr L" "last_term_loop L (- 1) = Inr T" "slice_get (leaders_of L T) 0 = Inr l"
    using assms by (auto simp: one_leader_round_def leaders_of_def split: if_splits)
  have of_L: "leaders_of L t = filter (\<lambda>i. connected cfg ! i \<and> raft_state cfg i = Inr (t, True)) [0..<cfg_n cfg]" for t
    using collect_leaders_spec [OF L(1)] by (simp add: leaders_of_def)
  have small: "leaders_of L t \<noteq> [] \<Longrightarrow> t \<le> T \<and> length (leaders_of L t) \<le> 1" for t
    using last_term_loop_spec [OF L(2)] by (auto simp: leaders_of_def split: option.splits dest!: map_of_SomeD)
  have "leaders_of L T \<noteq> []" using L(3) by (auto simp: go_simps)
  then have one: "leaders_of L T = [l]" using small [of T] L(3) by (cases "leaders_of L T") auto
  have "l \<in> set (leaders_of L T)" using one by simp
  then have l: "l < cfg_n cfg" "connected cfg ! l" "raft_state cfg l = Inr (T, True)" unfolding of_L by simp_all
  have "t < T" if "i < cfg_n cfg" "connected cfg ! i" "raft_state cfg i = Inr (t, True)" "i \<noteq> l" for i t
  proof -
    have i: "i \<in> set (leaders_of L t)" unfolding of_L using that by simp
    then have "t \<noteq> T" using one that(4) by auto
    moreover have "leaders_of L t \<noteq> []" using i by auto
    ultimately show ?thesis using small [of t] by linarith
  qed
  then show ?thesis unfolding latest_leader_def using l by blast
qed

lemma one_leader_rounds_latest: "one_leader_rounds cfgs = Inr l \<Longrightarrow> \<exists>cfg \<in> set cfgs. latest_leader cfg l"
  by (induction cfgs) (auto split: option.splits dest: one_leader_round_latest)

text \<open>C29: The server that checkOneLeader returns was, at one of its ten looks, a connected leader, and every other connected
  leader at that look had a smaller term: the check neither misses a newer leader nor accepts two leaders of that term.\<close>

theorem checkOneLeader_latest:
  assumes "checkOneLeader instants = Inr l"
  shows "\<exists>k<10. latest_leader (instants k) l"
  using one_leader_rounds_latest [OF assms [unfolded checkOneLeader_def]] by auto

section \<open>A run\<close>

text \<open>Two servers are made and connected, one crashes, and both commit an entry.\<close>

definition demo_names :: "nat \<Rightarrow> nat \<Rightarrow> string" where
  "demo_names i j = [digit_char i, digit_char j]"

definition demo_entry :: "int \<Rightarrow> string \<Rightarrow> string ApplyMsg" where
  "demo_entry idx v = \<lparr>CommandValid = True, am_Command = v, CommandIndex = idx, SnapshotValid = False, am_Snapshot = None, SnapshotTerm = 0, SnapshotIndex = 0\<rparr>"

fun cfg_run :: "(string \<Rightarrow> (int \<times> 'v list) option) \<Rightarrow> ('v \<Rightarrow> string) \<Rightarrow> bool \<Rightarrow> 'v cfg_event list \<Rightarrow> 'v config \<Rightarrow> 'v config go" where
  "cfg_run decode fmtv snap [] cfg = Inr cfg"
| "cfg_run decode fmtv snap (e # es) cfg = go_bind (cfg_exec decode fmtv snap e cfg) (cfg_run decode fmtv snap es)"

lemma cfg_run_reach:
  "cfg_run decode fmtv snap es cfg = Inr cfg' \<Longrightarrow> reach cfg_init (cfg_step decode fmtv snap) cfg \<Longrightarrow> reach cfg_init (cfg_step decode fmtv snap) cfg'"
proof (induction es arbitrary: cfg)
  case (Cons e es)
  then obtain c where "cfg_step decode fmtv snap cfg e c" "cfg_run decode fmtv snap es c = Inr cfg'" by (auto simp: cfg_step_def)
  then show ?case using Cons.IH reach_step [OF Cons.prems(2)] by blast
qed simp

definition demo_config :: "string config go" where
  "demo_config =
     go_bind (make_config (\<lambda>_. None) demo_names 2 False)
       (cfg_run (\<lambda>_. None) (\<lambda>v. v) False [CApply 0 (demo_entry 1 ''x''), CCrash 1, CApply 1 (demo_entry 1 ''x''), CApply 0 (demo_entry 2 ''y'')])"

lemma cfg_demo_reach:
  assumes "demo_config = Inr s"
  shows "reach cfg_init (cfg_step (\<lambda>_. None) (\<lambda>v. v) False) s"
proof -
  obtain c where "make_config (\<lambda>_. None) demo_names 2 False = Inr c" "cfg_run (\<lambda>_. None) (\<lambda>v. v) False
      [CApply 0 (demo_entry 1 ''x''), CCrash 1, CApply 1 (demo_entry 1 ''x''), CApply 0 (demo_entry 2 ''y'')] c = Inr s"
    using assms unfolding demo_config_def go_bind_Inr_conv by blast
  then show ?thesis by (rule cfg_run_reach [OF _ make_config_reach, rotated])
qed

lemma demo_ok:
  "case demo_config of Inl _ \<Rightarrow> False
   | Inr s \<Rightarrow> nCommitted 1 s = Inr (2, Some ''x'') \<and> enabled (cfg_net s) ''00'' \<and> end_name s 0 1 = Inr ''01'' \<and> \<not> connected s ! 1 \<and> cfg_n s = 2"
  by code_simp

theorem links_follow_connected_witness:
  "\<exists>s. demo_config = Inr s \<and> (\<exists>i<cfg_n s. \<exists>j<cfg_n s. connected s ! i \<and> connected s ! j \<and> end_name s i j = Inr ''00'' \<and>
     connections (cfg_net s) ''00'' = Some (int j))"
proof -
  obtain s where s: "demo_config = Inr s" "enabled (cfg_net s) ''00''" using demo_ok by (auto split: sum.splits)
  then show ?thesis using links_follow_connected [OF cfg_demo_reach [OF s(1)], of "''00''"] by blast
qed


text \<open>Both servers lead, the second in the newer term.\<close>

definition demo_leaders :: "string config" where
  "demo_leaders = empty_config 2\<lparr>connected := [True, True],
     cfg_rafts := [Some ((Make 2 0 MakePersister)\<lparr>serverState := LEADER, currentTerm := 3\<rparr>), Some ((Make 2 1 MakePersister)\<lparr>serverState := LEADER, currentTerm := 4\<rparr>)]\<rparr>"

lemma demo_leaders_ok: "checkOneLeader (\<lambda>_. demo_leaders) = Inr 1"
  by code_simp

theorem checkOneLeader_latest_witness: "latest_leader demo_leaders 1"
  using checkOneLeader_latest [OF demo_leaders_ok] by blast

end
