(* ===== verification/Kv_Config.thy ===== *)
theory Kv_Config
  imports Raft_Config
begin

text \<open>
  The test configuration of the key/value lab (\<^verbatim>\<open>kvraft/config.go\<close>) with the server skeleton of \<^verbatim>\<open>kvraft/server.go\<close>:
  starting and stopping servers, the links between servers and from clerks, and the partition that puts the leader
  into the minority.  Client end names are parameters; a clerk is the number of its allocation.
\<close>

section \<open>State\<close>

record KVServer =
  kv_me :: int
  kv_rf :: Raft
  kv_dead :: int
  kv_maxraftstate :: int

definition StartKVServer :: "nat \<Rightarrow> int \<Rightarrow> Persister \<Rightarrow> int \<Rightarrow> KVServer" where
  "StartKVServer nServers me0 persister maxraftstate =
     \<lparr>kv_me = me0, kv_rf = Make nServers me0 persister, kv_dead = 0, kv_maxraftstate = maxraftstate\<rparr>"

definition kv_Kill :: "KVServer \<Rightarrow> KVServer" where
  "kv_Kill kv = kv\<lparr>kv_dead := 1, kv_rf := Kill (kv_rf kv)\<rparr>"

definition kv_killed :: "KVServer \<Rightarrow> bool" where
  "kv_killed kv \<longleftrightarrow> kv_dead kv = 1"

record kvconfig =
  kc_net :: Network
  kc_n :: nat
  kvservers :: "KVServer option list"
  kc_saved :: "Persister option list"
  kc_endnames :: "string list option list"
  clerks :: "(nat \<times> string list) list"
  nextClientId :: int
  kc_maxraftstate :: int
  next_clerk :: nat
  kc_next_server :: nat

definition kc_end_name :: "kvconfig \<Rightarrow> nat \<Rightarrow> nat \<Rightarrow> string go" where
  "kc_end_name cfg i j =
     go_bind (slice_get (kc_endnames cfg) (int i)) (\<lambda>es. case es of None \<Rightarrow> Inl IndexOutOfRange | Some names \<Rightarrow> slice_get names (int j))"

definition kc_set_link :: "bool \<Rightarrow> nat \<times> nat \<Rightarrow> kvconfig \<Rightarrow> kvconfig go" where
  "kc_set_link b l cfg = go_bind (kc_end_name cfg (fst l) (snd l)) (\<lambda>e. Inr (cfg\<lparr>kc_net := Enable e b (kc_net cfg)\<rparr>))"

fun kc_set_links :: "bool \<Rightarrow> (nat \<times> nat) list \<Rightarrow> kvconfig \<Rightarrow> kvconfig go" where
  "kc_set_links b [] cfg = Inr cfg"
| "kc_set_links b (l # ls) cfg = go_bind (kc_set_link b l cfg) (kc_set_links b ls)"

section \<open>Links between servers\<close>

definition connectUnlocked :: "nat \<Rightarrow> nat list \<Rightarrow> kvconfig \<Rightarrow> kvconfig go" where
  "connectUnlocked i to cfg =
     go_bind (kc_set_links True (map (\<lambda>t. (i, t)) to) cfg) (kc_set_links True (map (\<lambda>t. (t, i)) to))"

fun disconnect_out :: "nat \<Rightarrow> nat list \<Rightarrow> kvconfig \<Rightarrow> kvconfig go" where
  "disconnect_out i [] cfg = Inr cfg"
| "disconnect_out i (f # from) cfg =
     go_bind (slice_get (kc_endnames cfg) (int i)) (\<lambda>es.
       if es \<noteq> None then go_bind (kc_set_link False (i, f) cfg) (disconnect_out i from) else disconnect_out i from cfg)"

text \<open>The loop over the incoming ends asks for the names of the server whose number is the position \<open>j\<close>, not of \<open>from[j]\<close>.\<close>

fun disconnect_in :: "nat \<Rightarrow> nat \<Rightarrow> nat list \<Rightarrow> kvconfig \<Rightarrow> kvconfig go" where
  "disconnect_in i j [] cfg = Inr cfg"
| "disconnect_in i j (f # from) cfg =
     go_bind (slice_get (kc_endnames cfg) (int j)) (\<lambda>es.
       if es \<noteq> None then go_bind (kc_set_link False (f, i) cfg) (disconnect_in i (Suc j) from)
       else disconnect_in i (Suc j) from cfg)"

definition disconnectUnlocked :: "nat \<Rightarrow> nat list \<Rightarrow> kvconfig \<Rightarrow> kvconfig go" where
  "disconnectUnlocked i from cfg = go_bind (disconnect_out i from cfg) (disconnect_in i 0 from)"

definition All_servers :: "kvconfig \<Rightarrow> nat list" where
  "All_servers cfg = [0..<kc_n cfg]"

fun for_kv :: "(nat \<Rightarrow> kvconfig \<Rightarrow> kvconfig go) \<Rightarrow> nat list \<Rightarrow> kvconfig \<Rightarrow> kvconfig go" where
  "for_kv f [] cfg = Inr cfg"
| "for_kv f (i # is) cfg = go_bind (f i cfg) (for_kv f is)"

definition ConnectAll :: "kvconfig \<Rightarrow> kvconfig go" where
  "ConnectAll cfg = for_kv (\<lambda>i c. connectUnlocked i (All_servers c) c) [0..<kc_n cfg] cfg"

definition partition_side :: "nat list \<Rightarrow> nat list \<Rightarrow> kvconfig \<Rightarrow> kvconfig go" where
  "partition_side p q cfg = for_kv (\<lambda>i c. go_bind (disconnectUnlocked i q c) (connectUnlocked i p)) p cfg"

definition kc_partition :: "nat list \<Rightarrow> nat list \<Rightarrow> kvconfig \<Rightarrow> kvconfig go" where
  "kc_partition p1 p2 cfg = go_bind (partition_side p1 p2 cfg) (partition_side p2 p1)"

section \<open>Clerks\<close>

fun enable_ends :: "bool \<Rightarrow> string list \<Rightarrow> nat list \<Rightarrow> Network \<Rightarrow> Network go" where
  "enable_ends b names [] rn = Inr rn"
| "enable_ends b names (t # to) rn = go_bind (slice_get names (int t)) (\<lambda>s. enable_ends b names to (Enable s b rn))"

definition clerk_ends :: "kvconfig \<Rightarrow> nat \<Rightarrow> string list" where
  "clerk_ends cfg ck = (case map_of (clerks cfg) ck of None \<Rightarrow> [] | Some names \<Rightarrow> names)"

definition ConnectClientUnlocked :: "nat \<Rightarrow> nat list \<Rightarrow> kvconfig \<Rightarrow> kvconfig go" where
  "ConnectClientUnlocked ck to cfg =
     go_bind (enable_ends True (clerk_ends cfg ck) to (kc_net cfg)) (\<lambda>rn. Inr (cfg\<lparr>kc_net := rn\<rparr>))"

definition DisconnectClientUnlocked :: "nat \<Rightarrow> nat list \<Rightarrow> kvconfig \<Rightarrow> kvconfig go" where
  "DisconnectClientUnlocked ck from cfg =
     go_bind (enable_ends False (clerk_ends cfg ck) from (kc_net cfg)) (\<lambda>rn. Inr (cfg\<lparr>kc_net := rn\<rparr>))"

definition makeClient :: "(nat \<Rightarrow> string) \<Rightarrow> nat list \<Rightarrow> kvconfig \<Rightarrow> (nat \<times> kvconfig) go" where
  "makeClient names to cfg =
     go_bind (make_ends (map (\<lambda>j. (names j, j)) [0..<kc_n cfg]) (kc_net cfg)) (\<lambda>rn.
     let ck = next_clerk cfg;
         cfg1 = cfg\<lparr>kc_net := rn, clerks := al_put ck (map names [0..<kc_n cfg]) (clerks cfg), nextClientId := nextClientId cfg + 1,
                    next_clerk := ck + 1\<rparr> in
     go_bind (ConnectClientUnlocked ck to cfg1) (\<lambda>cfg2. Inr (ck, cfg2)))"

definition deleteClient :: "nat \<Rightarrow> kvconfig \<Rightarrow> kvconfig" where
  "deleteClient ck cfg = cfg\<lparr>clerks := al_del ck (clerks cfg)\<rparr>"

section \<open>Servers\<close>

definition ShutdownServer :: "nat \<Rightarrow> kvconfig \<Rightarrow> kvconfig go" where
  "ShutdownServer i cfg =
     go_bind (disconnectUnlocked i (All_servers cfg) cfg) (\<lambda>cfg1.
     go_bind (slice_get (kc_saved cfg1) (int i)) (\<lambda>ps.
     go_bind (slice_set (kc_saved cfg1) (int i) (map_option Copy ps)) (\<lambda>ss.
     go_bind (slice_set (kvservers cfg1) (int i) None) (\<lambda>ks.
       Inr (cfg1\<lparr>kc_net := DeleteServer (int i) (kc_net cfg1), kc_saved := ss, kvservers := ks\<rparr>)))))"

definition StartServer :: "(nat \<Rightarrow> string) \<Rightarrow> nat \<Rightarrow> kvconfig \<Rightarrow> kvconfig go" where
  "StartServer names i cfg =
     go_bind (slice_set (kc_endnames cfg) (int i) (Some (map names [0..<kc_n cfg]))) (\<lambda>es.
     go_bind (make_ends (map (\<lambda>j. (names j, j)) [0..<kc_n cfg]) (kc_net cfg)) (\<lambda>rn.
     go_bind (slice_get (kc_saved cfg) (int i)) (\<lambda>ps.
     let p = (case ps of None \<Rightarrow> MakePersister | Some q \<Rightarrow> Copy q) in
     go_bind (slice_set (kc_saved cfg) (int i) (Some p)) (\<lambda>ss.
     go_bind (slice_set (kvservers cfg) (int i) (Some (StartKVServer (kc_n cfg) (int i) p (kc_maxraftstate cfg)))) (\<lambda>ks.
       Inr (cfg\<lparr>kc_endnames := es, kc_net := AddServer (int i) (kc_next_server cfg) rn, kc_saved := ss, kvservers := ks,
                kc_next_server := kc_next_server cfg + 1\<rparr>))))))"

definition empty_kvconfig :: "nat \<Rightarrow> int \<Rightarrow> kvconfig" where
  "empty_kvconfig n maxraftstate =
     \<lparr>kc_net = MakeNetwork, kc_n = n, kvservers = replicate n None, kc_saved = replicate n None, kc_endnames = replicate n None,
      clerks = [], nextClientId = int n + 1000, kc_maxraftstate = maxraftstate, next_clerk = 0, kc_next_server = 0\<rparr>"

definition make_kvconfig :: "(nat \<Rightarrow> nat \<Rightarrow> string) \<Rightarrow> nat \<Rightarrow> bool \<Rightarrow> int \<Rightarrow> kvconfig go" where
  "make_kvconfig names n unreliable maxraftstate =
     go_bind (for_kv (\<lambda>i. StartServer (names i) i) [0..<n] (empty_kvconfig n maxraftstate)) (\<lambda>cfg.
     go_bind (ConnectAll cfg) (\<lambda>cfg'. Inr (cfg'\<lparr>kc_net := Reliable (\<not> unreliable) (kc_net cfg')\<rparr>)))"

definition kc_cleanup :: "bool \<Rightarrow> int \<Rightarrow> kvconfig \<Rightarrow> kvconfig go" where
  "kc_cleanup t_failed since cfg =
     go_bind (Cleanup (kc_net cfg)) (\<lambda>rn.
     go_bind (checkTimeout t_failed since) (\<lambda>_. Inr (cfg\<lparr>kvservers := map (map_option kv_Kill) (kvservers cfg), kc_net := rn\<rparr>)))"

fun max_size :: "(Persister \<Rightarrow> nat) \<Rightarrow> kvconfig \<Rightarrow> nat list \<Rightarrow> nat \<Rightarrow> nat go" where
  "max_size f cfg [] size0 = Inr size0"
| "max_size f cfg (i # is) size0 =
     go_bind (slice_get (kc_saved cfg) (int i)) (\<lambda>ps.
       case ps of None \<Rightarrow> Inl NilDereference | Some p \<Rightarrow> max_size f cfg is (if f p > size0 then f p else size0))"

definition kc_LogSize :: "kvconfig \<Rightarrow> nat go" where
  "kc_LogSize cfg = max_size RaftStateSize cfg [0..<kc_n cfg] 0"

definition kc_SnapshotSize :: "kvconfig \<Rightarrow> nat go" where
  "kc_SnapshotSize cfg = max_size SnapshotSize cfg [0..<kc_n cfg] 0"

section \<open>Partitions\<close>

fun leader_loop :: "kvconfig \<Rightarrow> nat list \<Rightarrow> (bool \<times> nat) go" where
  "leader_loop cfg [] = Inr (False, 0)"
| "leader_loop cfg (i # is) =
     go_bind (slice_get (kvservers cfg) (int i)) (\<lambda>kv.
       case kv of
         None \<Rightarrow> Inl NilDereference
       | Some k \<Rightarrow> if snd (GetState (kv_rf k)) then Inr (True, i) else leader_loop cfg is)"

definition Leader :: "kvconfig \<Rightarrow> (bool \<times> nat) go" where
  "Leader cfg = leader_loop cfg [0..<kc_n cfg]"

fun fill_parts :: "nat \<Rightarrow> nat list \<Rightarrow> nat \<Rightarrow> nat list \<Rightarrow> nat list \<Rightarrow> (nat list \<times> nat list) go" where
  "fill_parts l [] j p1 p2 = Inr (p1, p2)"
| "fill_parts l (i # is) j p1 p2 =
     (if i \<noteq> l then
        if j < length p1 then go_bind (slice_set p1 (int j) i) (\<lambda>p1'. fill_parts l is (j + 1) p1' p2)
        else go_bind (slice_set p2 (int j - int (length p1)) i) (\<lambda>p2'. fill_parts l is (j + 1) p1 p2')
      else fill_parts l is j p1 p2)"

definition make_partition :: "kvconfig \<Rightarrow> (nat list \<times> nat list) go" where
  "make_partition cfg =
     go_bind (Leader cfg) (\<lambda>(_, l).
     go_bind (fill_parts l [0..<kc_n cfg] 0 (replicate (kc_n cfg div 2 + 1) 0) (replicate (kc_n cfg div 2) 0)) (\<lambda>(p1, p2).
     go_bind (slice_set p2 (int (length p2) - 1) l) (\<lambda>p2'. Inr (p1, p2'))))"

section \<open>Links and names\<close>

text \<open>All servers have been started, with distinct names \<open>nm i j\<close> for the ends from \<open>i\<close> to \<open>j\<close>.\<close>

definition kc_wf :: "(nat \<Rightarrow> nat \<Rightarrow> string) \<Rightarrow> kvconfig \<Rightarrow> bool" where
  "kc_wf nm cfg \<longleftrightarrow>
     length (kc_endnames cfg) = kc_n cfg \<and> (\<forall>i<kc_n cfg. kc_endnames cfg ! i = Some (map (nm i) [0..<kc_n cfg])) \<and>
     (\<forall>a<kc_n cfg. \<forall>b<kc_n cfg. \<forall>c<kc_n cfg. \<forall>d<kc_n cfg. nm a b = nm c d \<longrightarrow> a = c \<and> b = d)"

definition with_enabled :: "kvconfig \<Rightarrow> (string \<Rightarrow> bool) \<Rightarrow> kvconfig" where
  "with_enabled cfg f = cfg\<lparr>kc_net := (kc_net cfg)\<lparr>enabled := f\<rparr>\<rparr>"

lemma with_enabled_simps [simp]:
  "kc_wf nm (with_enabled cfg f) = kc_wf nm cfg" "kc_n (with_enabled cfg f) = kc_n cfg"
  "kc_endnames (with_enabled cfg f) = kc_endnames cfg" "enabled (kc_net (with_enabled cfg f)) = f"
  "with_enabled (with_enabled cfg f) g = with_enabled cfg g" "with_enabled cfg (enabled (kc_net cfg)) = cfg"
  by (simp_all add: with_enabled_def kc_wf_def)

lemma kc_end_name_wf: "kc_wf nm cfg \<Longrightarrow> i < kc_n cfg \<Longrightarrow> j < kc_n cfg \<Longrightarrow> kc_end_name cfg i j = Inr (nm i j)"
  by (simp add: kc_wf_def kc_end_name_def)

lemma kc_set_link_wf:
  "kc_wf nm cfg \<Longrightarrow> i < kc_n cfg \<Longrightarrow> j < kc_n cfg \<Longrightarrow>
     kc_set_link b (i, j) cfg = Inr (with_enabled cfg ((enabled (kc_net cfg))(nm i j := b)))"
  by (simp add: kc_set_link_def kc_end_name_wf with_enabled_def Enable_def)

lemma kc_set_links_wf:
  "kc_wf nm cfg \<Longrightarrow> set ls \<subseteq> {..<kc_n cfg} \<times> {..<kc_n cfg} \<Longrightarrow>
     kc_set_links b ls cfg = Inr (with_enabled cfg (\<lambda>e. if e \<in> (\<lambda>(i, j). nm i j) ` set ls then b else enabled (kc_net cfg) e))"
proof (induction ls arbitrary: cfg)
  case (Cons l ls)
  obtain i j where l: "l = (i, j)" by (cases l)
  have s: "kc_set_link b l cfg = Inr (with_enabled cfg ((enabled (kc_net cfg))(nm i j := b)))"
    unfolding l by (rule kc_set_link_wf) (use Cons.prems l in auto)
  have eq: "(\<lambda>e. if e \<in> (\<lambda>(i, j). nm i j) ` set ls then b else ((enabled (kc_net cfg))(nm i j := b)) e) =
      (\<lambda>e. if e \<in> (\<lambda>(i, j). nm i j) ` set (l # ls) then b else enabled (kc_net cfg) e)"
    by (auto simp: fun_eq_iff l)
  have "kc_set_links b ls (with_enabled cfg ((enabled (kc_net cfg))(nm i j := b))) =
      Inr (with_enabled cfg (\<lambda>e. if e \<in> (\<lambda>(i, j). nm i j) ` set ls then b else ((enabled (kc_net cfg))(nm i j := b)) e))"
    using Cons.IH [of "with_enabled cfg ((enabled (kc_net cfg))(nm i j := b))"] Cons.prems by simp
  then show ?case unfolding kc_set_links.simps s go_bind.simps eq .
qed simp

lemma disconnect_out_eq:
  "kc_wf nm cfg \<Longrightarrow> i < kc_n cfg \<Longrightarrow> set from \<subseteq> {..<kc_n cfg} \<Longrightarrow> disconnect_out i from cfg = kc_set_links False (map (\<lambda>t. (i, t)) from) cfg"
proof (induction "from" arbitrary: cfg)
  case (Cons f "from")
  then have "slice_get (kc_endnames cfg) (int i) = Inr (Some (map (nm i) [0..<kc_n cfg]))" by (simp add: kc_wf_def)
  then show ?case using Cons kc_set_link_wf [of nm cfg i f False] by simp
qed simp

lemma disconnect_in_eq:
  "kc_wf nm cfg \<Longrightarrow> i < kc_n cfg \<Longrightarrow> set from \<subseteq> {..<kc_n cfg} \<Longrightarrow> j + length from \<le> kc_n cfg \<Longrightarrow>
     disconnect_in i j from cfg = kc_set_links False (map (\<lambda>t. (t, i)) from) cfg"
proof (induction "from" arbitrary: j cfg)
  case (Cons f "from")
  then have "slice_get (kc_endnames cfg) (int j) = Inr (Some (map (nm j) [0..<kc_n cfg]))" by (simp add: kc_wf_def)
  then show ?case using Cons kc_set_link_wf [of nm cfg f i False] by simp
qed simp

text \<open>What an operation makes of the links, seen through the names.\<close>

definition sets_links :: "(nat \<Rightarrow> nat \<Rightarrow> string) \<Rightarrow> kvconfig \<Rightarrow> (nat \<Rightarrow> nat \<Rightarrow> bool) \<Rightarrow> kvconfig go \<Rightarrow> bool" where
  "sets_links nm cfg V r \<longleftrightarrow> (\<exists>f. r = Inr (with_enabled cfg f) \<and> (\<forall>a<kc_n cfg. \<forall>b<kc_n cfg. f (nm a b) \<longleftrightarrow> V a b))"

lemma sets_linksI: "r = Inr (with_enabled cfg f) \<Longrightarrow> (\<And>a b. a < kc_n cfg \<Longrightarrow> b < kc_n cfg \<Longrightarrow> f (nm a b) \<longleftrightarrow> V a b) \<Longrightarrow> sets_links nm cfg V r"
  by (auto simp: sets_links_def)

lemma sets_links_bind:
  assumes "sets_links nm cfg V r" "\<And>f. (\<And>a b. a < kc_n cfg \<Longrightarrow> b < kc_n cfg \<Longrightarrow> f (nm a b) \<longleftrightarrow> V a b) \<Longrightarrow> sets_links nm (with_enabled cfg f) W (k (with_enabled cfg f))"
  shows "sets_links nm cfg W (go_bind r k)"
proof -
  obtain f where f: "r = Inr (with_enabled cfg f)" "\<And>a b. a < kc_n cfg \<Longrightarrow> b < kc_n cfg \<Longrightarrow> f (nm a b) \<longleftrightarrow> V a b"
    using assms(1) unfolding sets_links_def by blast
  have "sets_links nm (with_enabled cfg f) W (k (with_enabled cfg f))" by (rule assms(2)) (rule f(2))
  then show ?thesis by (simp add: sets_links_def f(1))
qed

lemma sets_links_cong:
  "sets_links nm cfg V r \<Longrightarrow> (\<And>a b. a < kc_n cfg \<Longrightarrow> b < kc_n cfg \<Longrightarrow> V a b \<longleftrightarrow> W a b) \<Longrightarrow> sets_links nm cfg W r"
  unfolding sets_links_def by simp

lemma set_links_view:
  assumes "kc_wf nm cfg" "set ls \<subseteq> {..<kc_n cfg} \<times> {..<kc_n cfg}"
  shows "sets_links nm cfg (\<lambda>x y. if (x, y) \<in> set ls then b else enabled (kc_net cfg) (nm x y)) (kc_set_links b ls cfg)"
proof (rule sets_linksI [OF kc_set_links_wf [OF assms]])
  fix x y assume xy: "x < kc_n cfg" "y < kc_n cfg"
  have "nm x y = nm i j \<longleftrightarrow> (x, y) = (i, j)" if "(i, j) \<in> set ls" for i j
    using assms(1) xy that subsetD [OF assms(2) that] unfolding kc_wf_def by auto
  then have "nm x y \<in> (\<lambda>(i, j). nm i j) ` set ls \<longleftrightarrow> (x, y) \<in> set ls" by force
  then show "(if nm x y \<in> (\<lambda>(i, j). nm i j) ` set ls then b else enabled (kc_net cfg) (nm x y)) =
      (if (x, y) \<in> set ls then b else enabled (kc_net cfg) (nm x y))" by simp
qed

definition star :: "nat \<Rightarrow> nat list \<Rightarrow> nat \<Rightarrow> nat \<Rightarrow> bool" where
  "star i p x y \<longleftrightarrow> x = i \<and> y \<in> set p \<or> y = i \<and> x \<in> set p"

lemma set_star:
  assumes wf: "kc_wf nm cfg" and i: "i < kc_n cfg" and p: "set p \<subseteq> {..<kc_n cfg}"
  shows "sets_links nm cfg (\<lambda>x y. if star i p x y then b else enabled (kc_net cfg) (nm x y))
    (go_bind (kc_set_links b (map (\<lambda>t. (i, t)) p) cfg) (kc_set_links b (map (\<lambda>t. (t, i)) p)))"
proof (rule sets_links_bind)
  show "sets_links nm cfg (\<lambda>x y. if (x, y) \<in> set (map (\<lambda>t. (i, t)) p) then b else enabled (kc_net cfg) (nm x y)) (kc_set_links b (map (\<lambda>t. (i, t)) p) cfg)"
    by (rule set_links_view [OF wf]) (use i p in auto)
next
  fix f assume f: "\<And>x y. x < kc_n cfg \<Longrightarrow> y < kc_n cfg \<Longrightarrow> f (nm x y) = (if (x, y) \<in> set (map (\<lambda>t. (i, t)) p) then b else enabled (kc_net cfg) (nm x y))"
  have v: "sets_links nm (with_enabled cfg f) (\<lambda>x y. if (x, y) \<in> set (map (\<lambda>t. (t, i)) p) then b else enabled (kc_net (with_enabled cfg f)) (nm x y))
      (kc_set_links b (map (\<lambda>t. (t, i)) p) (with_enabled cfg f))"
    by (rule set_links_view) (use wf i p in auto)
  show "sets_links nm (with_enabled cfg f) (\<lambda>x y. if star i p x y then b else enabled (kc_net cfg) (nm x y))
      (kc_set_links b (map (\<lambda>t. (t, i)) p) (with_enabled cfg f))"
    by (rule sets_links_cong [OF v]) (auto simp: f star_def)
qed

lemma partition_step:
  assumes wf: "kc_wf nm cfg" and i: "i < kc_n cfg" and p: "set p \<subseteq> {..<kc_n cfg}" and q: "set q \<subseteq> {..<kc_n cfg}" "length q \<le> kc_n cfg"
  shows "sets_links nm cfg (\<lambda>x y. if star i p x y then True else if star i q x y then False else enabled (kc_net cfg) (nm x y))
    (go_bind (disconnectUnlocked i q cfg) (connectUnlocked i p))"
proof (rule sets_links_bind)
  have out: "disconnect_out i q cfg = kc_set_links False (map (\<lambda>t. (i, t)) q) cfg" by (rule disconnect_out_eq [OF wf i q(1)])
  obtain f where f: "kc_set_links False (map (\<lambda>t. (i, t)) q) cfg = Inr (with_enabled cfg f)"
    using kc_set_links_wf [OF wf, of "map (\<lambda>t. (i, t)) q" False] i q(1) by auto
  have "disconnect_in i 0 q (with_enabled cfg f) = kc_set_links False (map (\<lambda>t. (t, i)) q) (with_enabled cfg f)"
    by (rule disconnect_in_eq) (use wf i q in auto)
  then have "disconnectUnlocked i q cfg = go_bind (kc_set_links False (map (\<lambda>t. (i, t)) q) cfg) (kc_set_links False (map (\<lambda>t. (t, i)) q))"
    by (simp add: disconnectUnlocked_def out f)
  then show "sets_links nm cfg (\<lambda>x y. if star i q x y then False else enabled (kc_net cfg) (nm x y)) (disconnectUnlocked i q cfg)"
    using set_star [OF wf i q(1), of False] by simp
next
  fix f assume f: "\<And>x y. x < kc_n cfg \<Longrightarrow> y < kc_n cfg \<Longrightarrow> f (nm x y) = (if star i q x y then False else enabled (kc_net cfg) (nm x y))"
  have v: "sets_links nm (with_enabled cfg f) (\<lambda>x y. if star i p x y then True else enabled (kc_net (with_enabled cfg f)) (nm x y)) (connectUnlocked i p (with_enabled cfg f))"
    unfolding connectUnlocked_def by (rule set_star) (use wf i p in auto)
  show "sets_links nm (with_enabled cfg f) (\<lambda>x y. if star i p x y then True else if star i q x y then False else enabled (kc_net cfg) (nm x y))
      (connectUnlocked i p (with_enabled cfg f))"
    by (rule sets_links_cong [OF v]) (simp add: f)
qed

text \<open>After the servers \<open>is\<close> of the side \<open>p\<close>: their links inside \<open>p\<close> are up and those to \<open>q\<close> down.\<close>

definition side_view :: "nat list \<Rightarrow> nat list \<Rightarrow> nat list \<Rightarrow> (nat \<Rightarrow> nat \<Rightarrow> bool) \<Rightarrow> nat \<Rightarrow> nat \<Rightarrow> bool" where
  "side_view is p q V x y =
     (if x \<in> set is \<and> y \<in> set p \<or> y \<in> set is \<and> x \<in> set p then True
      else if x \<in> set is \<and> y \<in> set q \<or> y \<in> set is \<and> x \<in> set q then False else V x y)"

lemma partition_loop:
  assumes "kc_wf nm cfg" "set is \<subseteq> set p" "set p \<subseteq> {..<kc_n cfg}" "set q \<subseteq> {..<kc_n cfg}" "length q \<le> kc_n cfg" "set p \<inter> set q = {}"
  shows "sets_links nm cfg (side_view is p q (\<lambda>x y. enabled (kc_net cfg) (nm x y)))
    (for_kv (\<lambda>i c. go_bind (disconnectUnlocked i q c) (connectUnlocked i p)) is cfg)"
  using assms
proof (induction "is" arbitrary: cfg)
  case Nil
  then show ?case by (intro sets_linksI [of _ _ "enabled (kc_net cfg)"]) (simp_all add: side_view_def)
next
  case (Cons i "is")
  have step: "sets_links nm cfg (\<lambda>x y. if star i p x y then True else if star i q x y then False else enabled (kc_net cfg) (nm x y))
      (go_bind (disconnectUnlocked i q cfg) (connectUnlocked i p))"
    by (rule partition_step) (use Cons.prems in auto)
  show ?case unfolding for_kv.simps
  proof (rule sets_links_bind [OF step])
    fix f assume f: "\<And>x y. x < kc_n cfg \<Longrightarrow> y < kc_n cfg \<Longrightarrow>
      f (nm x y) = (if star i p x y then True else if star i q x y then False else enabled (kc_net cfg) (nm x y))"
    have v: "sets_links nm (with_enabled cfg f) (side_view is p q (\<lambda>x y. enabled (kc_net (with_enabled cfg f)) (nm x y)))
        (for_kv (\<lambda>i c. go_bind (disconnectUnlocked i q c) (connectUnlocked i p)) is (with_enabled cfg f))"
      by (rule Cons.IH) (use Cons.prems in auto)
    show "sets_links nm (with_enabled cfg f) (side_view (i # is) p q (\<lambda>x y. enabled (kc_net cfg) (nm x y)))
        (for_kv (\<lambda>i c. go_bind (disconnectUnlocked i q c) (connectUnlocked i p)) is (with_enabled cfg f))"
      by (rule sets_links_cong [OF v]) (use Cons.prems(2,6) in \<open>auto simp: f side_view_def star_def\<close>)
  qed
qed

lemma kc_partition_links:
  assumes "kc_wf nm cfg" "distinct (p @ q)" "set (p @ q) = {..<kc_n cfg}"
  shows "sets_links nm cfg (\<lambda>x y. x \<in> set p \<longleftrightarrow> y \<in> set p) (kc_partition p q cfg)"
  unfolding kc_partition_def
proof (rule sets_links_bind)
  have le: "length p \<le> kc_n cfg" "length q \<le> kc_n cfg"
    using distinct_card [OF assms(2)] unfolding assms(3) by simp_all
  have sub: "set p \<subseteq> {..<kc_n cfg}" "set q \<subseteq> {..<kc_n cfg}" "set p \<inter> set q = {}"
    using equalityD1 [OF assms(3)] assms(2) by simp_all
  show "sets_links nm cfg (side_view p p q (\<lambda>x y. enabled (kc_net cfg) (nm x y))) (partition_side p q cfg)"
    unfolding partition_side_def by (rule partition_loop [OF assms(1) subset_refl sub(1,2) le(2) sub(3)])
  fix f assume f: "\<And>x y. x < kc_n cfg \<Longrightarrow> y < kc_n cfg \<Longrightarrow> f (nm x y) = side_view p p q (\<lambda>x y. enabled (kc_net cfg) (nm x y)) x y"
  have v: "sets_links nm (with_enabled cfg f) (side_view q q p (\<lambda>x y. enabled (kc_net (with_enabled cfg f)) (nm x y))) (partition_side q p (with_enabled cfg f))"
    unfolding partition_side_def by (rule partition_loop) (use assms(1) sub le in \<open>simp_all add: Int_commute\<close>)
  have all: "x < kc_n cfg \<Longrightarrow> x \<in> set p \<or> x \<in> set q" for x using equalityD2 [OF assms(3)] by auto
  have disj: "x \<in> set p \<Longrightarrow> x \<notin> set q" for x using sub(3) by auto
  have "side_view q q p (\<lambda>x y. f (nm x y)) x y \<longleftrightarrow> (x \<in> set p \<longleftrightarrow> y \<in> set p)" if "x < kc_n cfg" "y < kc_n cfg" for x y
    using all [OF that(1)] all [OF that(2)] disj [of x] disj [of y]
    by (cases "x \<in> set p"; cases "y \<in> set p") (simp_all add: side_view_def f [OF that])
  then show "sets_links nm (with_enabled cfg f) (\<lambda>x y. x \<in> set p \<longleftrightarrow> y \<in> set p) (partition_side q p (with_enabled cfg f))"
    by (intro sets_links_cong [OF v]) simp
qed

section \<open>The partition of the tests\<close>

lemma take_Suc_update: "j < length q \<Longrightarrow> take (Suc j) (q[j := i]) = take j q @ [i]"
  by (simp add: take_Suc_conv_app_nth)

lemma fill_parts_spec:
  assumes "j + length (filter (\<lambda>i. i \<noteq> l) is) \<le> length p1 + length p2"
  shows "\<exists>r1 r2. fill_parts l is j p1 p2 = Inr (r1, r2) \<and> length r1 = length p1 \<and> length r2 = length p2 \<and>
    r1 @ r2 = take j (p1 @ p2) @ filter (\<lambda>i. i \<noteq> l) is @ drop (j + length (filter (\<lambda>i. i \<noteq> l) is)) (p1 @ p2)"
  using assms
proof (induction "is" arbitrary: j p1 p2)
  case (Cons i "is")
  let ?xs = "filter (\<lambda>i. i \<noteq> l) is" and ?q = "p1 @ p2"
  have next_q: "take (Suc j) (?q[j := i]) @ ?xs @ drop (Suc j + length ?xs) (?q[j := i]) = take j ?q @ (i # ?xs) @ drop (j + length (i # ?xs)) ?q"
    if "j < length ?q" using that by (simp add: take_Suc_update del: append_assoc take_append drop_append list_update_append)
  consider "i = l" | (left) "i \<noteq> l" "j < length p1" | (right) "i \<noteq> l" "\<not> j < length p1" by blast
  then show ?case
  proof cases
    case left
    have xs: "filter (\<lambda>i. i \<noteq> l) (i # is) = i # ?xs" and jq: "j < length ?q" using left Cons.prems by auto
    have q: "p1[j := i] @ p2 = ?q[j := i]" using left by (simp add: list_update_append)
    have f: "fill_parts l (i # is) j p1 p2 = fill_parts l is (Suc j) (p1[j := i]) p2" using left by simp
    show ?thesis unfolding f xs using Cons.IH [of "Suc j" "p1[j := i]" p2] Cons.prems left(2) unfolding q xs next_q [OF jq] by simp
  next
    case right
    have xs: "filter (\<lambda>i. i \<noteq> l) (i # is) = i # ?xs" and jq: "j < length ?q" using right Cons.prems by auto
    have j: "int j - int (length p1) = int (j - length p1)" "j - length p1 < length p2" using right Cons.prems by auto
    have w: "slice_set p2 (int j - int (length p1)) i = Inr (p2[j - length p1 := i])"
      unfolding j(1) slice_set_def in_range_def nat_int using j(2) by simp
    have q: "p1 @ p2[j - length p1 := i] = ?q[j := i]" using right by (simp add: list_update_append)
    have f: "fill_parts l (i # is) j p1 p2 = fill_parts l is (Suc j) p1 (p2[j - length p1 := i])"
      using right w by simp
    show ?thesis unfolding f xs using Cons.IH [of "Suc j" p1 "p2[j - length p1 := i]"] Cons.prems unfolding q xs next_q [OF jq] by simp
  qed (use Cons in simp)
qed (simp del: take_append drop_append)

lemma length_others: "l < n \<Longrightarrow> length (filter (\<lambda>i. i \<noteq> l) [0..<n]) = n - 1"
proof -
  assume l: "l < n"
  have "length (filter (\<lambda>i. i \<noteq> l) [0..<n]) = card (set (filter (\<lambda>i. i \<noteq> l) [0..<n]))" by (rule distinct_card [symmetric]) simp
  also have "set (filter (\<lambda>i. i \<noteq> l) [0..<n]) = {..<n} - {l}" by auto
  finally show ?thesis using l by simp
qed

lemma make_partition_odd:
  assumes n: "kc_n cfg = 2 * m + 1" "0 < m" and l: "Leader cfg = Inr (b, l)" "l < kc_n cfg"
  shows "\<exists>p1 p2. make_partition cfg = Inr (p1, p2) \<and> length p1 = m + 1 \<and> length p2 = m \<and> p1 @ p2 = filter (\<lambda>i. i \<noteq> l) [0..<kc_n cfg] @ [l]"
proof -
  let ?xs = "filter (\<lambda>i. i \<noteq> l) [0..<kc_n cfg]"
  have len: "length ?xs = 2 * m" using length_others [OF l(2)] n(1) by simp
  obtain r1 r2 where r: "fill_parts l [0..<kc_n cfg] 0 (replicate (m + 1) 0) (replicate m 0) = Inr (r1, r2)" "length r1 = m + 1" "length r2 = m"
      "r1 @ r2 = ?xs @ drop (2 * m) (replicate (m + 1) 0 @ replicate m 0)"
    using fill_parts_spec [of 0 l "[0..<kc_n cfg]" "replicate (m + 1) 0" "replicate m 0"] len by auto
  have rest: "drop (2 * m) (replicate (m + 1) 0 @ replicate m 0) = [0 :: nat]"
    unfolding replicate_add [symmetric] drop_replicate by simp
  have idx: "int m - 1 = int (m - 1)" "m - 1 < length r2" using n(2) r(3) by auto
  have "r1 @ r2[m - 1 := l] = (r1 @ r2)[2 * m := l]" using r(2) n(2) by (simp add: list_update_append)
  also have "\<dots> = ?xs @ [l]" unfolding r(4) rest using len by (simp add: list_update_append)
  finally have cat: "r1 @ r2[m - 1 := l] = ?xs @ [l]" .
  have half: "kc_n cfg div 2 = m" using n(1) by simp
  have last: "slice_set r2 (int (length r2) - 1) l = Inr (r2[m - 1 := l])"
    unfolding r(3) idx(1) using idx(2) slice_set_ok [of r2 "int (m - 1)" l] by simp
  have "make_partition cfg = Inr (r1, r2[m - 1 := l])"
    unfolding make_partition_def l(1) half go_bind.simps prod.case r(1) last ..
  then show ?thesis using cat r(2,3) by (intro exI [of _ r1] exI [of _ "r2[m - 1 := l]"]) (simp del: upt_Suc)
qed

lemma leader_loop_spec:
  "leader_loop cfg is = Inr (b, l) \<Longrightarrow>
     (if b then l \<in> set is \<and> (\<exists>kv. kvservers cfg ! l = Some kv \<and> serverState (kv_rf kv) = LEADER) else l = 0)"
  by (induction "is") (auto simp: go_simps GetState_def split: option.splits if_splits)

lemma leader_loop_total:
  "(\<And>i. i \<in> set is \<Longrightarrow> i < length (kvservers cfg) \<and> kvservers cfg ! i \<noteq> None) \<Longrightarrow> \<exists>b l. leader_loop cfg is = Inr (b, l)"
proof (induction "is")
  case (Cons i "is")
  obtain kv where "i < length (kvservers cfg)" "kvservers cfg ! i = Some kv" using Cons.prems [of i] by auto
  then have "leader_loop cfg (i # is) = (if snd (GetState (kv_rf kv)) then Inr (True, i) else leader_loop cfg is)" by simp
  then show ?case using Cons by (metis list.set_intros(2))
qed auto

section \<open>Names of the started servers\<close>

lemma StartServer_effect:
  assumes "StartServer names i cfg = Inr cfg'"
  shows "kc_n cfg' = kc_n cfg" "i < length (kc_endnames cfg)"
    "kc_endnames cfg' = (kc_endnames cfg)[i := Some (map names [0..<kc_n cfg])]"
    "inj_on names {..<kc_n cfg}" "names ` {..<kc_n cfg} \<inter> ends (kc_net cfg) = {}"
    "ends (kc_net cfg') = ends (kc_net cfg) \<union> names ` {..<kc_n cfg}"
proof -
  obtain rn where rn: "make_ends (map (\<lambda>j. (names j, j)) [0..<kc_n cfg]) (kc_net cfg) = Inr rn"
      "ends (kc_net cfg') = ends rn" "kc_n cfg' = kc_n cfg" "i < length (kc_endnames cfg)"
      "kc_endnames cfg' = (kc_endnames cfg)[i := Some (map names [0..<kc_n cfg])]"
    using assms by (auto simp: StartServer_def go_simps Let_def AddServer_def)
  have fst_eq: "fst ` set (map (\<lambda>j. (names j, j)) [0..<kc_n cfg]) = names ` {..<kc_n cfg}"
    "map fst (map (\<lambda>j. (names j, j)) [0..<kc_n cfg]) = map names [0..<kc_n cfg]"
    by (auto simp: image_def)
  note eff = make_ends_effect [OF rn(1), unfolded fst_eq]
  show "inj_on names {..<kc_n cfg}" using eff by (simp add: distinct_map lessThan_atLeast0)
  show "names ` {..<kc_n cfg} \<inter> ends (kc_net cfg) = {}" "ends (kc_net cfg') = ends (kc_net cfg) \<union> names ` {..<kc_n cfg}"
    using eff rn(2) by simp_all
qed (use assms in \<open>auto simp: StartServer_def go_simps Let_def\<close>)

lemma start_loop_names:
  "for_kv (\<lambda>i. StartServer (names i) i) js cfg = Inr cfg' \<Longrightarrow> distinct js \<Longrightarrow>
     kc_n cfg' = kc_n cfg \<and> length (kc_endnames cfg') = length (kc_endnames cfg) \<and>
     (\<forall>i. kc_endnames cfg' ! i = (if i \<in> set js then Some (map (names i) [0..<kc_n cfg]) else kc_endnames cfg ! i)) \<and>
     (\<forall>a \<in> set js. \<forall>b<kc_n cfg. names a b \<notin> ends (kc_net cfg)) \<and>
     (\<forall>a \<in> set js. \<forall>c \<in> set js. \<forall>b<kc_n cfg. \<forall>d<kc_n cfg. names a b = names c d \<longrightarrow> a = c \<and> b = d)"
proof (induction js arbitrary: cfg)
  case (Cons i js)
  obtain c where c: "StartServer (names i) i cfg = Inr c" "for_kv (\<lambda>i. StartServer (names i) i) js c = Inr cfg'" using Cons.prems by auto
  note e = StartServer_effect [OF c(1)]
  have d: "i \<notin> set js" "distinct js" using Cons.prems(2) by auto
  note ih = Cons.IH [OF c(2) d(2), unfolded e(1,6)]
  have fresh: "a \<in> set js \<Longrightarrow> b < kc_n cfg \<Longrightarrow> names a b \<notin> ends (kc_net cfg) \<and> names a b \<notin> names i ` {..<kc_n cfg}" for a b
    using ih by blast
  have inj: "b < kc_n cfg \<Longrightarrow> d < kc_n cfg \<Longrightarrow> names i b = names i d \<Longrightarrow> b = d" for b d
    using e(4) by (simp add: inj_on_def)
  have new: "b < kc_n cfg \<Longrightarrow> names i b \<notin> ends (kc_net cfg)" for b using e(5) by blast
  show ?case
  proof (intro conjI)
    show "kc_n cfg' = kc_n cfg" "length (kc_endnames cfg') = length (kc_endnames cfg)" using ih e(3) by simp_all
    show "\<forall>k. kc_endnames cfg' ! k = (if k \<in> set (i # js) then Some (map (names k) [0..<kc_n cfg]) else kc_endnames cfg ! k)"
      using ih e(2,3) d(1) by (auto simp: nth_list_update)
    show "\<forall>a \<in> set (i # js). \<forall>b<kc_n cfg. names a b \<notin> ends (kc_net cfg)" using fresh new by simp
    have "names a b \<noteq> names i d" if "a \<in> set js" "b < kc_n cfg" "d < kc_n cfg" for a b d
      using fresh [OF that(1,2)] that(3) by blast
    then show "\<forall>a \<in> set (i # js). \<forall>c \<in> set (i # js). \<forall>b<kc_n cfg. \<forall>d<kc_n cfg. names a b = names c d \<longrightarrow> a = c \<and> b = d"
      using ih inj by (metis set_ConsD)
  qed
qed simp

lemma connect_all_loop:
  assumes "kc_wf nm cfg" "set is \<subseteq> {..<kc_n cfg}"
  shows "sets_links nm cfg (\<lambda>x y. x \<in> set is \<or> y \<in> set is \<or> enabled (kc_net cfg) (nm x y))
    (for_kv (\<lambda>i c. connectUnlocked i (All_servers c) c) is cfg)"
  using assms
proof (induction "is" arbitrary: cfg)
  case Nil
  then show ?case by (intro sets_linksI [of _ _ "enabled (kc_net cfg)"]) simp_all
next
  case (Cons i "is")
  have i: "i < kc_n cfg" "set (All_servers cfg) \<subseteq> {..<kc_n cfg}" using Cons.prems by (auto simp: All_servers_def)
  show ?case unfolding for_kv.simps connectUnlocked_def
  proof (rule sets_links_bind [OF set_star [OF Cons.prems(1) i]])
    fix f assume f: "\<And>x y. x < kc_n cfg \<Longrightarrow> y < kc_n cfg \<Longrightarrow> f (nm x y) = (if star i (All_servers cfg) x y then True else enabled (kc_net cfg) (nm x y))"
    have v: "sets_links nm (with_enabled cfg f) (\<lambda>x y. x \<in> set is \<or> y \<in> set is \<or> enabled (kc_net (with_enabled cfg f)) (nm x y))
        (for_kv (\<lambda>i c. connectUnlocked i (All_servers c) c) is (with_enabled cfg f))"
      by (rule Cons.IH) (use Cons.prems in auto)
    show "sets_links nm (with_enabled cfg f) (\<lambda>x y. x \<in> set (i # is) \<or> y \<in> set (i # is) \<or> enabled (kc_net cfg) (nm x y))
        (for_kv (\<lambda>i c. go_bind (kc_set_links True (map (\<lambda>t. (i, t)) (All_servers c)) c) (kc_set_links True (map (\<lambda>t. (t, i)) (All_servers c))))
           is (with_enabled cfg f))"
      by (rule sets_links_cong [OF v [unfolded connectUnlocked_def]]) (auto simp: f star_def All_servers_def)
  qed
qed

text \<open>Healing the network brings every link between servers up.\<close>

lemma ConnectAll_links: "kc_wf nm cfg \<Longrightarrow> sets_links nm cfg (\<lambda>x y. True) (ConnectAll cfg)"
  unfolding ConnectAll_def by (rule sets_links_cong [OF connect_all_loop]) auto

lemma make_kvconfig_wf:
  assumes "make_kvconfig names n unreliable maxraftstate = Inr cfg"
  shows "kc_wf names cfg" "kc_n cfg = n"
proof -
  obtain c c' where c: "for_kv (\<lambda>i. StartServer (names i) i) [0..<n] (empty_kvconfig n maxraftstate) = Inr c" "ConnectAll c = Inr c'"
      "cfg = c'\<lparr>kc_net := Reliable (\<not> unreliable) (kc_net c')\<rparr>"
    using assms unfolding make_kvconfig_def by auto
  have k: "kc_n (empty_kvconfig n maxraftstate) = n" "length (kc_endnames (empty_kvconfig n maxraftstate)) = n"
    by (simp_all add: empty_kvconfig_def)
  note started = start_loop_names [OF c(1) distinct_upt, unfolded k]
  have n: "kc_n c = n" "length (kc_endnames c) = n" using started by blast+
  have named: "kc_endnames c ! i = Some (map (names i) [0..<n])" if "i < n" for i
  proof -
    have "\<forall>i. kc_endnames c ! i = (if i \<in> set [0..<n] then Some (map (names i) [0..<n]) else kc_endnames (empty_kvconfig n maxraftstate) ! i)"
      using started by blast
    then show ?thesis using that by (metis atLeastLessThan_iff le0 set_upt)
  qed
  have inj: "names a b = names d e \<Longrightarrow> a = d \<and> b = e" if "a < n" "b < n" "d < n" "e < n" for a b d e
  proof -
    have "a \<in> set [0..<n]" "d \<in> set [0..<n]" using that by simp_all
    then show "names a b = names d e \<Longrightarrow> a = d \<and> b = e" using started that(2,4) by blast
  qed
  have wf: "kc_wf names c" unfolding kc_wf_def n using named inj by blast
  obtain f where "c' = with_enabled c f" using ConnectAll_links [OF wf] c(2) by (auto simp: sets_links_def)
  then have "kc_n cfg = kc_n c" "kc_endnames cfg = kc_endnames c" by (simp_all add: c(3))
  then show "kc_wf names cfg" "kc_n cfg = n" using wf n by (simp_all add: kc_wf_def)
qed

text \<open>The configuration after the tests have changed links and the servers have run.\<close>

definition evolved :: "kvconfig \<Rightarrow> (string \<Rightarrow> bool) \<Rightarrow> KVServer list \<Rightarrow> kvconfig" where
  "evolved cfg f kvs = with_enabled (cfg\<lparr>kvservers := map Some kvs\<rparr>) f"

lemma evolved_simps [simp]:
  "kc_wf nm (evolved cfg f kvs) = kc_wf nm cfg" "kc_n (evolved cfg f kvs) = kc_n cfg" "kvservers (evolved cfg f kvs) = map Some kvs"
  by (simp_all add: evolved_def kc_wf_def) (simp add: with_enabled_def)

text \<open>C14: In a configuration with an odd number of at least three servers, whatever links are up and whoever leads,
  make_partition splits the servers into a majority and a minority that holds the leader, and partition then leaves up
  exactly the links between servers of the same side.\<close>

theorem partition_isolates_leader:
  assumes "make_kvconfig names n unreliable maxraftstate = Inr cfg" "odd n" "3 \<le> n" "length kvs = n"
  shows "\<exists>p1 p2 cfg' b l. make_partition (evolved cfg f kvs) = Inr (p1, p2) \<and> kc_partition p1 p2 (evolved cfg f kvs) = Inr cfg' \<and>
    length p1 = n div 2 + 1 \<and> length p2 = n div 2 \<and> distinct (p1 @ p2) \<and> set (p1 @ p2) = {..<n} \<and>
    Leader (evolved cfg f kvs) = Inr (b, l) \<and> l \<in> set p2 \<and>
    (\<forall>x<n. \<forall>y<n. enabled (kc_net cfg') (names x y) \<longleftrightarrow> (x \<in> set p1 \<longleftrightarrow> y \<in> set p1))"
proof -
  let ?cfg = "evolved cfg f kvs"
  note wf = make_kvconfig_wf [OF assms(1)]
  obtain m where m: "n = 2 * m + 1" "0 < m" using assms(2,3) by (elim oddE) auto
  obtain b l where l: "Leader ?cfg = Inr (b, l)"
    using leader_loop_total [of "[0..<n]" ?cfg] assms(4) unfolding Leader_def by (auto simp: wf(2))
  have "l < n" using leader_loop_spec [OF l [unfolded Leader_def]] m(1) wf(2) by (auto split: if_splits)
  then obtain p1 p2 where p: "make_partition ?cfg = Inr (p1, p2)" "length p1 = m + 1" "length p2 = m"
      "p1 @ p2 = filter (\<lambda>i. i \<noteq> l) [0..<n] @ [l]"
    using make_partition_odd [of ?cfg m b l] m l wf(2) by auto
  have parts: "distinct (p1 @ p2)" "set (p1 @ p2) = {..<n}" unfolding p(4) using \<open>l < n\<close> by auto
  have "l \<in> set p2" using arg_cong [OF p(4), of last] p(3) m(2) by (metis last_appendR last_in_set last_snoc length_0_conv less_numeral_extra(3))
  moreover obtain cfg' where "kc_partition p1 p2 ?cfg = Inr cfg'" "\<forall>x<n. \<forall>y<n. enabled (kc_net cfg') (names x y) \<longleftrightarrow> (x \<in> set p1 \<longleftrightarrow> y \<in> set p1)"
    using kc_partition_links [of names ?cfg p1 p2] wf parts by (auto simp: sets_links_def)
  moreover have "n div 2 = m" using m(1) by simp
  ultimately show ?thesis using p(1,2,3) l parts by blast
qed

text \<open>Three servers of which the second leads.\<close>

definition demo_kvs :: "KVServer list" where
  "demo_kvs = map (\<lambda>i. let kv = StartKVServer 3 (int i) MakePersister 1000 in
     if i = 1 then kv\<lparr>kv_rf := (kv_rf kv)\<lparr>serverState := LEADER, currentTerm := 1\<rparr>\<rparr> else kv) [0..<3]"

definition demo_kvconfig :: "kvconfig go" where
  "demo_kvconfig = make_kvconfig demo_names 3 False 1000"

lemma demo_kvconfig_ok:
  "case demo_kvconfig of Inl _ \<Rightarrow> False
   | Inr cfg \<Rightarrow> make_partition (evolved cfg (\<lambda>_. True) demo_kvs) = Inr ([0, 2], [1]) \<and> length demo_kvs = 3"
  by code_simp

theorem partition_isolates_leader_witness:
  "\<exists>cfg cfg'. demo_kvconfig = Inr cfg \<and> kc_partition [0, 2] [1] (evolved cfg (\<lambda>_. True) demo_kvs) = Inr cfg' \<and>
     enabled (kc_net cfg') (demo_names 0 2) \<and> \<not> enabled (kc_net cfg') (demo_names 0 1)"
proof -
  obtain cfg where cfg: "demo_kvconfig = Inr cfg" "make_partition (evolved cfg (\<lambda>_. True) demo_kvs) = Inr ([0, 2], [1])" "length demo_kvs = 3"
    using demo_kvconfig_ok by (auto split: sum.splits)
  have "odd (3 :: nat)" "3 \<le> (3 :: nat)" by simp_all
  from partition_isolates_leader [OF cfg(1) [unfolded demo_kvconfig_def] this cfg(3), of "\<lambda>_. True"] cfg(1,2) show ?thesis by auto
qed

text \<open>With four servers the second place of the minority keeps its zero value: server 0 is on both sides of the partition.\<close>

lemma even_partition_overlaps:
  "make_partition (evolved (empty_kvconfig 4 1000) (\<lambda>_. True) (map (\<lambda>i. (StartKVServer 4 (int i) MakePersister 1000)\<lparr>kv_rf :=
     (Make 4 (int i) MakePersister)\<lparr>serverState := (if i = 1 then LEADER else FOLLOWER)\<rparr>\<rparr>) [0..<4])) = Inr ([0, 2, 3], [0, 1])"
  by code_simp

text \<open>With a single server the minority is empty and writing its last place panics.\<close>

lemma single_partition_panics:
  "go_bind (make_kvconfig demo_names 1 False 1000) make_partition = Inl IndexOutOfRange"
  by code_simp

text \<open>
  The names of the server that an incoming link comes from are not checked: a disconnect from server 1, which has not been
  started, panics because server 0 has been.
\<close>

lemma disconnect_unstarted_panics:
  "case go_bind (StartServer (demo_names 0) 0 (empty_kvconfig 2 1000)) (disconnectUnlocked 0 [1]) of
     Inl e \<Rightarrow> e = IndexOutOfRange | Inr _ \<Rightarrow> False"
  by code_simp

end
