(* ===== verification/Spec2Isabelle.thy ===== *)
theory Spec2Isabelle
  imports Bitset Coordinator_Props MR_Apps Chord_Formation Http_Proxy Raft_Cluster Porcupine_Visual Kv_Config
begin

text \<open>
  \<^bold>\<open>What this development verifies.\<close>  The repository holds course labs in Go: an HTTP server and a proxy
  (\<^verbatim>\<open>src/Lab1_HTTP_server\<close>), a MapReduce system, leader election of Raft, and the libraries of those labs: a
  linearizability checker and a simulated network (\<^verbatim>\<open>src/Lab2_MapReduce/src\<close>), and a Chord ring with file
  storage (\<^verbatim>\<open>src/Lab3_Chord\<close>).  The programs are translated function by function into executable
  definitions with the names of the source, and the theorems are about these definitions.  The theorems in
  the manifest carry the numbers C1, C2 and so on in the text before them.

  \<^bold>\<open>Conventions\<close> (\<^verbatim>\<open>Prelude\<close>).  A struct is a record, an enumeration a datatype or its numbers, a slice a list
  with checked indices, and a map an association list where the code iterates over it and a function where
  it only looks up.  A run-time failure (an index out of range, a nil dereference, a failed type assertion, a
  panic, \<^verbatim>\<open>log.Fatal\<close>) is the left side of a sum.  Code under a mutex is one step.  Components with several
  goroutines are labelled transition systems over \<open>reach\<close> and \<open>run_of\<close>; the locale \<open>invariant_system\<close> holds
  the invariant rule and is interpreted by every one of them.  Machine words are words where the width
  matters: the chunks of the bit set, the FNV hash, the counters of the network, the operation codes.  Loops
  over data are structural recursions; a loop that might not end is a \<open>partial_function\<close> with an optional
  result, and that it ends is a theorem.  There is no fuel in the development.

  \<^bold>\<open>MapReduce\<close> (\<^verbatim>\<open>mr/rpc.go\<close>, \<^verbatim>\<open>mr/coordinator.go\<close>, \<^verbatim>\<open>mr/worker.go\<close>, \<^verbatim>\<open>main/mrsequential.go\<close>, \<^verbatim>\<open>mrapps\<close>).
  \<^item> \<^verbatim>\<open>MR_Rpc\<close> has the messages, \<^verbatim>\<open>Coordinator\<close> the task tables, the handlers (\<open>GetWork\<close>, \<open>MapDone\<close>,
    \<open>ReduceDone\<close> and the others) and the timer loop; \<^verbatim>\<open>Coordinator_Inv\<close> has its invariant and
    \<^verbatim>\<open>Coordinator_System\<close> the interleaving of workers, reports and ticks.
  \<^item> \<^verbatim>\<open>Coordinator_Props\<close> proves that no handler panics, that reduce jobs wait for all map jobs, that a
    running job is not handed out twice, that lost work is handed out again, and what \<open>Done\<close> means; it also
    proves two defects of the protocol as reachable states.
  \<^item> \<^verbatim>\<open>Json\<close> is the part of the encoder and the decoder that the worker uses, with its round trip;
    \<^verbatim>\<open>Worker\<close> is the worker and the sequential program; \<^verbatim>\<open>MapReduce\<close> and \<^verbatim>\<open>MapReduce_Equiv\<close> prove that any
    distribution of the jobs over workers writes the lines of the sequential program.
  \<^item> \<^verbatim>\<open>MR_Apps\<close> has the applications, that their reduce functions do not depend on the order of the values, and
    what word count computes.

  \<^bold>\<open>The linearizability checker\<close> (\<^verbatim>\<open>porcupine\<close>, \<^verbatim>\<open>models/kv.go\<close>).
  \<^item> \<^verbatim>\<open>Bitset\<close>: the bit set on 64-bit chunks, a refinement of finite sets (locale \<open>bounded_set\<close>).
  \<^item> \<^verbatim>\<open>Porcupine_List\<close>: histories and the doubly linked list in an explicit heap; \<open>unlift\<close> undoes \<open>lift\<close>.
  \<^item> \<^verbatim>\<open>Porcupine_Checker\<close>: models and \<open>checkSingle\<close>, the search over one partition.
  \<^item> \<^verbatim>\<open>Porcupine_Search\<close> defines linearizability and the space of configurations; \<^verbatim>\<open>Porcupine_Refine\<close> and
    \<^verbatim>\<open>Porcupine_Correct\<close> show that list, cache and stack of the search implement a depth-first exploration of that
    space, with a lexicographic measure of unvisited configurations, stack and list; \<^verbatim>\<open>Porcupine_Decides\<close>
    concludes that \<open>checkSingle\<close> ends and decides linearizability, for every model that meets the contract of the
    locale \<open>object_model\<close>.
  \<^item> \<^verbatim>\<open>Porcupine\<close> is the parallel check over the partitions with its timeout and kill flag, \<^verbatim>\<open>Porcupine_Kv\<close> the
    model of the key/value store, which interprets the contract, and \<^verbatim>\<open>Porcupine_Visual\<close> the data of the
    visualization, which never panics on what the checker returns.

  \<^bold>\<open>The simulated network and the test configurations\<close> (\<^verbatim>\<open>labrpc\<close>, \<^verbatim>\<open>raft/config.go\<close>, \<^verbatim>\<open>kvraft/config.go\<close>).
  \<^item> \<^verbatim>\<open>Labrpc\<close>: services, servers and the network, with the calls in flight as a transition system.  A handler runs at most
    once per call, and a call bound to a deleted server never succeeds.
  \<^item> \<^verbatim>\<open>Raft_Config\<close>: the tester of the Raft lab.  The enabled ends are those between connected servers; the committed
    entries that the readers accept agree, so that the counts of the tests do not fail; the leader that a test sees is
    the newest one.  A check that looks several times takes the states at those instants as arguments.
  \<^item> \<^verbatim>\<open>Kv_Config\<close>: the tester of the key/value lab.  A partition leaves up exactly the links inside its two sides and puts
    the leader into the minority; an example with an even number of servers shows where the code does not.

  \<^bold>\<open>Raft\<close> (\<^verbatim>\<open>raft/raft.go\<close>, \<^verbatim>\<open>raft/persister.go\<close>).  \<^verbatim>\<open>Raft\<close> has the state of a peer, its handlers and the pieces
  of its background loops between two points where the mutex is free; \<^verbatim>\<open>Raft_Cluster\<close> has a cluster with
  goroutines, requests and replies in flight, lost or late.  Peers are well-formed and no step fails; a peer votes
  once per term unless a late heartbeat reply lowers its term; two runs show how the code elects two leaders in a
  term and how a peer votes twice.

  \<^bold>\<open>Chord\<close>.  \<^verbatim>\<open>Chord_Util\<close> has the arithmetic of identifiers, \<^verbatim>\<open>Chord_Node\<close> the state, the start, the search and the
  handlers, \<^verbatim>\<open>Chord_Client\<close> the periodic tasks with the answers of other nodes as parameters, \<^verbatim>\<open>Chord_Files\<close> the
  files with encryption and replication.  \<^verbatim>\<open>Chord_Inv\<close> and \<^verbatim>\<open>Chord_System\<close> prove that the tables keep their shape and
  that no operation fails; \<^verbatim>\<open>Chord_Ring\<close> relates the interval test and the search to the owner of an identifier;
  \<^verbatim>\<open>Chord_Formation\<close> proves that two nodes form a ring and that a stored file is found.

  \<^bold>\<open>HTTP\<close>.  \<^verbatim>\<open>Http_Server\<close> has the handler of a connection and the accept loop with its condition variable;
  \<^verbatim>\<open>Http_Proxy\<close> has the proxy.  The server keeps its limit of ten and loses no wakeup, an uploaded file is served
  again, and the proxy never gives back the connections of requests that it does not forward.

  \<^bold>\<open>Parameters.\<close>  Code outside of the repository is an argument of the definitions that use it: \<^verbatim>\<open>sort.Sort\<close> (a sorted
  permutation, not stable), SHA-1, AES-GCM (opening undoes sealing), the answers of remote calls, the order in
  which a Go map is iterated, what a \<^verbatim>\<open>select\<close> receives, random choices, and failures of the operating system.
  The theorems that need a law of such an argument state it as a hypothesis.

  \<^bold>\<open>Not modelled.\<close>  Sockets, TLS, net/rpc and the parsing of net/http, console output and tracing; real time, of which only
  the order of timer events is kept.  The page of the visualization is a string constant with HTML and JavaScript.
  Of the tester of the Raft lab the loop \<^verbatim>\<open>one\<close>, which runs against real time, and the statistics are left out.  \<^verbatim>\<open>labgob\<close>
  prints warnings about types found by reflection; the configurations \<^verbatim>\<open>shardctrler/config.go\<close> and \<^verbatim>\<open>shardkv/config.go\<close>
  and the clerks of the key/value labs are left out.  The servers of the key/value labs have empty handlers, and those of
  \<^verbatim>\<open>shardctrler\<close> and \<^verbatim>\<open>shardkv\<close> are not modelled.  The remaining programs under \<^verbatim>\<open>main\<close> start packages that are not in the
  repository.
\<close>

end
